(* ===== verification/Zfs_Prelude.thy ===== *)
theory Zfs_Prelude
  imports Main "HOL-Library.Word"
begin

text \<open>
  Shared vocabulary of the development: the machine integer types of the C sources, the
  memory operations on byte arrays that \<^verbatim>\<open>memcpy\<close> and pointer stores become, the
  little-endian representation of integers, and the list and word lemmas that the component
  theories use. Nothing here models a particular function of the program.
\<close>

unbundle bit_operations_syntax

type_synonym u8 = "8 word"
type_synonym u16 = "16 word"
type_synonym u32 = "32 word"
type_synonym u64 = "64 word"

named_theorems mem_simps \<open>reading and writing ranges of byte arrays\<close>
named_theorems wf_intros \<open>introduction rules for the invariants of the components\<close>


section \<open>Ranges of arrays\<close>

definition slice :: "nat \<Rightarrow> nat \<Rightarrow> 'a list \<Rightarrow> 'a list" where
  "slice p n xs = take n (drop p xs)"

definition blit :: "nat \<Rightarrow> 'a list \<Rightarrow> 'a list \<Rightarrow> 'a list" where
  "blit p ys xs = take p xs @ ys @ drop (p + length ys) xs"

lemma length_slice [mem_simps]: "p + n \<le> length xs \<Longrightarrow> length (slice p n xs) = n"
  by (simp add: slice_def)

lemma length_blit [mem_simps]: "p + length ys \<le> length xs \<Longrightarrow> length (blit p ys xs) = length xs"
  by (simp add: blit_def)

lemma nth_blit:
  "p + length ys \<le> length xs \<Longrightarrow> i < length xs \<Longrightarrow>
   blit p ys xs ! i = (if p \<le> i \<and> i < p + length ys then ys ! (i - p) else xs ! i)"
  by (auto simp: blit_def nth_append min_def)

lemma nth_blit_below [mem_simps]:
  "p + length ys \<le> length xs \<Longrightarrow> i < p \<Longrightarrow> blit p ys xs ! i = xs ! i"
  by (simp add: nth_blit)

lemma nth_blit_inside [mem_simps]:
  "p + length ys \<le> length xs \<Longrightarrow> p \<le> i \<Longrightarrow> i < p + length ys \<Longrightarrow> blit p ys xs ! i = ys ! (i - p)"
  by (simp add: nth_blit)

lemma nth_blit_above [mem_simps]:
  "p + length ys \<le> length xs \<Longrightarrow> p + length ys \<le> i \<Longrightarrow> i < length xs \<Longrightarrow> blit p ys xs ! i = xs ! i"
  by (simp add: nth_blit)

lemma blit_Nil [simp]: "blit p [] xs = xs"
  by (simp add: blit_def)

lemma slice_eqI:
  assumes "length ys = n" and "p + n \<le> length xs" and "\<And>i. i < n \<Longrightarrow> xs ! (p + i) = ys ! i"
  shows "slice p n xs = ys"
  using assms by (intro nth_equalityI) (auto simp: slice_def)

lemma slice_cong:
  assumes "p + n \<le> length xs" and "p + n \<le> length ys"
    and "\<And>i. p \<le> i \<Longrightarrow> i < p + n \<Longrightarrow> xs ! i = ys ! i"
  shows "slice p n xs = slice p n ys"
  using assms by (intro nth_equalityI) (auto simp: slice_def)

lemma slice_blit_same [mem_simps]:
  "p + length ys \<le> length xs \<Longrightarrow> n = length ys \<Longrightarrow> slice p n (blit p ys xs) = ys"
  by (intro slice_eqI) (auto simp: nth_blit length_blit)

lemma blit_singleton: "p < length xs \<Longrightarrow> blit p [y] xs = xs[p := y]"
  by (simp add: blit_def upd_conv_take_nth_drop)


section \<open>Little-endian integers\<close>

fun nat_of_bytes :: "u8 list \<Rightarrow> nat" where
  "nat_of_bytes [] = 0"
| "nat_of_bytes (b # bs) = unat b + 256 * nat_of_bytes bs"

fun bytes_of_nat :: "nat \<Rightarrow> nat \<Rightarrow> u8 list" where
  "bytes_of_nat 0 x = []"
| "bytes_of_nat (Suc n) x = of_nat (x mod 256) # bytes_of_nat n (x div 256)"

definition le_bytes :: "nat \<Rightarrow> 'a::len word \<Rightarrow> u8 list" where
  "le_bytes n w = bytes_of_nat n (unat w)"

definition le_word :: "u8 list \<Rightarrow> 'a::len word" where
  "le_word bs = of_nat (nat_of_bytes bs)"

lemma length_bytes_of_nat [simp]: "length (bytes_of_nat n x) = n"
  by (induction n arbitrary: x) auto

lemma length_le_bytes [simp]: "length (le_bytes n w) = n"
  by (simp add: le_bytes_def)

lemma nat_of_bytes_of_nat: "nat_of_bytes (bytes_of_nat n x) = x mod 256 ^ n"
  by (induction n arbitrary: x) (auto simp: unat_of_nat mod_mult2_eq)

lemma nat_of_bytes_bound: "nat_of_bytes bs < 256 ^ length bs"
proof (induction bs)
  case (Cons b bs)
  have "unat b < 256"
    using unsigned_less [of b, where ?'a = nat] by simp
  with Cons.IH show ?case by simp
qed simp

lemma bytes_of_nat_of_bytes: "bytes_of_nat (length bs) (nat_of_bytes bs) = bs"
proof (induction bs)
  case (Cons b bs)
  have "unat b < 256"
    using unsigned_less [of b, where ?'a = nat] by simp
  with Cons.IH show ?case by simp
qed simp

lemma le_word_le_bytes:
  assumes "LENGTH('a) = 8 * n"
  shows "le_word (le_bytes n (w :: 'a::len word)) = w"
proof -
  have "(256::nat) ^ n = 2 ^ LENGTH('a)"
    by (simp add: assms power_mult)
  then have "unat w mod 256 ^ n = unat w"
    using unsigned_less [of w, where ?'a = nat] by simp
  then show ?thesis
    by (simp add: le_word_def le_bytes_def nat_of_bytes_of_nat)
qed

lemma le_bytes_le_word:
  assumes "LENGTH('a) = 8 * length bs"
  shows "le_bytes (length bs) (le_word bs :: 'a::len word) = bs"
proof -
  have "(256::nat) ^ length bs = 2 ^ LENGTH('a)"
    by (simp add: assms power_mult)
  then have "unat (le_word bs :: 'a word) = nat_of_bytes bs"
    using nat_of_bytes_bound [of bs] by (simp add: le_word_def unat_of_nat)
  then show ?thesis
    by (simp add: le_bytes_def bytes_of_nat_of_bytes)
qed


section \<open>Words\<close>

lemma take_bit_unat: "LENGTH('a) \<le> n \<Longrightarrow> take_bit n (unat x) = unat x" for x :: "'a::len word"
  by (simp add: take_bit_nat_eq_self_iff order.strict_trans2 [OF unsigned_less] power_increasing)

lemma and_not_mask: "x AND NOT (mask k) = push_bit k (drop_bit k x)" for x :: "'a::len word"
  by (rule bit_word_eqI) (auto simp: bit_simps)

lemma unat_and_not_mask: "unat (x AND NOT (mask k)) = unat x div 2 ^ k * 2 ^ k" for x :: "'a::len word"
proof -
  have "unat (push_bit k (drop_bit k x)) = take_bit LENGTH('a) (push_bit k (drop_bit k (unat x)))"
    by (simp add: unsigned_push_bit_eq unsigned_drop_bit_eq take_bit_unat)
  also have "\<dots> = push_bit k (drop_bit k (unat x))"
  proof -
    have "push_bit k (drop_bit k (unat x)) \<le> unat x"
      by (simp add: push_bit_eq_mult drop_bit_eq_div)
    then have "push_bit k (drop_bit k (unat x)) < 2 ^ LENGTH('a)"
      using unsigned_less [of x, where ?'a = nat] by linarith
    then show ?thesis by (simp add: take_bit_nat_eq_self_iff)
  qed
  finally show ?thesis
    by (simp add: and_not_mask push_bit_eq_mult drop_bit_eq_div)
qed

lemma unat_ucast_32_64 [simp]: "unat (ucast (x :: u32) :: u64) = unat x"
  by (simp add: unsigned_ucast_eq take_bit_unat)

lemma ucast_32_64_eq_iff [simp]: "(ucast (x :: u32) :: u64) = ucast y \<longleftrightarrow> x = y"
  by (metis unat_ucast_32_64 word_unat_eq_iff)

end
