(* ===== verification/Data_Coding.thy ===== *)
theory Data_Coding
  imports Zfs_Prelude
begin

text \<open>
  The data coding buffer of \<^verbatim>\<open>zfs-protocol/data-coding.c\<close>: the structure \<^verbatim>\<open>DC\<close>, the
  macros \<^verbatim>\<open>ALIGN_N\<close>, \<^verbatim>\<open>ENCODE_SIMPLE_TYPE\<close> and \<^verbatim>\<open>DECODE_SIMPLE_TYPE\<close>, the coders of
  data buffers, fixed buffers and strings, and the packet brackets \<^verbatim>\<open>start_encoding\<close> \dots
  \<^verbatim>\<open>finish_decoding\<close>.

  A \<^verbatim>\<open>DC *\<close> is a record. The array \<^verbatim>\<open>buffer\<close> holds the \<^verbatim>\<open>ZFS_DC_SIZE\<close> bytes that are
  certain to exist behind the 16-aligned pointer \<^verbatim>\<open>dc->buffer\<close>; \<^verbatim>\<open>cur_pos\<close> is the
  distance of the C pointer from \<^verbatim>\<open>dc->buffer\<close>, which has the alignment of the pointer itself.
  The ghost field \<open>fault\<close> records an access outside the array: C leaves such an access
  undefined, the theorems show that it does not happen.

  Encoders return the C result and the new buffer. Decoders return \<open>None\<close> where C returns
  \<^verbatim>\<open>false\<close>, and \<open>Some\<close> of what C stores through its result pointer otherwise. Pointers
  into the buffer that a decoder hands out are modelled by the bytes they point to.
\<close>


section \<open>The buffer\<close>

definition ZFS_DC_SIZE :: "'a::len word" where
  "ZFS_DC_SIZE = 8888"

definition ZFS_MAXDATA :: u32 where
  "ZFS_MAXDATA = 8192"

record dc =
  buffer :: "u8 list"
  cur_pos :: u64
  max_length :: u32
  cur_length :: u32
  fault :: bool

type_synonym 'a decoder = "dc \<Rightarrow> 'a option \<times> dc"
type_synonym encoder = "dc \<Rightarrow> bool \<times> dc"

definition ALIGN_1 :: "'a::len word \<Rightarrow> 'a word" where
  "ALIGN_1 n = n"

definition ALIGN_2 :: "'a::len word \<Rightarrow> 'a word" where
  "ALIGN_2 n = (n + 1) AND NOT 1"

definition ALIGN_4 :: "'a::len word \<Rightarrow> 'a word" where
  "ALIGN_4 n = (n + 3) AND NOT 3"

definition ALIGN_8 :: "'a::len word \<Rightarrow> 'a word" where
  "ALIGN_8 n = (n + 7) AND NOT 7"

definition ALIGN_16 :: "'a::len word \<Rightarrow> 'a word" where
  "ALIGN_16 n = (n + 15) AND NOT 15"

definition ALIGN_256 :: "'a::len word \<Rightarrow> 'a word" where
  "ALIGN_256 n = (n + 255) AND NOT 255"

text \<open>
  \<open>dc_init\<close> computes the address of the buffer from the address of the array \<^verbatim>\<open>data\<close>, which
  has \<^verbatim>\<open>ZFS_DC_SIZE + 15\<close> bytes.
\<close>

definition dc_init :: "u64 \<Rightarrow> u64" where
  "dc_init data = ALIGN_16 data"

definition dc_create :: "u8 list \<Rightarrow> u64 \<Rightarrow> u32 \<Rightarrow> u32 \<Rightarrow> dc" where
  "dc_create mem pos mlen clen =
     \<lparr>buffer = take (unat (ZFS_DC_SIZE :: u32)) mem, cur_pos = pos, max_length = mlen,
      cur_length = clen, fault = False\<rparr>"

definition dc_store :: "nat \<Rightarrow> u8 list \<Rightarrow> dc \<Rightarrow> dc" where
  "dc_store p bs d =
     (if p + length bs \<le> length (buffer d) then d\<lparr>buffer := blit p bs (buffer d)\<rparr>
      else d\<lparr>fault := True\<rparr>)"

definition dc_load :: "nat \<Rightarrow> nat \<Rightarrow> dc \<Rightarrow> u8 list \<times> dc" where
  "dc_load p n d =
     (if p + n \<le> length (buffer d) then (slice p n (buffer d), d)
      else (replicate n 0, d\<lparr>fault := True\<rparr>))"


section \<open>Integers\<close>

definition DECODE_SIMPLE_TYPE ::
    "(u32 \<Rightarrow> u32) \<Rightarrow> (u64 \<Rightarrow> u64) \<Rightarrow> nat \<Rightarrow> (u8 list \<Rightarrow> 'a) \<Rightarrow> 'a decoder" where
  "DECODE_SIMPLE_TYPE ALIGN ALIGN_PTR S F d =
     (let d = d\<lparr>cur_length := ALIGN (cur_length d) + of_nat S\<rparr>
      in if cur_length d > max_length d then (None, d)
         else
           let d = d\<lparr>cur_pos := ALIGN_PTR (cur_pos d)\<rparr>;
               (bs, d) = dc_load (unat (cur_pos d)) S d
           in (Some (F bs), d\<lparr>cur_pos := cur_pos d + of_nat S\<rparr>))"

definition ENCODE_SIMPLE_TYPE ::
    "(u32 \<Rightarrow> u32) \<Rightarrow> (u64 \<Rightarrow> u64) \<Rightarrow> nat \<Rightarrow> ('a \<Rightarrow> u8 list) \<Rightarrow> 'a \<Rightarrow> encoder" where
  "ENCODE_SIMPLE_TYPE ALIGN ALIGN_PTR S F val d =
     (let prev = cur_length d;
          d = d\<lparr>cur_length := ALIGN (cur_length d) + of_nat S\<rparr>
      in if cur_length d > max_length d then (False, d\<lparr>cur_length := prev\<rparr>)
         else
           let s = cur_pos d;
               d = d\<lparr>cur_pos := ALIGN_PTR s\<rparr>;
               d = dc_store (unat s) (replicate (unat (cur_pos d) - unat s) 0) d;
               d = dc_store (unat (cur_pos d)) (F val) d
           in (True, d\<lparr>cur_pos := cur_pos d + of_nat S\<rparr>))"

definition decode_char :: "u8 decoder" where
  "decode_char = DECODE_SIMPLE_TYPE ALIGN_1 ALIGN_1 1 le_word"

definition decode_uchar :: "u8 decoder" where
  "decode_uchar = DECODE_SIMPLE_TYPE ALIGN_1 ALIGN_1 1 le_word"

definition decode_int16_t :: "u16 decoder" where
  "decode_int16_t = DECODE_SIMPLE_TYPE ALIGN_2 ALIGN_2 2 le_word"

definition decode_uint16_t :: "u16 decoder" where
  "decode_uint16_t = DECODE_SIMPLE_TYPE ALIGN_2 ALIGN_2 2 le_word"

definition decode_int32_t :: "u32 decoder" where
  "decode_int32_t = DECODE_SIMPLE_TYPE ALIGN_4 ALIGN_4 4 le_word"

definition decode_uint32_t :: "u32 decoder" where
  "decode_uint32_t = DECODE_SIMPLE_TYPE ALIGN_4 ALIGN_4 4 le_word"

definition decode_int64_t :: "u64 decoder" where
  "decode_int64_t = DECODE_SIMPLE_TYPE ALIGN_8 ALIGN_8 8 le_word"

definition decode_uint64_t :: "u64 decoder" where
  "decode_uint64_t = DECODE_SIMPLE_TYPE ALIGN_8 ALIGN_8 8 le_word"

definition encode_char :: "u8 \<Rightarrow> encoder" where
  "encode_char = ENCODE_SIMPLE_TYPE ALIGN_1 ALIGN_1 1 (le_bytes 1)"

definition encode_uchar :: "u8 \<Rightarrow> encoder" where
  "encode_uchar = ENCODE_SIMPLE_TYPE ALIGN_1 ALIGN_1 1 (le_bytes 1)"

definition encode_int16_t :: "u16 \<Rightarrow> encoder" where
  "encode_int16_t = ENCODE_SIMPLE_TYPE ALIGN_2 ALIGN_2 2 (le_bytes 2)"

definition encode_uint16_t :: "u16 \<Rightarrow> encoder" where
  "encode_uint16_t = ENCODE_SIMPLE_TYPE ALIGN_2 ALIGN_2 2 (le_bytes 2)"

definition encode_int32_t :: "u32 \<Rightarrow> encoder" where
  "encode_int32_t = ENCODE_SIMPLE_TYPE ALIGN_4 ALIGN_4 4 (le_bytes 4)"

definition encode_uint32_t :: "u32 \<Rightarrow> encoder" where
  "encode_uint32_t = ENCODE_SIMPLE_TYPE ALIGN_4 ALIGN_4 4 (le_bytes 4)"

definition encode_int64_t :: "u64 \<Rightarrow> encoder" where
  "encode_int64_t = ENCODE_SIMPLE_TYPE ALIGN_8 ALIGN_8 8 (le_bytes 8)"

definition encode_uint64_t :: "u64 \<Rightarrow> encoder" where
  "encode_uint64_t = ENCODE_SIMPLE_TYPE ALIGN_8 ALIGN_8 8 (le_bytes 8)"


section \<open>Buffers and strings\<close>

record data_buffer =
  db_len :: u32
  db_buf :: "u8 list"

record zstring =
  str_len :: u32
  str_str :: "u8 list"

definition decode_data_buffer :: "data_buffer decoder" where
  "decode_data_buffer d =
     (case decode_uint32_t d of
        (None, d) \<Rightarrow> (None, d)
      | (Some l, d) \<Rightarrow>
          if l > ZFS_MAXDATA then (None, d)
          else
            let d = d\<lparr>cur_length := cur_length d + l\<rparr>
            in if cur_length d > max_length d then (None, d)
               else
                 let (bs, d) = dc_load (unat (cur_pos d)) (unat l) d
                 in (Some \<lparr>db_len = l, db_buf = bs\<rparr>, d\<lparr>cur_pos := cur_pos d + ucast l\<rparr>))"

text \<open>
  C skips the copy when the data already are at \<^verbatim>\<open>dc->cur_pos\<close>; storing the same bytes there is
  the same effect.
\<close>

definition encode_data_buffer :: "data_buffer \<Rightarrow> encoder" where
  "encode_data_buffer x d =
     (case encode_uint32_t (db_len x) d of
        (False, d) \<Rightarrow> (False, d)
      | (True, d) \<Rightarrow>
          let prev = cur_length d;
              d = d\<lparr>cur_length := cur_length d + db_len x\<rparr>
          in if cur_length d > max_length d then (False, d\<lparr>cur_length := prev\<rparr>)
             else
               let d = dc_store (unat (cur_pos d)) (take (unat (db_len x)) (db_buf x)) d
               in (True, d\<lparr>cur_pos := cur_pos d + ucast (db_len x)\<rparr>))"

definition decode_fixed_buffer :: "u32 \<Rightarrow> u8 list decoder" where
  "decode_fixed_buffer l d =
     (let d = d\<lparr>cur_length := cur_length d + l\<rparr>
      in if cur_length d > max_length d then (None, d)
         else
           let (bs, d) = dc_load (unat (cur_pos d)) (unat l) d
           in (Some bs, d\<lparr>cur_pos := cur_pos d + ucast l\<rparr>))"

definition encode_fixed_buffer :: "u32 \<Rightarrow> u8 list \<Rightarrow> encoder" where
  "encode_fixed_buffer l buf d =
     (let prev = cur_length d;
          d = d\<lparr>cur_length := cur_length d + l\<rparr>
      in if cur_length d > max_length d then (False, d\<lparr>cur_length := prev\<rparr>)
         else
           let d = dc_store (unat (cur_pos d)) (take (unat l) buf) d
           in (True, d\<lparr>cur_pos := cur_pos d + ucast l\<rparr>))"

definition decode_string :: "u32 \<Rightarrow> zstring decoder" where
  "decode_string max_len d =
     (case decode_uint32_t d of
        (None, d) \<Rightarrow> (None, d)
      | (Some l, d) \<Rightarrow>
          if l > max_len then (None, d)
          else
            let d = d\<lparr>cur_length := cur_length d + (l + 1)\<rparr>
            in if cur_length d > max_length d then (None, d)
               else
                 let d = dc_store (unat (cur_pos d) + unat l) [0] d;
                     (bs, d) = dc_load (unat (cur_pos d)) (unat l + 1) d
                 in (Some \<lparr>str_len = l, str_str = bs\<rparr>, d\<lparr>cur_pos := cur_pos d + ucast (l + 1)\<rparr>))"

definition encode_string :: "zstring \<Rightarrow> encoder" where
  "encode_string x d =
     (let prev = cur_length d
      in case encode_uint32_t (str_len x) d of
           (False, d) \<Rightarrow> (False, d)
         | (True, d) \<Rightarrow>
             let d = d\<lparr>cur_length := cur_length d + (str_len x + 1)\<rparr>
             in if cur_length d > max_length d then (False, d\<lparr>cur_length := prev\<rparr>)
                else
                  let d = dc_store (unat (cur_pos d)) (take (unat (str_len x + 1)) (str_str x)) d
                  in (True, d\<lparr>cur_pos := cur_pos d + ucast (str_len x + 1)\<rparr>))"


section \<open>Packets\<close>

definition start_encoding :: "dc \<Rightarrow> dc" where
  "start_encoding d =
     snd (encode_uint32_t 0 (d\<lparr>cur_pos := 0, cur_length := 0, max_length := ZFS_DC_SIZE\<rparr>))"

definition finish_encoding :: "dc \<Rightarrow> u32 \<times> dc" where
  "finish_encoding d = (cur_length d, dc_store 0 (le_bytes 4 (cur_length d)) d)"

definition start_decoding :: "dc \<Rightarrow> bool \<times> dc" where
  "start_decoding d =
     (let d = d\<lparr>cur_pos := 0, max_length := 4, cur_length := 0\<rparr>;
          d = (case decode_uint32_t d of (None, d) \<Rightarrow> d | (Some l, d) \<Rightarrow> d\<lparr>max_length := l\<rparr>)
      in (max_length d \<le> ZFS_DC_SIZE, d))"

definition finish_decoding :: "dc \<Rightarrow> bool" where
  "finish_decoding d \<longleftrightarrow> cur_length d = max_length d"


section \<open>Sequences of coders\<close>

text \<open>The operator \<^verbatim>\<open>&&\<close> of C over coder calls: the first failure ends the sequence.\<close>

definition enc_and :: "encoder \<Rightarrow> encoder \<Rightarrow> encoder" where
  "enc_and e f d = (case e d of (False, d) \<Rightarrow> (False, d) | (True, d) \<Rightarrow> f d)"

definition dec_bind :: "'a decoder \<Rightarrow> ('a \<Rightarrow> 'b decoder) \<Rightarrow> 'b decoder" where
  "dec_bind f g d = (case f d of (None, d) \<Rightarrow> (None, d) | (Some x, d) \<Rightarrow> g x d)"

definition dec_return :: "'a \<Rightarrow> 'a decoder" where
  "dec_return x d = (Some x, d)"

definition decode_void :: "unit decoder" where
  "decode_void d = (Some (), d)"

definition encode_void :: "unit \<Rightarrow> encoder" where
  "encode_void v d = (True, d)"


section \<open>Alignment\<close>

definition round_up :: "nat \<Rightarrow> nat \<Rightarrow> nat" where
  "round_up s n = (n + (s - 1)) div s * s"

lemma round_up_ge: "0 < s \<Longrightarrow> n \<le> round_up s n"
  using div_mult_mod_eq [of "n + (s - 1)" s] mod_less_divisor [of s "n + (s - 1)"]
  unfolding round_up_def by linarith

lemma round_up_less: "0 < s \<Longrightarrow> round_up s n < n + s"
  using div_times_less_eq_dividend [of "n + (s - 1)" s]
  unfolding round_up_def by linarith

lemma round_up_dvd: "s dvd round_up s n"
  by (simp add: round_up_def)

lemma unat_align_mask:
  assumes "unat n + 2 ^ k \<le> 2 ^ LENGTH('a)" and "k < LENGTH('a)"
  shows "unat ((n + mask k) AND NOT (mask k)) = round_up (2 ^ k) (unat (n :: 'a::len word))"
proof -
  have "unat (mask k :: 'a word) = take_bit k (mask LENGTH('a))"
    by (simp only: mask_eq_take_bit_minus_one [of k, where ?'a = "'a word"] unsigned_take_bit_eq
        unsigned_minus_1_eq_mask)
  then have "unat (mask k :: 'a word) = 2 ^ k - 1"
    using assms(2) by (simp only: take_bit_of_mask) (simp add: min_def mask_eq_exp_minus_1)
  moreover have "unat n + (2 ^ k - 1) < 2 ^ LENGTH('a)"
    using assms(1) zero_less_power [of "2::nat" k] by linarith
  ultimately have "unat (n + mask k) = unat n + unat (mask k :: 'a word)"
    by (intro unat_add_lem [THEN iffD1]) simp
  with \<open>unat (mask k :: 'a word) = 2 ^ k - 1\<close> show ?thesis
    by (simp add: unat_and_not_mask round_up_def)
qed

lemma mask_lits: "mask 1 = (1 :: 'a::len word)" "mask 2 = (3 :: 'a word)" "mask 3 = (7 :: 'a word)" "mask 4 = (15 :: 'a word)"  "mask 8 = (255 :: 'a word)" 
  by (simp_all add: mask_eq_exp_minus_1)

lemma unat_ALIGN_1: "unat (ALIGN_1 n) = round_up 1 (unat n)"
  by (simp add: ALIGN_1_def round_up_def)

lemma unat_ALIGN_2:
  "unat n + 2 \<le> 2 ^ LENGTH('a) \<Longrightarrow> 1 < LENGTH('a) \<Longrightarrow> unat (ALIGN_2 n) = round_up 2 (unat (n :: 'a::len word))"
  using unat_align_mask [of n 1] by (simp add: ALIGN_2_def mask_lits)

lemma unat_ALIGN_4:
  "unat n + 4 \<le> 2 ^ LENGTH('a) \<Longrightarrow> 2 < LENGTH('a) \<Longrightarrow> unat (ALIGN_4 n) = round_up 4 (unat (n :: 'a::len word))"
  using unat_align_mask [of n 2] by (simp add: ALIGN_4_def mask_lits)

lemma unat_ALIGN_8:
  "unat n + 8 \<le> 2 ^ LENGTH('a) \<Longrightarrow> 3 < LENGTH('a) \<Longrightarrow> unat (ALIGN_8 n) = round_up 8 (unat (n :: 'a::len word))"
  using unat_align_mask [of n 3] by (simp add: ALIGN_8_def mask_lits)

lemma unat_ALIGN_16:
  "unat n + 16 \<le> 2 ^ LENGTH('a) \<Longrightarrow> 4 < LENGTH('a) \<Longrightarrow> unat (ALIGN_16 n) = round_up 16 (unat (n :: 'a::len word))"
  using unat_align_mask [of n 4] by (simp add: ALIGN_16_def mask_lits)

section \<open>Round trips\<close>

definition dc_wf :: "dc \<Rightarrow> bool" where
  "dc_wf d \<longleftrightarrow> \<not> fault d \<and> length (buffer d) = 8888 \<and> unat (max_length d) \<le> 8888
     \<and> cur_length d \<le> max_length d \<and> cur_pos d = ucast (cur_length d)"

definition dc_ext :: "dc \<Rightarrow> dc \<Rightarrow> bool" where
  "dc_ext d d' \<longleftrightarrow> dc_wf d' \<and> max_length d' = max_length d \<and> cur_length d \<le> cur_length d'
     \<and> (\<forall>i < unat (cur_length d). buffer d' ! i = buffer d ! i)"

definition dc_reads :: "dc \<Rightarrow> dc \<Rightarrow> dc \<Rightarrow> bool" where
  "dc_reads r d d' \<longleftrightarrow> dc_wf r \<and> cur_length r = cur_length d \<and> cur_length d' \<le> max_length r
     \<and> (\<forall>i. unat (cur_length d) \<le> i \<and> i < unat (cur_length d') \<longrightarrow> buffer r ! i = buffer d' ! i)"

definition dc_seek :: "u32 \<Rightarrow> dc \<Rightarrow> dc" where
  "dc_seek n r = r\<lparr>cur_length := n, cur_pos := ucast n\<rparr>"

definition roundtrips :: "encoder \<Rightarrow> 'a decoder \<Rightarrow> 'a \<Rightarrow> bool" where
  "roundtrips e f x \<longleftrightarrow> (\<forall>d d'. dc_wf d \<longrightarrow> e d = (True, d') \<longrightarrow>
     dc_ext d d' \<and> (\<forall>r. dc_reads r d d' \<longrightarrow> f r = (Some x, dc_seek (cur_length d') r)))"

lemma roundtripsD:
  assumes "roundtrips e f x" "dc_wf d" "e d = (True, d')"
  shows "dc_ext d d'" and "dc_reads r d d' \<Longrightarrow> f r = (Some x, dc_seek (cur_length d') r)"
  using assms by (auto simp: roundtrips_def)

locale simple_type =
  fixes align :: "u32 \<Rightarrow> u32" and alignp :: "u64 \<Rightarrow> u64" and S :: nat
    and F :: "'a \<Rightarrow> u8 list" and G :: "u8 list \<Rightarrow> 'a"
  assumes S_range: "0 < S" "S \<le> 8"
    and align: "unat n \<le> 8888 \<Longrightarrow> unat (align n) = round_up S (unat n)"
    and alignp: "unat p \<le> 8888 \<Longrightarrow> unat (alignp p) = round_up S (unat p)"
    and length_F: "length (F x) = S"
    and G_F: "G (F x) = x"
begin

lemma unat_advance:
  assumes "unat n \<le> 8888"
  shows "unat (align n + of_nat S) = round_up S (unat n) + S"
proof -
  have "round_up S (unat n) + S < 8888 + 17"
    using round_up_less [of S "unat n"] S_range assms by linarith
  then show ?thesis
    using align [OF assms] S_range by (simp add: unat_word_ariths unat_of_nat)
qed

lemma unat_advancep:
  assumes "unat n \<le> 8888"
  shows "unat (alignp n + of_nat S) = round_up S (unat n) + S"
proof -
  have "round_up S (unat n) + S < 8888 + 17"
    using round_up_less [of S "unat n"] S_range assms by linarith
  then show ?thesis
    using alignp [OF assms] S_range by (simp add: unat_word_ariths unat_of_nat)
qed

text \<open>What an encoder does to a well-formed buffer when the value fits.\<close>

lemma encode_simple:
  assumes wf: "dc_wf d" and fits: "round_up S (unat (cur_length d)) + S \<le> unat (max_length d)"
  defines "c \<equiv> unat (cur_length d)"
  defines "a \<equiv> round_up S c"
  shows "ENCODE_SIMPLE_TYPE align alignp S F x d =
    (True, d\<lparr>buffer := blit a (F x) (blit c (replicate (a - c) 0) (buffer d)),
              cur_length := of_nat (a + S), cur_pos := of_nat (a + S)\<rparr>)"
proof -
  have c: "c \<le> 8888" "a + S \<le> 8888" "c \<le> a"
    using wf fits S_range round_up_ge [of S c]
    by (auto simp: dc_wf_def c_def a_def word_le_nat_alt)
  have len: "align (cur_length d) + of_nat S = of_nat (a + S)"
    using unat_advance [of "cur_length d"] c
    by (auto simp: c_def a_def word_unat_eq_iff unat_of_nat simp del: of_nat_add)
  have pos: "alignp (cur_pos d) = of_nat a" "unat (cur_pos d) = c"
    using alignp [of "cur_pos d"] c wf
    by (auto simp: c_def a_def dc_wf_def word_unat_eq_iff unat_of_nat)
  have "unat (of_nat (a + S) :: u32) = a + S" "unat (of_nat a :: u64) = a"
    using c by (auto simp: unat_of_nat simp del: of_nat_add)
  moreover have "length (buffer d) = 8888"
    using wf by (simp add: dc_wf_def)
  ultimately show ?thesis
    using c fits
    by (auto simp: ENCODE_SIMPLE_TYPE_def Let_def len pos dc_store_def word_less_nat_alt
        length_blit length_F a_def [symmetric] c_def [symmetric])
qed

lemma encode_simple_False:
  assumes wf: "dc_wf d" and fits: "\<not> round_up S (unat (cur_length d)) + S \<le> unat (max_length d)"
  shows "ENCODE_SIMPLE_TYPE align alignp S F x d = (False, d)"
proof -
  have "unat (cur_length d) \<le> 8888"
    using wf by (auto simp: dc_wf_def word_le_nat_alt)
  then show ?thesis
    using fits unat_advance [of "cur_length d"]
    by (auto simp: ENCODE_SIMPLE_TYPE_def Let_def word_less_nat_alt)
qed

lemma decode_simple:
  assumes wf: "dc_wf r" and fits: "round_up S (unat (cur_length r)) + S \<le> unat (max_length r)"
  defines "a \<equiv> round_up S (unat (cur_length r))"
  shows "DECODE_SIMPLE_TYPE align alignp S G r =
    (Some (G (slice a S (buffer r))), dc_seek (of_nat (a + S)) r)"
proof -
  have c: "unat (cur_length r) \<le> 8888" "a + S \<le> 8888"
    using wf fits by (auto simp: dc_wf_def a_def word_le_nat_alt)
  have len: "align (cur_length r) + of_nat S = of_nat (a + S)"
    using unat_advance [of "cur_length r"] c
    by (auto simp: a_def word_unat_eq_iff unat_of_nat simp del: of_nat_add)
  have pos: "alignp (cur_pos r) = of_nat a"
    using alignp [of "cur_pos r"] c wf
    by (auto simp: a_def dc_wf_def word_unat_eq_iff unat_of_nat)
  have u: "unat (of_nat (a + S) :: u32) = a + S" "unat (of_nat a :: u64) = a"
    using c by (auto simp: unat_of_nat simp del: of_nat_add)
  have "(ucast (of_nat (a + S) :: u32) :: u64) = of_nat a + of_nat S"
    using c by (simp add: word_unat_eq_iff unat_of_nat u flip: of_nat_add)
  moreover have "length (buffer r) = 8888"
    using wf by (simp add: dc_wf_def)
  ultimately show ?thesis
    using c fits u
    by (auto simp: DECODE_SIMPLE_TYPE_def Let_def len pos dc_load_def dc_seek_def word_less_nat_alt
        a_def [symmetric])
qed

lemma decode_simple_None:
  assumes wf: "dc_wf r" and fits: "\<not> round_up S (unat (cur_length r)) + S \<le> unat (max_length r)"
  shows "\<exists>n. DECODE_SIMPLE_TYPE align alignp S G r = (None, r\<lparr>cur_length := n\<rparr>)"
proof -
  have "unat (cur_length r) \<le> 8888"
    using wf by (auto simp: dc_wf_def word_le_nat_alt)
  then show ?thesis
    using fits unat_advance [of "cur_length r"]
    by (auto simp: DECODE_SIMPLE_TYPE_def Let_def word_less_nat_alt)
qed

theorem simple_roundtrips:
  "roundtrips (ENCODE_SIMPLE_TYPE align alignp S F x) (DECODE_SIMPLE_TYPE align alignp S G) x"
  unfolding roundtrips_def
proof (intro allI impI)
  fix d d'
  assume wf: "dc_wf d" and enc: "ENCODE_SIMPLE_TYPE align alignp S F x d = (True, d')"
  define c where "c = unat (cur_length d)"
  define a where "a = round_up S c"
  have fits: "a + S \<le> unat (max_length d)"
    using encode_simple_False [OF wf, of x] enc unfolding a_def c_def by (rule_tac ccontr) simp
  have ca: "c \<le> a" "a + S \<le> 8888" "length (buffer d) = 8888"
    using wf fits round_up_ge [of S c] S_range by (auto simp: dc_wf_def a_def)
  have d': "d' = d\<lparr>buffer := blit a (F x) (blit c (replicate (a - c) 0) (buffer d)),
              cur_length := of_nat (a + S), cur_pos := of_nat (a + S)\<rparr>"
    using encode_simple [OF wf] enc fits by (simp add: a_def c_def)
  have u: "unat (of_nat (a + S) :: u32) = a + S" "(ucast (of_nat (a + S) :: u32) :: u64) = of_nat (a + S)"
    using ca by (auto simp: unat_of_nat word_unat_eq_iff simp del: of_nat_add)
  have "dc_ext d d'"
    using wf ca fits u by (auto simp: dc_ext_def dc_wf_def d' word_le_nat_alt mem_simps length_F
        c_def [symmetric] simp del: of_nat_add)
  moreover have "DECODE_SIMPLE_TYPE align alignp S G r = (Some x, dc_seek (cur_length d') r)"
    if r: "dc_reads r d d'" for r
  proof -
    have wfr: "dc_wf r" and cr: "unat (cur_length r) = c" and fr: "a + S \<le> unat (max_length r)"
      using r u by (auto simp: dc_reads_def d' c_def word_le_nat_alt simp del: of_nat_add)
    have "slice a S (buffer r) = F x"
    proof (rule slice_eqI)
      show "length (F x) = S" by (rule length_F)
      show "a + S \<le> length (buffer r)"
        using wfr fr by (simp add: dc_wf_def)
      show "buffer r ! (a + i) = F x ! i" if "i < S" for i
        using r u ca that by (auto simp: dc_reads_def d' c_def [symmetric] mem_simps length_F
            simp del: of_nat_add)
    qed
    then show ?thesis
      using decode_simple [OF wfr] cr fr by (simp add: a_def G_F d')
  qed
  ultimately show "dc_ext d d' \<and> (\<forall>r. dc_reads r d d' \<longrightarrow>
      DECODE_SIMPLE_TYPE align alignp S G r = (Some x, dc_seek (cur_length d') r))"
    by blast
qed

end

definition dc_raw :: "dc \<Rightarrow> bool" where
  "dc_raw d \<longleftrightarrow> \<not> fault d \<and> length (buffer d) = 8888"

lemma dc_wf_raw [simp]: "dc_wf d \<Longrightarrow> dc_raw d"
  by (simp add: dc_wf_def dc_raw_def)

lemma dc_raw_simps [simp]:
  "dc_raw (d\<lparr>cur_length := n\<rparr>) = dc_raw d" "dc_raw (d\<lparr>cur_pos := p\<rparr>) = dc_raw d"
  "dc_raw (d\<lparr>max_length := n\<rparr>) = dc_raw d"
  by (simp_all add: dc_raw_def)

definition safe_encoder :: "encoder \<Rightarrow> bool" where
  "safe_encoder e \<longleftrightarrow> (\<forall>d. dc_wf d \<longrightarrow>
     (case e d of (True, d') \<Rightarrow> dc_ext d d' | (False, d') \<Rightarrow> dc_raw d'))"

definition safe_decoder :: "('a \<Rightarrow> bool) \<Rightarrow> 'a decoder \<Rightarrow> bool" where
  "safe_decoder P f \<longleftrightarrow> (\<forall>r. dc_wf r \<longrightarrow>
     (case f r of (None, r') \<Rightarrow> dc_raw r'
      | (Some x, r') \<Rightarrow> P x \<and> dc_wf r' \<and> max_length r' = max_length r \<and> cur_length r \<le> cur_length r'))"

lemma dc_ext_refl: "dc_wf d \<Longrightarrow> dc_ext d d"
  by (simp add: dc_ext_def)

lemma dc_ext_trans: "dc_ext d d1 \<Longrightarrow> dc_ext d1 d2 \<Longrightarrow> dc_ext d d2"
  by (auto simp: dc_ext_def word_le_nat_alt)

lemma dc_reads_split:
  assumes "dc_ext d d1" "dc_ext d1 d2" "dc_reads r d d2"
  shows "dc_reads r d d1" and "dc_reads (dc_seek (cur_length d1) r) d1 d2"
  using assms by (auto simp: dc_reads_def dc_ext_def dc_wf_def dc_seek_def word_le_nat_alt)

lemma dc_seek_seek [simp]: "dc_seek n (dc_seek m r) = dc_seek n r"
  by (simp add: dc_seek_def)

lemma roundtrips_bind [wf_intros]:
  assumes 1: "roundtrips e f x" and 2: "roundtrips e' (g x) y"
  shows "roundtrips (enc_and e e') (dec_bind f g) y"
  unfolding roundtrips_def
proof (intro allI impI)
  fix d d2 assume wf: "dc_wf d" and enc: "enc_and e e' d = (True, d2)"
  then obtain d1 where e: "e d = (True, d1)" "e' d1 = (True, d2)"
    by (auto simp: enc_and_def split: prod.splits bool.splits)
  note r1 = roundtripsD [OF 1 wf e(1)]
  have wf1: "dc_wf d1" using r1(1) by (simp add: dc_ext_def)
  note r2 = roundtripsD [OF 2 wf1 e(2)]
  show "dc_ext d d2 \<and> (\<forall>r. dc_reads r d d2 \<longrightarrow> dec_bind f g r = (Some y, dc_seek (cur_length d2) r))"
    using dc_ext_trans [OF r1(1) r2(1)] r1 r2 dc_reads_split [OF r1(1) r2(1)]
    by (simp add: dec_bind_def)
qed

lemma roundtrips_last [wf_intros]:
  "roundtrips e f x \<Longrightarrow> y = h x \<Longrightarrow> roundtrips e (dec_bind f (\<lambda>v. dec_return (h v))) y"
  by (simp add: roundtrips_def dec_bind_def dec_return_def)

lemma safe_encoder_and [wf_intros]:
  assumes "safe_encoder e" "safe_encoder f"
  shows "safe_encoder (enc_and e f)"
  unfolding safe_encoder_def
proof (intro allI impI)
  fix d assume wf: "dc_wf d"
  obtain b d1 where e: "e d = (b, d1)" by (cases "e d")
  obtain c d2 where f: "f d1 = (c, d2)" by (cases "f d1")
  show "case enc_and e f d of (True, d') \<Rightarrow> dc_ext d d' | (False, d') \<Rightarrow> dc_raw d'"
  proof (cases b)
    case True
    then have "dc_ext d d1" using assms(1) wf e by (auto simp: safe_encoder_def)
    moreover from this have "dc_wf d1" by (simp add: dc_ext_def)
    then have "case f d1 of (True, d') \<Rightarrow> dc_ext d1 d' | (False, d') \<Rightarrow> dc_raw d'"
      using assms(2) by (auto simp: safe_encoder_def)
    ultimately show ?thesis
      using True e f by (cases c) (auto simp: enc_and_def intro: dc_ext_trans)
  next
    case False
    then show ?thesis using assms(1) wf e by (auto simp: enc_and_def safe_encoder_def)
  qed
qed

lemma safe_decoder_bind [wf_intros]:
  assumes f: "safe_decoder P f" and g: "\<And>x. P x \<Longrightarrow> safe_decoder Q (g x)"
  shows "safe_decoder Q (dec_bind f g)"
  unfolding safe_decoder_def
proof (intro allI impI)
  fix r assume wf: "dc_wf r"
  obtain z r1 where fr: "f r = (z, r1)" by (cases "f r")
  show "case dec_bind f g r of (None, r') \<Rightarrow> dc_raw r'
      | (Some x, r') \<Rightarrow> Q x \<and> dc_wf r' \<and> max_length r' = max_length r \<and> cur_length r \<le> cur_length r'"
  proof (cases z)
    case None
    then show ?thesis using f wf fr by (auto simp: dec_bind_def safe_decoder_def)
  next
    case (Some x)
    then have 1: "P x" "dc_wf r1" "max_length r1 = max_length r" "cur_length r \<le> cur_length r1"
      using f wf fr by (auto simp: safe_decoder_def)
    obtain y r2 where gr: "g x r1 = (y, r2)" by (cases "g x r1")
    have "case g x r1 of (None, r') \<Rightarrow> dc_raw r'
      | (Some x, r') \<Rightarrow> Q x \<and> dc_wf r' \<and> max_length r' = max_length r1 \<and> cur_length r1 \<le> cur_length r'"
      using g [OF 1(1)] 1(2) by (simp add: safe_decoder_def)
    then show ?thesis
      using Some fr 1(3,4) gr by (cases y) (auto simp: dec_bind_def)
  qed
qed

lemma safe_decoder_return [wf_intros]: "P x \<Longrightarrow> safe_decoder P (dec_return x)"
  by (simp add: safe_decoder_def dec_return_def)

text \<open>The contract of a pair of coders.\<close>

locale codec =
  fixes enc :: "'a \<Rightarrow> encoder" and dec :: "'a decoder" and valid :: "'a \<Rightarrow> bool"
  assumes enc_dec: "valid x \<Longrightarrow> roundtrips (enc x) dec x"
    and enc_safe: "valid x \<Longrightarrow> safe_encoder (enc x)"
    and dec_safe: "safe_decoder valid dec"

context simple_type
begin

lemma simple_safe_encoder: "safe_encoder (ENCODE_SIMPLE_TYPE align alignp S F x)"
  unfolding safe_encoder_def
proof (intro allI impI)
  fix d assume wf: "dc_wf d"
  show "case ENCODE_SIMPLE_TYPE align alignp S F x d of (True, d') \<Rightarrow> dc_ext d d' | (False, d') \<Rightarrow> dc_raw d'"
  proof (cases "round_up S (unat (cur_length d)) + S \<le> unat (max_length d)")
    case True
    from encode_simple [OF wf True] obtain d' where
      e: "ENCODE_SIMPLE_TYPE align alignp S F x d = (True, d')" by blast
    with roundtripsD(1) [OF simple_roundtrips wf e] show ?thesis by simp
  next
    case False
    with encode_simple_False [OF wf False] wf show ?thesis by (simp add: dc_wf_def)
  qed
qed

lemma simple_safe_decoder: "safe_decoder (\<lambda>_. True) (DECODE_SIMPLE_TYPE align alignp S G)"
  unfolding safe_decoder_def
proof (intro allI impI)
  fix r assume wf: "dc_wf r"
  show "case DECODE_SIMPLE_TYPE align alignp S G r of (None, r') \<Rightarrow> dc_raw r'
      | (Some x, r') \<Rightarrow> True \<and> dc_wf r' \<and> max_length r' = max_length r \<and> cur_length r \<le> cur_length r'"
  proof (cases "round_up S (unat (cur_length r)) + S \<le> unat (max_length r)")
    case True
    have "unat (of_nat (round_up S (unat (cur_length r)) + S) :: u32) = round_up S (unat (cur_length r)) + S"
      using True wf by (simp add: dc_wf_def unat_of_nat del: of_nat_add)
    then show ?thesis
      using decode_simple [OF wf True] wf True round_up_ge [of S "unat (cur_length r)"] S_range
      by (simp add: dc_seek_def dc_wf_def word_le_nat_alt del: of_nat_add)
  next
    case False
    with decode_simple_None [OF wf False] wf show ?thesis by (auto simp: dc_wf_raw)
  qed
qed

end

sublocale simple_type \<subseteq> codec "ENCODE_SIMPLE_TYPE align alignp S F" "DECODE_SIMPLE_TYPE align alignp S G" "\<lambda>_. True"
  by unfold_locales (simp_all add: simple_roundtrips simple_safe_encoder simple_safe_decoder)

lemma simple_type_1: "simple_type ALIGN_1 ALIGN_1 1 (le_bytes 1 :: u8 \<Rightarrow> u8 list) le_word"
  by unfold_locales (simp_all add: unat_ALIGN_1 le_word_le_bytes)

lemma simple_type_2: "simple_type ALIGN_2 ALIGN_2 2 (le_bytes 2 :: u16 \<Rightarrow> u8 list) le_word"
  by unfold_locales (simp_all add: unat_ALIGN_2 le_word_le_bytes)

lemma simple_type_4: "simple_type ALIGN_4 ALIGN_4 4 (le_bytes 4 :: u32 \<Rightarrow> u8 list) le_word"
  by unfold_locales (simp_all add: unat_ALIGN_4 le_word_le_bytes)

lemma simple_type_8: "simple_type ALIGN_8 ALIGN_8 8 (le_bytes 8 :: u64 \<Rightarrow> u8 list) le_word"
  by unfold_locales (simp_all add: unat_ALIGN_8 le_word_le_bytes)

interpretation st1: simple_type ALIGN_1 ALIGN_1 1 "le_bytes 1 :: u8 \<Rightarrow> u8 list" le_word
  by (rule simple_type_1)
interpretation st2: simple_type ALIGN_2 ALIGN_2 2 "le_bytes 2 :: u16 \<Rightarrow> u8 list" le_word
  by (rule simple_type_2)
interpretation st4: simple_type ALIGN_4 ALIGN_4 4 "le_bytes 4 :: u32 \<Rightarrow> u8 list" le_word
  by (rule simple_type_4)
interpretation st8: simple_type ALIGN_8 ALIGN_8 8 "le_bytes 8 :: u64 \<Rightarrow> u8 list" le_word
  by (rule simple_type_8)

lemma codec_char: "codec encode_char decode_char (\<lambda>_. True)"
  using st1.codec_axioms by (simp add: encode_char_def decode_char_def)

lemma codec_uchar: "codec encode_uchar decode_uchar (\<lambda>_. True)"
  using st1.codec_axioms by (simp add: encode_uchar_def decode_uchar_def)

lemma codec_int16_t: "codec encode_int16_t decode_int16_t (\<lambda>_. True)"
  using st2.codec_axioms by (simp add: encode_int16_t_def decode_int16_t_def)

lemma codec_uint16_t: "codec encode_uint16_t decode_uint16_t (\<lambda>_. True)"
  using st2.codec_axioms by (simp add: encode_uint16_t_def decode_uint16_t_def)

lemma codec_int32_t: "codec encode_int32_t decode_int32_t (\<lambda>_. True)"
  using st4.codec_axioms by (simp add: encode_int32_t_def decode_int32_t_def)

lemma codec_uint32_t: "codec encode_uint32_t decode_uint32_t (\<lambda>_. True)"
  using st4.codec_axioms by (simp add: encode_uint32_t_def decode_uint32_t_def)

lemma codec_int64_t: "codec encode_int64_t decode_int64_t (\<lambda>_. True)"
  using st8.codec_axioms by (simp add: encode_int64_t_def decode_int64_t_def)

lemma codec_uint64_t: "codec encode_uint64_t decode_uint64_t (\<lambda>_. True)"
  using st8.codec_axioms by (simp add: encode_uint64_t_def decode_uint64_t_def)

lemma codec_void: "codec encode_void decode_void (\<lambda>_. True)"
  by unfold_locales
    (auto simp: roundtrips_def safe_encoder_def safe_decoder_def encode_void_def decode_void_def
      dc_ext_refl dc_seek_def dc_reads_def dc_wf_def)

subsection \<open>Raw bytes\<close>

lemma unat_add_small: "unat c + unat l < 2 ^ 32 \<Longrightarrow> unat (c + l) = unat c + unat l" for c l :: u32
  by (simp add: unat_word_ariths)

lemma ucast_add_small:
  "unat c + unat l < 2 ^ 32 \<Longrightarrow> (ucast (c + l) :: u64) = ucast c + ucast l" for c l :: u32
  by (simp add: word_unat_eq_iff unat_word_ariths)

lemma encode_fixed:
  assumes wf: "dc_wf d" and l: "unat l \<le> 8888" and len: "length bs = unat l"
  shows "encode_fixed_buffer l bs d =
    (if unat (cur_length d) + unat l \<le> unat (max_length d)
     then (True, (dc_seek (cur_length d + l) d)\<lparr>buffer := blit (unat (cur_length d)) bs (buffer d)\<rparr>)
     else (False, d))"
proof -
  have c: "unat (cur_length d) \<le> 8888" "unat (cur_pos d) = unat (cur_length d)"
      "length (buffer d) = 8888" "unat (max_length d) \<le> 8888" "cur_pos d = ucast (cur_length d)"
    using wf by (auto simp: dc_wf_def word_le_nat_alt)
  then show ?thesis
    using l len unat_add_small [of "cur_length d" l] ucast_add_small [of "cur_length d" l]
    by (auto simp: encode_fixed_buffer_def Let_def dc_store_def dc_seek_def word_less_nat_alt)
qed

lemma decode_fixed:
  assumes wf: "dc_wf r" and l: "unat l \<le> 8888"
  shows "decode_fixed_buffer l r =
    (if unat (cur_length r) + unat l \<le> unat (max_length r)
     then (Some (slice (unat (cur_length r)) (unat l) (buffer r)), dc_seek (cur_length r + l) r)
     else (None, r\<lparr>cur_length := cur_length r + l\<rparr>))"
proof -
  have c: "unat (cur_length r) \<le> 8888" "unat (cur_pos r) = unat (cur_length r)"
      "length (buffer r) = 8888" "unat (max_length r) \<le> 8888" "cur_pos r = ucast (cur_length r)"
    using wf by (auto simp: dc_wf_def word_le_nat_alt)
  then show ?thesis
    using l unat_add_small [of "cur_length r" l] ucast_add_small [of "cur_length r" l]
    by (auto simp: decode_fixed_buffer_def Let_def dc_load_def dc_seek_def word_less_nat_alt)
qed

lemma dc_wf_seek [wf_intros]: "dc_wf r \<Longrightarrow> n \<le> max_length r \<Longrightarrow> dc_wf (dc_seek n r)"
  by (simp add: dc_wf_def dc_seek_def)

lemma dc_seek_simps [simp]:
  "buffer (dc_seek n r) = buffer r" "max_length (dc_seek n r) = max_length r"
  "cur_length (dc_seek n r) = n" "fault (dc_seek n r) = fault r" "cur_pos (dc_seek n r) = ucast n"
  by (simp_all add: dc_seek_def)

lemma codec_fixed_buffer:
  assumes l: "unat l \<le> 8888"
  shows "codec (encode_fixed_buffer l) (decode_fixed_buffer l) (\<lambda>bs. length bs = unat l)"
proof
  fix bs :: "u8 list" assume len: "length bs = unat l"
  have ext: "dc_ext d d'" if "dc_wf d" "encode_fixed_buffer l bs d = (True, d')" for d d'
    using that encode_fixed [OF that(1) l len] len unat_add_small [of "cur_length d" l]
    by (auto simp: dc_ext_def dc_wf_def word_le_nat_alt mem_simps split: if_splits)
  show "safe_encoder (encode_fixed_buffer l bs)"
    unfolding safe_encoder_def
  proof (intro allI impI)
    fix d assume "dc_wf d"
    then show "case encode_fixed_buffer l bs d of (True, d') \<Rightarrow> dc_ext d d' | (False, d') \<Rightarrow> dc_raw d'"
      using ext [of d] encode_fixed [of d l bs] l len by (auto simp: dc_wf_def)
  qed
  show "roundtrips (encode_fixed_buffer l bs) (decode_fixed_buffer l) bs"
    unfolding roundtrips_def
  proof (intro allI impI conjI)
    fix d d' assume wf: "dc_wf d" and e: "encode_fixed_buffer l bs d = (True, d')"
    show "dc_ext d d'" using ext [OF wf e] .
    have fits: "unat (cur_length d) + unat l \<le> unat (max_length d)"
      and d': "d' = (dc_seek (cur_length d + l) d)\<lparr>buffer := blit (unat (cur_length d)) bs (buffer d)\<rparr>"
      using e encode_fixed [OF wf l len] by (auto split: if_splits)
    have u: "unat (cur_length d + l) = unat (cur_length d) + unat l"
      using fits wf by (intro unat_add_small) (simp add: dc_wf_def)
    fix r assume r: "dc_reads r d d'"
    then have wfr: "dc_wf r" and cr: "cur_length r = cur_length d"
      and mr: "unat (cur_length d) + unat l \<le> unat (max_length r)"
      using u by (auto simp: dc_reads_def d' word_le_nat_alt)
    have "slice (unat (cur_length d)) (unat l) (buffer r) = bs"
    proof (rule slice_eqI)
      show "unat (cur_length d) + unat l \<le> length (buffer r)"
        using wfr mr by (simp add: dc_wf_def)
      show "buffer r ! (unat (cur_length d) + i) = bs ! i" if "i < unat l" for i
        using r u that fits wf len by (auto simp: dc_reads_def d' mem_simps dc_wf_def)
    qed (rule len)
    then show "decode_fixed_buffer l r = (Some bs, dc_seek (cur_length d') r)"
      using decode_fixed [OF wfr l] mr cr by (simp add: d')
  qed
next
  show "safe_decoder (\<lambda>bs. length bs = unat l) (decode_fixed_buffer l)"
    unfolding safe_decoder_def
  proof (intro allI impI)
    fix r assume wf: "dc_wf r"
    have u: "unat (cur_length r + l) = unat (cur_length r) + unat l" if "unat (cur_length r) + unat l \<le> unat (max_length r)"
      using that wf by (intro unat_add_small) (simp add: dc_wf_def)
    then show "case decode_fixed_buffer l r of (None, r') \<Rightarrow> dc_raw r'
      | (Some x, r') \<Rightarrow> length x = unat l \<and> dc_wf r' \<and> max_length r' = max_length r \<and> cur_length r \<le> cur_length r'"
      using decode_fixed [OF wf l] wf
      by (auto simp: dc_wf_def word_le_nat_alt mem_simps)
  qed
qed

subsection \<open>Data buffers and strings\<close>

definition dec_fail :: "'a decoder" where
  "dec_fail d = (None, d)"

definition valid_data_buffer :: "data_buffer \<Rightarrow> bool" where
  "valid_data_buffer x \<longleftrightarrow> db_len x \<le> ZFS_MAXDATA \<and> length (db_buf x) = unat (db_len x)"

definition valid_string :: "u32 \<Rightarrow> zstring \<Rightarrow> bool" where
  "valid_string max_len x \<longleftrightarrow> str_len x \<le> max_len
     \<and> length (str_str x) = Suc (unat (str_len x)) \<and> str_str x ! unat (str_len x) = 0"

lemma safe_decoder_fail [wf_intros]: "safe_decoder P dec_fail"
  by (simp add: safe_decoder_def dec_fail_def dc_wf_def)

lemma encode_data_buffer_eq:
  "encode_data_buffer x = enc_and (encode_uint32_t (db_len x)) (encode_fixed_buffer (db_len x) (db_buf x))"
  by (rule ext) (simp add: encode_data_buffer_def enc_and_def encode_fixed_buffer_def Let_def
      split: prod.splits bool.splits)

lemma decode_data_buffer_eq:
  "decode_data_buffer = dec_bind decode_uint32_t (\<lambda>l. if l > ZFS_MAXDATA then dec_fail
     else dec_bind (decode_fixed_buffer l) (\<lambda>bs. dec_return \<lparr>db_len = l, db_buf = bs\<rparr>))"
  by (rule ext) (auto simp: decode_data_buffer_def dec_bind_def decode_fixed_buffer_def dec_fail_def
      dec_return_def Let_def split: prod.splits option.splits)

lemma ZFS_MAXDATA_fits: "l \<le> ZFS_MAXDATA \<Longrightarrow> unat l \<le> 8888"
  by (simp add: ZFS_MAXDATA_def word_le_nat_alt)

lemma codec_data_buffer: "codec encode_data_buffer decode_data_buffer valid_data_buffer"
proof
  fix x assume v: "valid_data_buffer x"
  then have l: "unat (db_len x) \<le> 8888" "length (db_buf x) = unat (db_len x)"
    and m: "\<not> db_len x > ZFS_MAXDATA"
    by (auto simp: valid_data_buffer_def intro: ZFS_MAXDATA_fits)
  note fixed = codec_fixed_buffer [OF l(1)]
  show "roundtrips (encode_data_buffer x) decode_data_buffer x"
    unfolding encode_data_buffer_eq decode_data_buffer_eq
    by (rule roundtrips_bind [OF codec.enc_dec [OF codec_uint32_t TrueI]])
      (simp add: m, rule roundtrips_last [OF codec.enc_dec [OF fixed l(2)]], simp)
  show "safe_encoder (encode_data_buffer x)"
    unfolding encode_data_buffer_eq
    by (intro wf_intros codec.enc_safe [OF codec_uint32_t TrueI] codec.enc_safe [OF fixed l(2)])
next
  show "safe_decoder valid_data_buffer decode_data_buffer"
    unfolding decode_data_buffer_eq
  proof (rule safe_decoder_bind [OF codec.dec_safe [OF codec_uint32_t]])
    fix l :: u32
    show "safe_decoder valid_data_buffer (if l > ZFS_MAXDATA then dec_fail
      else dec_bind (decode_fixed_buffer l) (\<lambda>bs. dec_return \<lparr>db_len = l, db_buf = bs\<rparr>))"
      by (auto simp: valid_data_buffer_def
          intro!: wf_intros safe_decoder_bind [OF codec.dec_safe [OF codec_fixed_buffer]] ZFS_MAXDATA_fits)
  qed
qed

definition dec_string_body :: "u32 \<Rightarrow> zstring decoder" where
  "dec_string_body l d =
     (let d = d\<lparr>cur_length := cur_length d + (l + 1)\<rparr>
      in if cur_length d > max_length d then (None, d)
         else
           let d = dc_store (unat (cur_pos d) + unat l) [0] d;
               (bs, d) = dc_load (unat (cur_pos d)) (unat l + 1) d
           in (Some \<lparr>str_len = l, str_str = bs\<rparr>, d\<lparr>cur_pos := cur_pos d + ucast (l + 1)\<rparr>))"

lemma decode_string_eq:
  "decode_string m = dec_bind decode_uint32_t (\<lambda>l. if l > m then dec_fail else dec_string_body l)"
  by (rule ext) (auto simp: decode_string_def dec_bind_def dec_string_body_def dec_fail_def
      split: prod.splits option.splits)

lemma encode_string_True:
  "encode_string x d = (True, d') \<longleftrightarrow>
   enc_and (encode_uint32_t (str_len x)) (encode_fixed_buffer (str_len x + 1) (str_str x)) d = (True, d')"
  by (auto simp: encode_string_def enc_and_def encode_fixed_buffer_def Let_def
      split: prod.splits bool.splits)

lemma encode_string_False:
  "encode_string x d = (False, d') \<Longrightarrow>
   \<exists>d''. enc_and (encode_uint32_t (str_len x)) (encode_fixed_buffer (str_len x + 1) (str_str x)) d = (False, d'')
     \<and> dc_raw d'' = dc_raw d'"
  by (auto simp: encode_string_def enc_and_def encode_fixed_buffer_def Let_def
      split: prod.splits bool.splits if_splits)

lemma unat_Suc_small: "unat l \<le> 8192 \<Longrightarrow> unat (l + 1) = Suc (unat l)" for l :: u32
  using unat_add_small [of l 1] by simp

lemma dec_string_body:
  assumes wf: "dc_wf r" and l: "unat l \<le> 8192"
  shows "dec_string_body l r =
    (if unat (cur_length r) + Suc (unat l) \<le> unat (max_length r)
     then let b = (buffer r)[unat (cur_length r) + unat l := 0] in
       (Some \<lparr>str_len = l, str_str = slice (unat (cur_length r)) (Suc (unat l)) b\<rparr>,
        (dc_seek (cur_length r + (l + 1)) r)\<lparr>buffer := b\<rparr>)
     else (None, r\<lparr>cur_length := cur_length r + (l + 1)\<rparr>))"
proof -
  have c: "unat (cur_length r) \<le> 8888" "unat (cur_pos r) = unat (cur_length r)"
      "length (buffer r) = 8888" "unat (max_length r) \<le> 8888" "cur_pos r = ucast (cur_length r)"
    using wf by (auto simp: dc_wf_def word_le_nat_alt)
  moreover have "unat (cur_length r + (l + 1)) = unat (cur_length r) + Suc (unat l)"
      "(ucast (cur_length r + (l + 1)) :: u64) = ucast (cur_length r) + ucast (l + 1)"
    using c l unat_add_small [of "cur_length r" "l + 1"] ucast_add_small [of "cur_length r" "l + 1"]
    by (simp_all add: unat_Suc_small)
  ultimately show ?thesis
    by (auto simp: dec_string_body_def Let_def dc_store_def dc_load_def dc_seek_def word_less_nat_alt
        length_blit blit_singleton)
qed

lemma codec_string:
  assumes m: "unat m \<le> 8192"
  shows "codec encode_string (decode_string m) (valid_string m)"
proof
  fix x assume v: "valid_string m x"
  then have l: "unat (str_len x) \<le> 8192" "\<not> str_len x > m" "length (str_str x) = Suc (unat (str_len x))"
    using m by (auto simp: valid_string_def word_le_nat_alt word_less_nat_alt)
  then have l1: "unat (str_len x + 1) \<le> 8888" "length (str_str x) = unat (str_len x + 1)"
    by (simp_all add: unat_Suc_small)
  let ?e = "enc_and (encode_uint32_t (str_len x)) (encode_fixed_buffer (str_len x + 1) (str_str x))"
  note fixed = codec_fixed_buffer [OF l1(1)]
  have safe: "safe_encoder ?e"
    by (intro wf_intros codec.enc_safe [OF codec_uint32_t TrueI] codec.enc_safe [OF fixed l1(2)])
  have body: "dec_string_body (str_len x) r = (Some x, dc_seek (cur_length d') r)"
    if wf: "dc_wf d" and e: "encode_fixed_buffer (str_len x + 1) (str_str x) d = (True, d')"
      and r: "dc_reads r d d'" for d d' r
  proof -
    have f: "decode_fixed_buffer (str_len x + 1) r = (Some (str_str x), dc_seek (cur_length d') r)"
      using roundtripsD(2) [OF codec.enc_dec [OF fixed l1(2)] wf e r] .
    have wfr: "dc_wf r" using r by (simp add: dc_reads_def)
    let ?c = "unat (cur_length r)"
    have fits: "?c + Suc (unat (str_len x)) \<le> unat (max_length r)"
      and bytes: "slice ?c (Suc (unat (str_len x))) (buffer r) = str_str x"
      and len: "dc_seek (cur_length r + (str_len x + 1)) r = dc_seek (cur_length d') r"
      using f decode_fixed [OF wfr l1(1)] l(1) by (auto simp: unat_Suc_small split: if_splits)
    have "length (buffer r) = 8888" "unat (max_length r) \<le> 8888"
      using wfr by (auto simp: dc_wf_def)
    then have "buffer r ! (?c + unat (str_len x)) = slice ?c (Suc (unat (str_len x))) (buffer r) ! unat (str_len x)"
      using fits by (simp add: slice_def)
    then have "(buffer r)[?c + unat (str_len x) := 0] = buffer r"
      using v bytes by (metis list_update_id valid_string_def)
    then show ?thesis
      using dec_string_body [OF wfr l(1)] fits bytes len by (simp add: dc_seek_def)
  qed
  show "roundtrips (encode_string x) (decode_string m) x"
  proof -
    have "roundtrips (encode_fixed_buffer (str_len x + 1) (str_str x)) (dec_string_body (str_len x)) x"
      using body roundtripsD(1) [OF codec.enc_dec [OF fixed l1(2)]] by (simp add: roundtrips_def)
    then have "roundtrips ?e (decode_string m) x"
      unfolding decode_string_eq
      by (intro roundtrips_bind [OF codec.enc_dec [OF codec_uint32_t TrueI]]) (simp add: l(2))
    then show ?thesis
      by (simp add: roundtrips_def encode_string_True)
  qed
  show "safe_encoder (encode_string x)"
    unfolding safe_encoder_def
  proof (intro allI impI)
    fix d assume wf: "dc_wf d"
    obtain b d' where e: "encode_string x d = (b, d')" by (cases "encode_string x d")
    show "case encode_string x d of (True, d') \<Rightarrow> dc_ext d d' | (False, d') \<Rightarrow> dc_raw d'"
      using safe wf e encode_string_True [of x d d'] encode_string_False [of x d d']
      by (cases b) (auto simp: safe_encoder_def dest!: spec [of _ d])
  qed
next
  show "safe_decoder (valid_string m) (decode_string m)"
    unfolding decode_string_eq
  proof (rule safe_decoder_bind [OF codec.dec_safe [OF codec_uint32_t]])
    fix l :: u32
    have "safe_decoder (valid_string m) (dec_string_body l)" if "\<not> l > m"
      unfolding safe_decoder_def
    proof (intro allI impI)
      fix r assume wf: "dc_wf r"
      have l: "unat l \<le> 8192" "l \<le> m" using that m by (simp_all add: word_less_nat_alt word_le_nat_alt)
      have "unat (cur_length r + (l + 1)) = unat (cur_length r) + Suc (unat l)"
        if "unat (cur_length r) + Suc (unat l) \<le> unat (max_length r)"
        using that wf l(1) unat_add_small [of "cur_length r" "l + 1"] by (simp add: unat_Suc_small dc_wf_def)
      then show "case dec_string_body l r of (None, r') \<Rightarrow> dc_raw r'
        | (Some x, r') \<Rightarrow> valid_string m x \<and> dc_wf r' \<and> max_length r' = max_length r \<and> cur_length r \<le> cur_length r'"
        using dec_string_body [OF wf l(1)] wf l(2)
        by (auto simp: dc_wf_def word_le_nat_alt valid_string_def Let_def length_slice slice_def)
    qed
    then show "safe_decoder (valid_string m) (if l > m then dec_fail else dec_string_body l)"
      by (simp add: wf_intros)
  qed
qed

subsection \<open>Packets\<close>

lemma ZFS_DC_SIZE_unat [simp]: "unat (ZFS_DC_SIZE :: u32) = 8888"
  by (simp add: ZFS_DC_SIZE_def)

lemma start_encoding_wf:
  assumes "dc_raw d"
  shows "dc_wf (start_encoding d)" and "cur_length (start_encoding d) = 4"
    and "max_length (start_encoding d) = ZFS_DC_SIZE"
proof -
  let ?d = "d\<lparr>cur_pos := 0, cur_length := 0, max_length := ZFS_DC_SIZE\<rparr>"
  have wf: "dc_wf ?d" using assms by (simp add: dc_wf_def dc_raw_def)
  have e: "encode_uint32_t 0 ?d = (True, start_encoding d)"
    and l: "cur_length (start_encoding d) = 4"
    using st4.encode_simple [OF wf, of 0]
    by (auto simp: encode_uint32_t_def start_encoding_def round_up_def)
  have "dc_ext ?d (start_encoding d)"
    using roundtripsD(1) [OF codec.enc_dec [OF codec_uint32_t TrueI] wf e] .
  then show "dc_wf (start_encoding d)" "max_length (start_encoding d) = ZFS_DC_SIZE"
    by (simp_all add: dc_ext_def)
  show "cur_length (start_encoding d) = 4" by (rule l)
qed

lemma start_decoding_eq:
  assumes "dc_raw r"
  defines "n \<equiv> le_word (slice 0 4 (buffer r))"
  shows "start_decoding r = (n \<le> ZFS_DC_SIZE, (dc_seek 4 r)\<lparr>max_length := n\<rparr>)"
proof -
  let ?r = "r\<lparr>cur_pos := 0, max_length := 4, cur_length := 0\<rparr>"
  have wf: "dc_wf ?r" using assms(1) by (simp add: dc_wf_def dc_raw_def)
  have "decode_uint32_t ?r = (Some n, dc_seek 4 ?r)"
    using st4.decode_simple [OF wf] by (simp add: decode_uint32_t_def round_up_def n_def)
  then show ?thesis
    by (simp add: start_decoding_def dc_seek_def)
qed

lemma packet_roundtrips:
  assumes x: "roundtrips e dec x" and d: "dc_raw d" and r: "dc_raw r"
    and enc: "e (start_encoding d) = (True, d1)" and fin: "finish_encoding d1 = (n, d2)"
    and sent: "take (unat n) (buffer r) = take (unat n) (buffer d2)"
  shows "\<exists>r1 r2. start_decoding r = (True, r1) \<and> dec r1 = (Some x, r2) \<and> finish_decoding r2
    \<and> unat n \<le> 8888"
proof -
  note s = start_encoding_wf [OF d]
  have ext: "dc_ext (start_encoding d) d1"
    using roundtripsD(1) [OF x s(1) enc] .
  then have wf1: "dc_wf d1" and n4: "4 \<le> unat (cur_length d1)" and n_max: "unat (cur_length d1) \<le> 8888"
    using s by (auto simp: dc_ext_def dc_wf_def word_le_nat_alt)
  have n: "n = cur_length d1" and d2: "d2 = d1\<lparr>buffer := blit 0 (le_bytes 4 n) (buffer d1)\<rparr>"
    using fin wf1 by (auto simp: finish_encoding_def dc_store_def dc_wf_def)
  have len: "length (buffer r) = 8888" "length (buffer d2) = 8888" "length (buffer d1) = 8888"
    using r wf1 by (auto simp: dc_raw_def dc_wf_def d2 length_blit)
  have nth: "buffer r ! i = buffer d2 ! i" if "i < unat n" for i
    using arg_cong [OF sent, of "\<lambda>xs. xs ! i"] that by simp
  have "slice 0 4 (buffer r) = le_bytes 4 n"
    using nth n4 len n by (intro slice_eqI) (auto simp: d2 nth_blit)
  then have "le_word (slice 0 4 (buffer r)) = n"
    by (simp add: le_word_le_bytes)
  then have sd: "start_decoding r = (True, (dc_seek 4 r)\<lparr>max_length := n\<rparr>)"
    using start_decoding_eq [OF r] n n_max by (simp add: word_le_nat_alt)
  let ?r = "(dc_seek 4 r)\<lparr>max_length := n\<rparr>"
  have "dc_reads ?r (start_encoding d) d1"
    using s nth n n4 n_max r len
    by (auto simp: dc_reads_def dc_wf_def dc_raw_def word_le_nat_alt d2 nth_blit)
  then have "dec ?r = (Some x, dc_seek n ?r)"
    using roundtripsD(2) [OF x s(1) enc] n by simp
  then show ?thesis
    using sd n n_max by (simp add: finish_decoding_def)
qed

context codec
begin

theorem packet_roundtrip:
  assumes "valid x" and "dc_raw d" and "dc_raw r"
    and "enc x (start_encoding d) = (True, d1)" and "finish_encoding d1 = (n, d2)"
    and "take (unat n) (buffer r) = take (unat n) (buffer d2)"
  shows "\<exists>r1 r2. start_decoding r = (True, r1) \<and> dec r1 = (Some x, r2) \<and> finish_decoding r2
    \<and> unat n \<le> 8888"
  using packet_roundtrips [OF enc_dec [OF assms(1)]] assms(2-) by blast

end

text \<open>The length that ends a failed string.\<close>

lemma encode_string_failure:
  assumes wf: "dc_wf d" and l: "unat (str_len x) \<le> 8192"
    and fits: "round_up 4 (unat (cur_length d)) + 4 \<le> unat (max_length d)"
    and full: "unat (max_length d) < round_up 4 (unat (cur_length d)) + 4 + Suc (unat (str_len x))"
  shows "\<exists>d'. encode_string x d = (False, d') \<and> cur_length d' = cur_length d
    \<and> unat (cur_pos d') = round_up 4 (unat (cur_length d)) + 4"
proof -
  let ?n = "round_up 4 (unat (cur_length d)) + 4"
  have n: "unat (max_length d) \<le> 8888" "unat (of_nat ?n :: u32) = ?n" "unat (of_nat ?n :: u64) = ?n"
    using wf fits by (auto simp: dc_wf_def unat_of_nat simp del: of_nat_add)
  have "unat (of_nat ?n + (str_len x + 1)) = ?n + Suc (unat (str_len x))"
    using n fits l unat_add_small [of "of_nat ?n" "str_len x + 1"]
    by (simp add: unat_Suc_small del: of_nat_add)
  then show ?thesis
    using st4.encode_simple [OF wf fits, of "str_len x"] full n
    by (simp add: encode_string_def encode_uint32_t_def Let_def word_less_nat_alt del: of_nat_add)
qed

end
