(* ===== verification/Zfs_Protocol.thy ===== *)
theory Zfs_Protocol
  imports Data_Coding
begin

text \<open>
  The data types of the protocol, from \<^verbatim>\<open>zfs-protocol/zfs-prot.h\<close>: limits, status codes,
  enumerations and the argument and result structures of the remote procedures. A C structure is
  a record whose fields carry a prefix in place of the structure's own name space.

  Fields that are never sent are left out: the pointer \<^verbatim>\<open>buffer\<close> of \<^verbatim>\<open>dir_list\<close>, the flag
  \<^verbatim>\<open>remote\<close> of \<^verbatim>\<open>write_args\<close> and the padding of \<^verbatim>\<open>md5sum_res\<close>. The arrays of the
  MD5 messages are lists that hold the first \<^verbatim>\<open>count\<close> elements.
\<close>

section \<open>Limits and status codes\<close>

definition ZFS_MAXPATHLEN :: u32 where "ZFS_MAXPATHLEN = 1023"
definition ZFS_MAXNAMELEN :: u32 where "ZFS_MAXNAMELEN = 255"
definition ZFS_MAXNODELEN :: u32 where "ZFS_MAXNODELEN = 256"
definition MD5_SIZE :: u32 where "MD5_SIZE = 16"
definition ZFS_VERIFY_LEN :: u32 where "ZFS_VERIFY_LEN = MD5_SIZE"

definition ZFS_MAX_MD5_CHUNKS :: u32 where
  "ZFS_MAX_MD5_CHUNKS = ZFS_MAXDATA div (MD5_SIZE + 2 * 8)"

definition ZFS_OK :: u32 where "ZFS_OK = 0"
definition ZFS_REQUEST_TOO_LONG :: u32 where "ZFS_REQUEST_TOO_LONG = - 1"
definition ZFS_INVALID_REQUEST :: u32 where "ZFS_INVALID_REQUEST = - 2"
definition ZFS_UNKNOWN_FUNCTION :: u32 where "ZFS_UNKNOWN_FUNCTION = - 3"
definition ZFS_INVALID_AUTH_LEVEL :: u32 where "ZFS_INVALID_AUTH_LEVEL = - 4"
definition ZFS_INVALID_DIRECTION :: u32 where "ZFS_INVALID_DIRECTION = - 5"


section \<open>Enumerations\<close>

datatype direction = DIR_REQUEST | DIR_REPLY | DIR_ONEWAY

definition DIR_LAST_AND_UNUSED :: u8 where "DIR_LAST_AND_UNUSED = 3"

primrec direction_num :: "direction \<Rightarrow> u8" where
  "direction_num DIR_REQUEST = 0"
| "direction_num DIR_REPLY = 1"
| "direction_num DIR_ONEWAY = 2"

definition direction_of_num :: "u8 \<Rightarrow> direction" where
  "direction_of_num n = (if n = 0 then DIR_REQUEST else if n = 1 then DIR_REPLY else DIR_ONEWAY)"

datatype ftype = FT_BAD | FT_REG | FT_DIR | FT_LNK | FT_BLK | FT_CHR | FT_SOCK | FT_FIFO

definition FT_LAST_AND_UNUSED :: u8 where "FT_LAST_AND_UNUSED = 8"

primrec ftype_num :: "ftype \<Rightarrow> u8" where
  "ftype_num FT_BAD = 0"
| "ftype_num FT_REG = 1"
| "ftype_num FT_DIR = 2"
| "ftype_num FT_LNK = 3"
| "ftype_num FT_BLK = 4"
| "ftype_num FT_CHR = 5"
| "ftype_num FT_SOCK = 6"
| "ftype_num FT_FIFO = 7"

definition ftype_of_num :: "u8 \<Rightarrow> ftype" where
  "ftype_of_num n =
     (if n = 0 then FT_BAD else if n = 1 then FT_REG else if n = 2 then FT_DIR
      else if n = 3 then FT_LNK else if n = 4 then FT_BLK else if n = 5 then FT_CHR
      else if n = 6 then FT_SOCK else FT_FIFO)"

datatype connection_speed = CONNECTION_SPEED_NONE | CONNECTION_SPEED_SLOW | CONNECTION_SPEED_FAST

definition CONNECTION_SPEED_LAST_AND_UNUSED :: u8 where "CONNECTION_SPEED_LAST_AND_UNUSED = 3"

primrec speed_num :: "connection_speed \<Rightarrow> u8" where
  "speed_num CONNECTION_SPEED_NONE = 0"
| "speed_num CONNECTION_SPEED_SLOW = 1"
| "speed_num CONNECTION_SPEED_FAST = 2"

definition speed_of_num :: "u8 \<Rightarrow> connection_speed" where
  "speed_of_num n =
     (if n = 0 then CONNECTION_SPEED_NONE else if n = 1 then CONNECTION_SPEED_SLOW
      else CONNECTION_SPEED_FAST)"


section \<open>Messages\<close>

record zfs_fh =
  fh_sid :: u32
  fh_vid :: u32
  fh_dev :: u32
  fh_ino :: u32
  fh_gen :: u32

record zfs_cap =
  cap_fh :: zfs_fh
  cap_flags :: u32
  cap_verify :: "u8 list"

record fattr =
  fa_dev :: u32
  fa_ino :: u32
  fa_version :: u64
  fa_type :: ftype
  fa_mode :: u32
  fa_nlink :: u32
  fa_uid :: u32
  fa_gid :: u32
  fa_rdev :: u32
  fa_size :: u64
  fa_blocks :: u64
  fa_blksize :: u32
  fa_atime :: u32
  fa_mtime :: u32
  fa_ctime :: u32

record sattr =
  sa_mode :: u32
  sa_uid :: u32
  sa_gid :: u32
  sa_size :: u64
  sa_atime :: u32
  sa_mtime :: u32

record volume_root_args =
  vra_vid :: u32

record setattr_args =
  sta_file :: zfs_fh
  sta_attr :: sattr

record dir_op_args =
  doa_dir :: zfs_fh
  doa_name :: zstring

record dir_op_res =
  dor_file :: zfs_fh
  dor_attr :: fattr

record create_args =
  cra_where :: dir_op_args
  cra_flags :: u32
  cra_attr :: sattr

record create_res =
  crr_cap :: zfs_cap
  crr_dor :: dir_op_res

record open_args =
  opa_file :: zfs_fh
  opa_flags :: u32

record read_dir_args =
  rda_cap :: zfs_cap
  rda_cookie :: u32
  rda_count :: u32

record dir_entry =
  de_ino :: u32
  de_cookie :: u32
  de_name :: zstring

record dir_list =
  dl_n :: u32
  dl_eof :: u8

record mkdir_args =
  mka_where :: dir_op_args
  mka_attr :: sattr

record rename_args =
  rna_from :: dir_op_args
  rna_to :: dir_op_args

record link_args =
  lka_from :: zfs_fh
  lka_to :: dir_op_args

record read_args =
  rea_cap :: zfs_cap
  rea_offset :: u64
  rea_count :: u32

record read_res =
  rer_data :: data_buffer
  rer_version :: u64

record write_args =
  wra_cap :: zfs_cap
  wra_offset :: u64
  wra_data :: data_buffer

record write_res =
  wrr_written :: u32
  wrr_version :: u64

record read_link_res =
  rlr_path :: zstring

record symlink_args =
  sya_from :: dir_op_args
  sya_to :: zstring
  sya_attr :: sattr

record mknod_args =
  mna_where :: dir_op_args
  mna_attr :: sattr
  mna_type :: ftype
  mna_rdev :: u32

record auth_stage1_args =
  a1a_node :: zstring

record auth_stage1_res =
  a1r_node :: zstring

record auth_stage2_args =
  a2a_speed :: connection_speed

record file_info_res =
  fir_path :: zstring

record reintegrate_args =
  ria_fh :: zfs_fh
  ria_status :: u8

record reintegrate_add_args =
  raa_fh :: zfs_fh
  raa_dir :: zfs_fh
  raa_name :: zstring

record reintegrate_del_args =
  rla_fh :: zfs_fh
  rla_dir :: zfs_fh
  rla_name :: zstring
  rla_destroy_p :: u8

record reintegrate_ver_args =
  rva_fh :: zfs_fh
  rva_version_inc :: u64

record reread_config_args =
  rca_path :: zstring

record md5sum_args =
  msa_cap :: zfs_cap
  msa_count :: u32
  msa_ignore_changes :: u8
  msa_offset :: "u64 list"
  msa_length :: "u32 list"

record md5sum_res =
  msr_count :: u32
  msr_size :: u64
  msr_version :: u64
  msr_offset :: "u64 list"
  msr_length :: "u32 list"
  msr_md5sum :: "u8 list list"

record invalidate_args =
  iva_fh :: zfs_fh

end
