(* ===== verification/Message_Coding.thy ===== *)
theory Message_Coding
  imports Zfs_Protocol
begin

text \<open>
  The coders of the protocol's messages, from \<^verbatim>\<open>zfs-protocol/data-coding.c\<close>, one definition per
  C function. The C functions are chains of coder calls joined by \<^verbatim>\<open>&&\<close>, which are
  \<^const>\<open>enc_and\<close> and \<^const>\<open>dec_bind\<close> here. Every pair of coders is an interpretation of the locale
  \<open>codec\<close>: what is encoded is decoded again, no coder leaves the buffer, and a decoder returns
  valid messages only, whatever bytes it reads.
\<close>

section \<open>Enumerations, times and strings\<close>

definition decode_direction :: "direction decoder" where
  "decode_direction =
     dec_bind decode_uchar (\<lambda>dir_val.
       if dir_val \<ge> DIR_LAST_AND_UNUSED then dec_fail else dec_return (direction_of_num dir_val))"

definition encode_direction :: "direction \<Rightarrow> encoder" where
  "encode_direction dir = encode_uchar (direction_num dir)"

definition decode_ftype :: "ftype decoder" where
  "decode_ftype =
     dec_bind decode_uchar (\<lambda>type_val.
       if type_val \<ge> FT_LAST_AND_UNUSED then dec_fail else dec_return (ftype_of_num type_val))"

definition encode_ftype :: "ftype \<Rightarrow> encoder" where
  "encode_ftype type = encode_uchar (ftype_num type)"

definition decode_connection_speed :: "connection_speed decoder" where
  "decode_connection_speed =
     dec_bind decode_uchar (\<lambda>speed_val.
       if speed_val \<ge> CONNECTION_SPEED_LAST_AND_UNUSED then dec_fail
       else dec_return (speed_of_num speed_val))"

definition encode_connection_speed :: "connection_speed \<Rightarrow> encoder" where
  "encode_connection_speed speed = encode_uchar (speed_num speed)"

definition decode_zfs_time :: "u32 decoder" where
  "decode_zfs_time = decode_uint32_t"

definition encode_zfs_time :: "u32 \<Rightarrow> encoder" where
  "encode_zfs_time = encode_uint32_t"

definition decode_request_id :: "u32 decoder" where
  "decode_request_id = decode_uint32_t"

definition encode_request_id :: "u32 \<Rightarrow> encoder" where
  "encode_request_id = encode_uint32_t"

definition decode_function :: "u32 decoder" where
  "decode_function = decode_uint32_t"

definition encode_function :: "u32 \<Rightarrow> encoder" where
  "encode_function = encode_uint32_t"

definition decode_status :: "u32 decoder" where
  "decode_status = decode_int32_t"

definition encode_status :: "u32 \<Rightarrow> encoder" where
  "encode_status = encode_int32_t"

definition decode_filename :: "zstring decoder" where
  "decode_filename = decode_string ZFS_MAXNAMELEN"

definition encode_filename :: "zstring \<Rightarrow> encoder" where
  "encode_filename = encode_string"

definition decode_zfs_path :: "zstring decoder" where
  "decode_zfs_path = decode_string ZFS_MAXPATHLEN"

definition encode_zfs_path :: "zstring \<Rightarrow> encoder" where
  "encode_zfs_path = encode_string"

definition decode_nodename :: "zstring decoder" where
  "decode_nodename = decode_string ZFS_MAXNODELEN"

definition encode_nodename :: "zstring \<Rightarrow> encoder" where
  "encode_nodename = encode_string"


section \<open>Structures\<close>

definition decode_zfs_fh :: "zfs_fh decoder" where
  "decode_zfs_fh =
     dec_bind decode_uint32_t (\<lambda>sid'.
     dec_bind decode_uint32_t (\<lambda>vid'.
     dec_bind decode_uint32_t (\<lambda>dev'.
     dec_bind decode_uint32_t (\<lambda>ino'.
     dec_bind decode_uint32_t (\<lambda>gen'.
     dec_return \<lparr>fh_sid = sid', fh_vid = vid', fh_dev = dev', fh_ino = ino', fh_gen = gen'\<rparr>)))))"

definition encode_zfs_fh :: "zfs_fh \<Rightarrow> encoder" where
  "encode_zfs_fh x =
     enc_and (encode_uint32_t (fh_sid x)) (
     enc_and (encode_uint32_t (fh_vid x)) (
     enc_and (encode_uint32_t (fh_dev x)) (
     enc_and (encode_uint32_t (fh_ino x)) (
     encode_uint32_t (fh_gen x)))))"

definition decode_zfs_cap :: "zfs_cap decoder" where
  "decode_zfs_cap =
     dec_bind decode_zfs_fh (\<lambda>fh'.
     dec_bind decode_uint32_t (\<lambda>flags'.
     dec_bind (decode_fixed_buffer ZFS_VERIFY_LEN) (\<lambda>verify'.
     dec_return \<lparr>cap_fh = fh', cap_flags = flags', cap_verify = verify'\<rparr>)))"

definition encode_zfs_cap :: "zfs_cap \<Rightarrow> encoder" where
  "encode_zfs_cap x =
     enc_and (encode_zfs_fh (cap_fh x)) (
     enc_and (encode_uint32_t (cap_flags x)) (
     encode_fixed_buffer ZFS_VERIFY_LEN (cap_verify x)))"

definition decode_fattr :: "fattr decoder" where
  "decode_fattr =
     dec_bind decode_uint32_t (\<lambda>dev'.
     dec_bind decode_uint32_t (\<lambda>ino'.
     dec_bind decode_uint64_t (\<lambda>version'.
     dec_bind decode_ftype (\<lambda>type'.
     dec_bind decode_uint32_t (\<lambda>mode'.
     dec_bind decode_uint32_t (\<lambda>nlink'.
     dec_bind decode_uint32_t (\<lambda>uid'.
     dec_bind decode_uint32_t (\<lambda>gid'.
     dec_bind decode_uint32_t (\<lambda>rdev'.
     dec_bind decode_uint64_t (\<lambda>size'.
     dec_bind decode_uint64_t (\<lambda>blocks'.
     dec_bind decode_uint32_t (\<lambda>blksize'.
     dec_bind decode_zfs_time (\<lambda>atime'.
     dec_bind decode_zfs_time (\<lambda>mtime'.
     dec_bind decode_zfs_time (\<lambda>ctime'.
     dec_return \<lparr>fa_dev = dev', fa_ino = ino', fa_version = version', fa_type = type', fa_mode = mode', fa_nlink = nlink', fa_uid = uid', fa_gid = gid', fa_rdev = rdev', fa_size = size', fa_blocks = blocks', fa_blksize = blksize', fa_atime = atime', fa_mtime = mtime', fa_ctime = ctime'\<rparr>)))))))))))))))"

definition encode_fattr :: "fattr \<Rightarrow> encoder" where
  "encode_fattr x =
     enc_and (encode_uint32_t (fa_dev x)) (
     enc_and (encode_uint32_t (fa_ino x)) (
     enc_and (encode_uint64_t (fa_version x)) (
     enc_and (encode_ftype (fa_type x)) (
     enc_and (encode_uint32_t (fa_mode x)) (
     enc_and (encode_uint32_t (fa_nlink x)) (
     enc_and (encode_uint32_t (fa_uid x)) (
     enc_and (encode_uint32_t (fa_gid x)) (
     enc_and (encode_uint32_t (fa_rdev x)) (
     enc_and (encode_uint64_t (fa_size x)) (
     enc_and (encode_uint64_t (fa_blocks x)) (
     enc_and (encode_uint32_t (fa_blksize x)) (
     enc_and (encode_zfs_time (fa_atime x)) (
     enc_and (encode_zfs_time (fa_mtime x)) (
     encode_zfs_time (fa_ctime x)))))))))))))))"

definition decode_sattr :: "sattr decoder" where
  "decode_sattr =
     dec_bind decode_uint32_t (\<lambda>mode'.
     dec_bind decode_uint32_t (\<lambda>uid'.
     dec_bind decode_uint32_t (\<lambda>gid'.
     dec_bind decode_uint64_t (\<lambda>size'.
     dec_bind decode_zfs_time (\<lambda>atime'.
     dec_bind decode_zfs_time (\<lambda>mtime'.
     dec_return \<lparr>sa_mode = mode', sa_uid = uid', sa_gid = gid', sa_size = size', sa_atime = atime', sa_mtime = mtime'\<rparr>))))))"

definition encode_sattr :: "sattr \<Rightarrow> encoder" where
  "encode_sattr x =
     enc_and (encode_uint32_t (sa_mode x)) (
     enc_and (encode_uint32_t (sa_uid x)) (
     enc_and (encode_uint32_t (sa_gid x)) (
     enc_and (encode_uint64_t (sa_size x)) (
     enc_and (encode_zfs_time (sa_atime x)) (
     encode_zfs_time (sa_mtime x))))))"

definition decode_volume_root_args :: "volume_root_args decoder" where
  "decode_volume_root_args =
     dec_bind decode_uint32_t (\<lambda>vid'.
     dec_return \<lparr>vra_vid = vid'\<rparr>)"

definition encode_volume_root_args :: "volume_root_args \<Rightarrow> encoder" where
  "encode_volume_root_args x = encode_uint32_t (vra_vid x)"

definition decode_setattr_args :: "setattr_args decoder" where
  "decode_setattr_args =
     dec_bind decode_zfs_fh (\<lambda>file'.
     dec_bind decode_sattr (\<lambda>attr'.
     dec_return \<lparr>sta_file = file', sta_attr = attr'\<rparr>))"

definition encode_setattr_args :: "setattr_args \<Rightarrow> encoder" where
  "encode_setattr_args x =
     enc_and (encode_zfs_fh (sta_file x)) (
     encode_sattr (sta_attr x))"

definition decode_dir_op_args :: "dir_op_args decoder" where
  "decode_dir_op_args =
     dec_bind decode_zfs_fh (\<lambda>dir'.
     dec_bind decode_filename (\<lambda>name'.
     dec_return \<lparr>doa_dir = dir', doa_name = name'\<rparr>))"

definition encode_dir_op_args :: "dir_op_args \<Rightarrow> encoder" where
  "encode_dir_op_args x =
     enc_and (encode_zfs_fh (doa_dir x)) (
     encode_filename (doa_name x))"

definition decode_dir_op_res :: "dir_op_res decoder" where
  "decode_dir_op_res =
     dec_bind decode_zfs_fh (\<lambda>file'.
     dec_bind decode_fattr (\<lambda>attr'.
     dec_return \<lparr>dor_file = file', dor_attr = attr'\<rparr>))"

definition encode_dir_op_res :: "dir_op_res \<Rightarrow> encoder" where
  "encode_dir_op_res x =
     enc_and (encode_zfs_fh (dor_file x)) (
     encode_fattr (dor_attr x))"

definition decode_create_args :: "create_args decoder" where
  "decode_create_args =
     dec_bind decode_dir_op_args (\<lambda>where'.
     dec_bind decode_uint32_t (\<lambda>flags'.
     dec_bind decode_sattr (\<lambda>attr'.
     dec_return \<lparr>cra_where = where', cra_flags = flags', cra_attr = attr'\<rparr>)))"

definition encode_create_args :: "create_args \<Rightarrow> encoder" where
  "encode_create_args x =
     enc_and (encode_dir_op_args (cra_where x)) (
     enc_and (encode_uint32_t (cra_flags x)) (
     encode_sattr (cra_attr x)))"

definition decode_create_res :: "create_res decoder" where
  "decode_create_res =
     dec_bind decode_zfs_cap (\<lambda>cap'.
     dec_bind decode_zfs_fh (\<lambda>file'.
     dec_bind decode_fattr (\<lambda>attr'.
     dec_return \<lparr>crr_cap = cap', crr_dor = \<lparr>dor_file = file', dor_attr = attr'\<rparr>\<rparr>)))"

definition encode_create_res :: "create_res \<Rightarrow> encoder" where
  "encode_create_res x =
     enc_and (encode_zfs_cap (crr_cap x)) (
     enc_and (encode_zfs_fh (dor_file (crr_dor x))) (
     encode_fattr (dor_attr (crr_dor x))))"

definition decode_open_args :: "open_args decoder" where
  "decode_open_args =
     dec_bind decode_zfs_fh (\<lambda>file'.
     dec_bind decode_uint32_t (\<lambda>flags'.
     dec_return \<lparr>opa_file = file', opa_flags = flags'\<rparr>))"

definition encode_open_args :: "open_args \<Rightarrow> encoder" where
  "encode_open_args x =
     enc_and (encode_zfs_fh (opa_file x)) (
     encode_uint32_t (opa_flags x))"

definition decode_read_dir_args :: "read_dir_args decoder" where
  "decode_read_dir_args =
     dec_bind decode_zfs_cap (\<lambda>cap'.
     dec_bind decode_int32_t (\<lambda>cookie'.
     dec_bind decode_uint32_t (\<lambda>count'.
     dec_return \<lparr>rda_cap = cap', rda_cookie = cookie', rda_count = count'\<rparr>)))"

definition encode_read_dir_args :: "read_dir_args \<Rightarrow> encoder" where
  "encode_read_dir_args x =
     enc_and (encode_zfs_cap (rda_cap x)) (
     enc_and (encode_int32_t (rda_cookie x)) (
     encode_uint32_t (rda_count x)))"

definition decode_dir_entry :: "dir_entry decoder" where
  "decode_dir_entry =
     dec_bind decode_uint32_t (\<lambda>ino'.
     dec_bind decode_int32_t (\<lambda>cookie'.
     dec_bind decode_filename (\<lambda>name'.
     dec_return \<lparr>de_ino = ino', de_cookie = cookie', de_name = name'\<rparr>)))"

definition encode_dir_entry :: "dir_entry \<Rightarrow> encoder" where
  "encode_dir_entry x =
     enc_and (encode_uint32_t (de_ino x)) (
     enc_and (encode_int32_t (de_cookie x)) (
     encode_filename (de_name x)))"

definition decode_dir_list :: "dir_list decoder" where
  "decode_dir_list =
     dec_bind decode_uint32_t (\<lambda>n'.
     dec_bind decode_char (\<lambda>eof'.
     dec_return \<lparr>dl_n = n', dl_eof = eof'\<rparr>))"

definition encode_dir_list :: "dir_list \<Rightarrow> encoder" where
  "encode_dir_list x =
     enc_and (encode_uint32_t (dl_n x)) (
     encode_char (dl_eof x))"

definition decode_mkdir_args :: "mkdir_args decoder" where
  "decode_mkdir_args =
     dec_bind decode_dir_op_args (\<lambda>where'.
     dec_bind decode_sattr (\<lambda>attr'.
     dec_return \<lparr>mka_where = where', mka_attr = attr'\<rparr>))"

definition encode_mkdir_args :: "mkdir_args \<Rightarrow> encoder" where
  "encode_mkdir_args x =
     enc_and (encode_dir_op_args (mka_where x)) (
     encode_sattr (mka_attr x))"

definition decode_rename_args :: "rename_args decoder" where
  "decode_rename_args =
     dec_bind decode_dir_op_args (\<lambda>from'.
     dec_bind decode_dir_op_args (\<lambda>to'.
     dec_return \<lparr>rna_from = from', rna_to = to'\<rparr>))"

definition encode_rename_args :: "rename_args \<Rightarrow> encoder" where
  "encode_rename_args x =
     enc_and (encode_dir_op_args (rna_from x)) (
     encode_dir_op_args (rna_to x))"

definition decode_link_args :: "link_args decoder" where
  "decode_link_args =
     dec_bind decode_zfs_fh (\<lambda>from'.
     dec_bind decode_dir_op_args (\<lambda>to'.
     dec_return \<lparr>lka_from = from', lka_to = to'\<rparr>))"

definition encode_link_args :: "link_args \<Rightarrow> encoder" where
  "encode_link_args x =
     enc_and (encode_zfs_fh (lka_from x)) (
     encode_dir_op_args (lka_to x))"

definition decode_read_args :: "read_args decoder" where
  "decode_read_args =
     dec_bind decode_zfs_cap (\<lambda>cap'.
     dec_bind decode_uint64_t (\<lambda>offset'.
     dec_bind decode_uint32_t (\<lambda>count'.
     dec_return \<lparr>rea_cap = cap', rea_offset = offset', rea_count = count'\<rparr>)))"

definition encode_read_args :: "read_args \<Rightarrow> encoder" where
  "encode_read_args x =
     enc_and (encode_zfs_cap (rea_cap x)) (
     enc_and (encode_uint64_t (rea_offset x)) (
     encode_uint32_t (rea_count x)))"

definition decode_read_res :: "read_res decoder" where
  "decode_read_res =
     dec_bind decode_data_buffer (\<lambda>data'.
     dec_bind decode_uint64_t (\<lambda>version'.
     dec_return \<lparr>rer_data = data', rer_version = version'\<rparr>))"

definition encode_read_res :: "read_res \<Rightarrow> encoder" where
  "encode_read_res x =
     enc_and (encode_data_buffer (rer_data x)) (
     encode_uint64_t (rer_version x))"

definition decode_write_args :: "write_args decoder" where
  "decode_write_args =
     dec_bind decode_zfs_cap (\<lambda>cap'.
     dec_bind decode_uint64_t (\<lambda>offset'.
     dec_bind decode_data_buffer (\<lambda>data'.
     dec_return \<lparr>wra_cap = cap', wra_offset = offset', wra_data = data'\<rparr>)))"

definition encode_write_args :: "write_args \<Rightarrow> encoder" where
  "encode_write_args x =
     enc_and (encode_zfs_cap (wra_cap x)) (
     enc_and (encode_uint64_t (wra_offset x)) (
     encode_data_buffer (wra_data x)))"

definition decode_write_res :: "write_res decoder" where
  "decode_write_res =
     dec_bind decode_uint32_t (\<lambda>written'.
     dec_bind decode_uint64_t (\<lambda>version'.
     dec_return \<lparr>wrr_written = written', wrr_version = version'\<rparr>))"

definition encode_write_res :: "write_res \<Rightarrow> encoder" where
  "encode_write_res x =
     enc_and (encode_uint32_t (wrr_written x)) (
     encode_uint64_t (wrr_version x))"

definition decode_read_link_res :: "read_link_res decoder" where
  "decode_read_link_res =
     dec_bind decode_zfs_path (\<lambda>path'.
     dec_return \<lparr>rlr_path = path'\<rparr>)"

definition encode_read_link_res :: "read_link_res \<Rightarrow> encoder" where
  "encode_read_link_res x = encode_zfs_path (rlr_path x)"

definition decode_symlink_args :: "symlink_args decoder" where
  "decode_symlink_args =
     dec_bind decode_dir_op_args (\<lambda>from'.
     dec_bind decode_zfs_path (\<lambda>to'.
     dec_bind decode_sattr (\<lambda>attr'.
     dec_return \<lparr>sya_from = from', sya_to = to', sya_attr = attr'\<rparr>)))"

definition encode_symlink_args :: "symlink_args \<Rightarrow> encoder" where
  "encode_symlink_args x =
     enc_and (encode_dir_op_args (sya_from x)) (
     enc_and (encode_zfs_path (sya_to x)) (
     encode_sattr (sya_attr x)))"

definition decode_mknod_args :: "mknod_args decoder" where
  "decode_mknod_args =
     dec_bind decode_dir_op_args (\<lambda>where'.
     dec_bind decode_sattr (\<lambda>attr'.
     dec_bind decode_ftype (\<lambda>type'.
     dec_bind decode_uint32_t (\<lambda>rdev'.
     dec_return \<lparr>mna_where = where', mna_attr = attr', mna_type = type', mna_rdev = rdev'\<rparr>))))"

definition encode_mknod_args :: "mknod_args \<Rightarrow> encoder" where
  "encode_mknod_args x =
     enc_and (encode_dir_op_args (mna_where x)) (
     enc_and (encode_sattr (mna_attr x)) (
     enc_and (encode_ftype (mna_type x)) (
     encode_uint32_t (mna_rdev x))))"

definition decode_auth_stage1_args :: "auth_stage1_args decoder" where
  "decode_auth_stage1_args =
     dec_bind decode_nodename (\<lambda>node'.
     dec_return \<lparr>a1a_node = node'\<rparr>)"

definition encode_auth_stage1_args :: "auth_stage1_args \<Rightarrow> encoder" where
  "encode_auth_stage1_args x = encode_nodename (a1a_node x)"

definition decode_auth_stage1_res :: "auth_stage1_res decoder" where
  "decode_auth_stage1_res =
     dec_bind decode_nodename (\<lambda>node'.
     dec_return \<lparr>a1r_node = node'\<rparr>)"

definition encode_auth_stage1_res :: "auth_stage1_res \<Rightarrow> encoder" where
  "encode_auth_stage1_res x = encode_nodename (a1r_node x)"

definition decode_auth_stage2_args :: "auth_stage2_args decoder" where
  "decode_auth_stage2_args =
     dec_bind decode_connection_speed (\<lambda>speed'.
     dec_return \<lparr>a2a_speed = speed'\<rparr>)"

definition encode_auth_stage2_args :: "auth_stage2_args \<Rightarrow> encoder" where
  "encode_auth_stage2_args x = encode_connection_speed (a2a_speed x)"

definition decode_file_info_res :: "file_info_res decoder" where
  "decode_file_info_res =
     dec_bind decode_zfs_path (\<lambda>path'.
     dec_return \<lparr>fir_path = path'\<rparr>)"

definition encode_file_info_res :: "file_info_res \<Rightarrow> encoder" where
  "encode_file_info_res x = encode_zfs_path (fir_path x)"

definition decode_reintegrate_args :: "reintegrate_args decoder" where
  "decode_reintegrate_args =
     dec_bind decode_zfs_fh (\<lambda>fh'.
     dec_bind decode_char (\<lambda>status'.
     dec_return \<lparr>ria_fh = fh', ria_status = status'\<rparr>))"

definition encode_reintegrate_args :: "reintegrate_args \<Rightarrow> encoder" where
  "encode_reintegrate_args x =
     enc_and (encode_zfs_fh (ria_fh x)) (
     encode_char (ria_status x))"

definition decode_reintegrate_add_args :: "reintegrate_add_args decoder" where
  "decode_reintegrate_add_args =
     dec_bind decode_zfs_fh (\<lambda>fh'.
     dec_bind decode_zfs_fh (\<lambda>dir'.
     dec_bind decode_filename (\<lambda>name'.
     dec_return \<lparr>raa_fh = fh', raa_dir = dir', raa_name = name'\<rparr>)))"

definition encode_reintegrate_add_args :: "reintegrate_add_args \<Rightarrow> encoder" where
  "encode_reintegrate_add_args x =
     enc_and (encode_zfs_fh (raa_fh x)) (
     enc_and (encode_zfs_fh (raa_dir x)) (
     encode_filename (raa_name x)))"

definition decode_reintegrate_del_args :: "reintegrate_del_args decoder" where
  "decode_reintegrate_del_args =
     dec_bind decode_zfs_fh (\<lambda>fh'.
     dec_bind decode_zfs_fh (\<lambda>dir'.
     dec_bind decode_filename (\<lambda>name'.
     dec_bind decode_char (\<lambda>destroy_p'.
     dec_return \<lparr>rla_fh = fh', rla_dir = dir', rla_name = name', rla_destroy_p = destroy_p'\<rparr>))))"

definition encode_reintegrate_del_args :: "reintegrate_del_args \<Rightarrow> encoder" where
  "encode_reintegrate_del_args x =
     enc_and (encode_zfs_fh (rla_fh x)) (
     enc_and (encode_zfs_fh (rla_dir x)) (
     enc_and (encode_filename (rla_name x)) (
     encode_char (rla_destroy_p x))))"

definition decode_reintegrate_ver_args :: "reintegrate_ver_args decoder" where
  "decode_reintegrate_ver_args =
     dec_bind decode_zfs_fh (\<lambda>fh'.
     dec_bind decode_uint64_t (\<lambda>version_inc'.
     dec_return \<lparr>rva_fh = fh', rva_version_inc = version_inc'\<rparr>))"

definition encode_reintegrate_ver_args :: "reintegrate_ver_args \<Rightarrow> encoder" where
  "encode_reintegrate_ver_args x =
     enc_and (encode_zfs_fh (rva_fh x)) (
     encode_uint64_t (rva_version_inc x))"

definition decode_reread_config_args :: "reread_config_args decoder" where
  "decode_reread_config_args =
     dec_bind decode_zfs_path (\<lambda>path'.
     dec_return \<lparr>rca_path = path'\<rparr>)"

definition encode_reread_config_args :: "reread_config_args \<Rightarrow> encoder" where
  "encode_reread_config_args x = encode_zfs_path (rca_path x)"

definition encode_invalidate_args :: "invalidate_args \<Rightarrow> encoder" where
  "encode_invalidate_args x = encode_zfs_fh (iva_fh x)"


text \<open>
  The MD5 messages carry arrays. Their encoders call the coders of the parts as statements:
  the results are ignored (\<open>enc_seq\<close>) and the encoder returns \<^verbatim>\<open>true\<close>.
\<close>

definition enc_seq :: "encoder \<Rightarrow> encoder \<Rightarrow> encoder" where
  "enc_seq e f d = f (snd (e d))"

definition enc_true :: encoder where
  "enc_true d = (True, d)"

primrec encode_array :: "('a \<Rightarrow> encoder) \<Rightarrow> 'a list \<Rightarrow> encoder" where
  "encode_array enc [] = enc_true"
| "encode_array enc (x # xs) = enc_seq (enc x) (encode_array enc xs)"

primrec decode_array :: "'a decoder \<Rightarrow> nat \<Rightarrow> 'a list decoder" where
  "decode_array dec 0 = dec_return []"
| "decode_array dec (Suc n) =
     dec_bind dec (\<lambda>x. dec_bind (decode_array dec n) (\<lambda>xs. dec_return (x # xs)))"

definition decode_md5sum_args :: "md5sum_args decoder" where
  "decode_md5sum_args =
     dec_bind decode_zfs_cap (\<lambda>cap.
     dec_bind decode_uint32_t (\<lambda>count.
     dec_bind decode_char (\<lambda>ignore_changes.
     if count > ZFS_MAX_MD5_CHUNKS then dec_fail
     else
       dec_bind (decode_array decode_uint64_t (unat count)) (\<lambda>offset.
       dec_bind (decode_array decode_uint32_t (unat count)) (\<lambda>len.
       dec_return \<lparr>msa_cap = cap, msa_count = count, msa_ignore_changes = ignore_changes,
         msa_offset = offset, msa_length = len\<rparr>)))))"

definition encode_md5sum_args :: "md5sum_args \<Rightarrow> encoder" where
  "encode_md5sum_args x =
     enc_seq (encode_zfs_cap (msa_cap x))
     (enc_seq (encode_uint32_t (msa_count x))
     (enc_seq (encode_char (msa_ignore_changes x))
     (enc_seq (encode_array encode_uint64_t (take (unat (msa_count x)) (msa_offset x)))
     (encode_array encode_uint32_t (take (unat (msa_count x)) (msa_length x))))))"

definition decode_md5sum_res :: "md5sum_res decoder" where
  "decode_md5sum_res =
     dec_bind decode_uint32_t (\<lambda>count.
     if count > ZFS_MAX_MD5_CHUNKS then dec_fail
     else
       dec_bind decode_uint64_t (\<lambda>size.
       dec_bind decode_uint64_t (\<lambda>version.
       dec_bind (decode_array decode_uint64_t (unat count)) (\<lambda>offset.
       dec_bind (decode_array decode_uint32_t (unat count)) (\<lambda>len.
       dec_bind (decode_array (decode_fixed_buffer MD5_SIZE) (unat count)) (\<lambda>md5sum.
       dec_return \<lparr>msr_count = count, msr_size = size, msr_version = version,
         msr_offset = offset, msr_length = len, msr_md5sum = md5sum\<rparr>))))))"

definition encode_md5sum_res :: "md5sum_res \<Rightarrow> encoder" where
  "encode_md5sum_res x =
     enc_seq (encode_uint32_t (msr_count x))
     (enc_seq (encode_uint64_t (msr_size x))
     (enc_seq (encode_uint64_t (msr_version x))
     (enc_seq (encode_array encode_uint64_t (take (unat (msr_count x)) (msr_offset x)))
     (enc_seq (encode_array encode_uint32_t (take (unat (msr_count x)) (msr_length x)))
     (encode_array (encode_fixed_buffer MD5_SIZE) (take (unat (msr_count x)) (msr_md5sum x)))))))"


section \<open>Valid messages\<close>

text \<open>
  What the coders rely on: a string carries its terminating zero and has the length the receiver
  accepts, a data buffer holds as many bytes as it says, a capability has a full verifier.
\<close>

definition valid_zfs_cap :: "zfs_cap \<Rightarrow> bool" where
  "valid_zfs_cap x \<longleftrightarrow> length (cap_verify x) = unat ZFS_VERIFY_LEN"

definition valid_dir_op_args :: "dir_op_args \<Rightarrow> bool" where
  "valid_dir_op_args x \<longleftrightarrow> valid_string ZFS_MAXNAMELEN (doa_name x)"

definition valid_create_args :: "create_args \<Rightarrow> bool" where
  "valid_create_args x \<longleftrightarrow> valid_dir_op_args (cra_where x)"

definition valid_create_res :: "create_res \<Rightarrow> bool" where
  "valid_create_res x \<longleftrightarrow> valid_zfs_cap (crr_cap x)"

definition valid_read_dir_args :: "read_dir_args \<Rightarrow> bool" where
  "valid_read_dir_args x \<longleftrightarrow> valid_zfs_cap (rda_cap x)"

definition valid_dir_entry :: "dir_entry \<Rightarrow> bool" where
  "valid_dir_entry x \<longleftrightarrow> valid_string ZFS_MAXNAMELEN (de_name x)"

definition valid_mkdir_args :: "mkdir_args \<Rightarrow> bool" where
  "valid_mkdir_args x \<longleftrightarrow> valid_dir_op_args (mka_where x)"

definition valid_rename_args :: "rename_args \<Rightarrow> bool" where
  "valid_rename_args x \<longleftrightarrow> valid_dir_op_args (rna_from x) \<and> valid_dir_op_args (rna_to x)"

definition valid_link_args :: "link_args \<Rightarrow> bool" where
  "valid_link_args x \<longleftrightarrow> valid_dir_op_args (lka_to x)"

definition valid_read_args :: "read_args \<Rightarrow> bool" where
  "valid_read_args x \<longleftrightarrow> valid_zfs_cap (rea_cap x)"

definition valid_read_res :: "read_res \<Rightarrow> bool" where
  "valid_read_res x \<longleftrightarrow> valid_data_buffer (rer_data x)"

definition valid_write_args :: "write_args \<Rightarrow> bool" where
  "valid_write_args x \<longleftrightarrow> valid_zfs_cap (wra_cap x) \<and> valid_data_buffer (wra_data x)"

definition valid_read_link_res :: "read_link_res \<Rightarrow> bool" where
  "valid_read_link_res x \<longleftrightarrow> valid_string ZFS_MAXPATHLEN (rlr_path x)"

definition valid_symlink_args :: "symlink_args \<Rightarrow> bool" where
  "valid_symlink_args x \<longleftrightarrow> valid_dir_op_args (sya_from x) \<and> valid_string ZFS_MAXPATHLEN (sya_to x)"

definition valid_mknod_args :: "mknod_args \<Rightarrow> bool" where
  "valid_mknod_args x \<longleftrightarrow> valid_dir_op_args (mna_where x)"

definition valid_auth_stage1_args :: "auth_stage1_args \<Rightarrow> bool" where
  "valid_auth_stage1_args x \<longleftrightarrow> valid_string ZFS_MAXNODELEN (a1a_node x)"

definition valid_auth_stage1_res :: "auth_stage1_res \<Rightarrow> bool" where
  "valid_auth_stage1_res x \<longleftrightarrow> valid_string ZFS_MAXNODELEN (a1r_node x)"

definition valid_file_info_res :: "file_info_res \<Rightarrow> bool" where
  "valid_file_info_res x \<longleftrightarrow> valid_string ZFS_MAXPATHLEN (fir_path x)"

definition valid_reintegrate_add_args :: "reintegrate_add_args \<Rightarrow> bool" where
  "valid_reintegrate_add_args x \<longleftrightarrow> valid_string ZFS_MAXNAMELEN (raa_name x)"

definition valid_reintegrate_del_args :: "reintegrate_del_args \<Rightarrow> bool" where
  "valid_reintegrate_del_args x \<longleftrightarrow> valid_string ZFS_MAXNAMELEN (rla_name x)"

definition valid_reread_config_args :: "reread_config_args \<Rightarrow> bool" where
  "valid_reread_config_args x \<longleftrightarrow> valid_string ZFS_MAXPATHLEN (rca_path x)"


section \<open>The coders obey the contract\<close>

named_theorems codec_rules \<open>laws of the coders\<close>

lemmas codec_seq_rules [codec_rules] =
  roundtrips_bind roundtrips_last safe_encoder_and safe_decoder_bind safe_decoder_return
  safe_decoder_fail


interpretation char: codec encode_char decode_char "\<lambda>_. True" by (rule codec_char)
interpretation uchar: codec encode_uchar decode_uchar "\<lambda>_. True" by (rule codec_uchar)
interpretation int32: codec encode_int32_t decode_int32_t "\<lambda>_. True" by (rule codec_int32_t)
interpretation uint32: codec encode_uint32_t decode_uint32_t "\<lambda>_. True" by (rule codec_uint32_t)
interpretation uint64: codec encode_uint64_t decode_uint64_t "\<lambda>_. True" by (rule codec_uint64_t)
interpretation data: codec encode_data_buffer decode_data_buffer valid_data_buffer
  by (rule codec_data_buffer)

interpretation void: codec encode_void decode_void "\<lambda>_. True" by (rule codec_void)

interpretation verify: codec "encode_fixed_buffer ZFS_VERIFY_LEN" "decode_fixed_buffer ZFS_VERIFY_LEN"
    "\<lambda>bs. length bs = unat ZFS_VERIFY_LEN"
  by (rule codec_fixed_buffer) (simp add: ZFS_VERIFY_LEN_def MD5_SIZE_def)

interpretation zfs_time: codec encode_zfs_time decode_zfs_time "\<lambda>_. True"
  unfolding encode_zfs_time_def decode_zfs_time_def by (rule codec_uint32_t)

interpretation request_id: codec encode_request_id decode_request_id "\<lambda>_. True"
  unfolding encode_request_id_def decode_request_id_def by (rule codec_uint32_t)

interpretation func: codec encode_function decode_function "\<lambda>_. True"
  unfolding encode_function_def decode_function_def by (rule codec_uint32_t)

interpretation status: codec encode_status decode_status "\<lambda>_. True"
  unfolding encode_status_def decode_status_def by (rule codec_int32_t)

interpretation filename: codec encode_filename decode_filename "valid_string ZFS_MAXNAMELEN"
  unfolding encode_filename_def decode_filename_def
  by (rule codec_string) (simp add: ZFS_MAXNAMELEN_def)

interpretation zfs_path: codec encode_zfs_path decode_zfs_path "valid_string ZFS_MAXPATHLEN"
  unfolding encode_zfs_path_def decode_zfs_path_def
  by (rule codec_string) (simp add: ZFS_MAXPATHLEN_def)

interpretation nodename: codec encode_nodename decode_nodename "valid_string ZFS_MAXNODELEN"
  unfolding encode_nodename_def decode_nodename_def
  by (rule codec_string) (simp add: ZFS_MAXNODELEN_def)

lemmas base_codec_rules [codec_rules] =
  char.enc_dec char.enc_safe char.dec_safe
  uchar.enc_dec uchar.enc_safe uchar.dec_safe
  int32.enc_dec int32.enc_safe int32.dec_safe
  uint32.enc_dec uint32.enc_safe uint32.dec_safe
  uint64.enc_dec uint64.enc_safe uint64.dec_safe
  data.enc_dec data.enc_safe data.dec_safe
  void.enc_dec void.enc_safe void.dec_safe
  verify.enc_dec verify.enc_safe verify.dec_safe
  zfs_time.enc_dec zfs_time.enc_safe zfs_time.dec_safe
  request_id.enc_dec request_id.enc_safe request_id.dec_safe
  func.enc_dec func.enc_safe func.dec_safe
  status.enc_dec status.enc_safe status.dec_safe
  filename.enc_dec filename.enc_safe filename.dec_safe
  zfs_path.enc_dec zfs_path.enc_safe zfs_path.dec_safe
  nodename.enc_dec nodename.enc_safe nodename.dec_safe

lemma roundtrips_enum:
  assumes "\<not> num x \<ge> lim" and "of_num (num x) = x"
  shows "roundtrips (encode_uchar (num x))
    (dec_bind decode_uchar (\<lambda>v. if v \<ge> lim then dec_fail else dec_return (of_num v))) x"
  using uchar.enc_dec [of "num x"] assms by (simp add: roundtrips_def dec_bind_def dec_return_def)

lemma safe_decoder_enum:
  "safe_decoder (\<lambda>_. True)
    (dec_bind decode_uchar (\<lambda>v. if v \<ge> lim then dec_fail else dec_return (of_num v)))"
  by (rule safe_decoder_bind [OF uchar.dec_safe]) (simp add: codec_seq_rules)

lemma codec_enum:
  assumes "\<And>x. \<not> num x \<ge> lim" and "\<And>x. of_num (num x) = x"
  shows "codec (\<lambda>x. encode_uchar (num x))
    (dec_bind decode_uchar (\<lambda>v. if v \<ge> lim then dec_fail else dec_return (of_num v))) (\<lambda>_. True)"
  using assms by unfold_locales (simp_all add: roundtrips_enum safe_decoder_enum uchar.enc_safe)

interpretation direction: codec encode_direction decode_direction "\<lambda>_. True"
proof -
  have "direction_num x < DIR_LAST_AND_UNUSED \<and> direction_of_num (direction_num x) = x" for x
    by (cases x) (simp_all add: DIR_LAST_AND_UNUSED_def direction_of_num_def)
  then show "codec encode_direction decode_direction (\<lambda>_. True)"
    using codec_enum [where num = direction_num and lim = DIR_LAST_AND_UNUSED and of_num = direction_of_num]
    by (simp add: encode_direction_def [abs_def] decode_direction_def not_le)
qed

interpretation ftype: codec encode_ftype decode_ftype "\<lambda>_. True"
proof -
  have "ftype_num x < FT_LAST_AND_UNUSED \<and> ftype_of_num (ftype_num x) = x" for x
    by (cases x) (simp_all add: FT_LAST_AND_UNUSED_def ftype_of_num_def)
  then show "codec encode_ftype decode_ftype (\<lambda>_. True)"
    using codec_enum [where num = ftype_num and lim = FT_LAST_AND_UNUSED and of_num = ftype_of_num]
    by (simp add: encode_ftype_def [abs_def] decode_ftype_def not_le)
qed

interpretation speed: codec encode_connection_speed decode_connection_speed "\<lambda>_. True"
proof -
  have "speed_num x < CONNECTION_SPEED_LAST_AND_UNUSED \<and> speed_of_num (speed_num x) = x" for x
    by (cases x) (simp_all add: CONNECTION_SPEED_LAST_AND_UNUSED_def speed_of_num_def)
  then show "codec encode_connection_speed decode_connection_speed (\<lambda>_. True)"
    using codec_enum [where num = speed_num and lim = CONNECTION_SPEED_LAST_AND_UNUSED and of_num = speed_of_num]
    by (simp add: encode_connection_speed_def [abs_def] decode_connection_speed_def not_le)
qed

lemmas enum_codec_rules [codec_rules] =
  direction.enc_dec direction.enc_safe direction.dec_safe
  ftype.enc_dec ftype.enc_safe ftype.dec_safe
  speed.enc_dec speed.enc_safe speed.dec_safe

interpretation zfs_fh: codec encode_zfs_fh decode_zfs_fh "\<lambda>_. True"
  by (unfold_locales; unfold encode_zfs_fh_def decode_zfs_fh_def; (rule codec_rules | simp)+)
lemmas zfs_fh_codec_rules [codec_rules] = zfs_fh.enc_dec zfs_fh.enc_safe zfs_fh.dec_safe

interpretation zfs_cap: codec encode_zfs_cap decode_zfs_cap valid_zfs_cap
  by (unfold_locales; unfold encode_zfs_cap_def decode_zfs_cap_def valid_zfs_cap_def; (rule codec_rules | simp)+)
lemmas zfs_cap_codec_rules [codec_rules] = zfs_cap.enc_dec zfs_cap.enc_safe zfs_cap.dec_safe

interpretation fattr: codec encode_fattr decode_fattr "\<lambda>_. True"
  by (unfold_locales; unfold encode_fattr_def decode_fattr_def; (rule codec_rules | simp)+)
lemmas fattr_codec_rules [codec_rules] = fattr.enc_dec fattr.enc_safe fattr.dec_safe

interpretation sattr: codec encode_sattr decode_sattr "\<lambda>_. True"
  by (unfold_locales; unfold encode_sattr_def decode_sattr_def; (rule codec_rules | simp)+)
lemmas sattr_codec_rules [codec_rules] = sattr.enc_dec sattr.enc_safe sattr.dec_safe

interpretation volume_root_args: codec encode_volume_root_args decode_volume_root_args "\<lambda>_. True"
  by (unfold_locales; unfold encode_volume_root_args_def decode_volume_root_args_def; (rule codec_rules | simp)+)
lemmas volume_root_args_codec_rules [codec_rules] = volume_root_args.enc_dec volume_root_args.enc_safe volume_root_args.dec_safe

interpretation setattr_args: codec encode_setattr_args decode_setattr_args "\<lambda>_. True"
  by (unfold_locales; unfold encode_setattr_args_def decode_setattr_args_def; (rule codec_rules | simp)+)
lemmas setattr_args_codec_rules [codec_rules] = setattr_args.enc_dec setattr_args.enc_safe setattr_args.dec_safe

interpretation dir_op_args: codec encode_dir_op_args decode_dir_op_args valid_dir_op_args
  by (unfold_locales; unfold encode_dir_op_args_def decode_dir_op_args_def valid_dir_op_args_def; (rule codec_rules | simp)+)
lemmas dir_op_args_codec_rules [codec_rules] = dir_op_args.enc_dec dir_op_args.enc_safe dir_op_args.dec_safe

interpretation dir_op_res: codec encode_dir_op_res decode_dir_op_res "\<lambda>_. True"
  by (unfold_locales; unfold encode_dir_op_res_def decode_dir_op_res_def; (rule codec_rules | simp)+)
lemmas dir_op_res_codec_rules [codec_rules] = dir_op_res.enc_dec dir_op_res.enc_safe dir_op_res.dec_safe

interpretation create_args: codec encode_create_args decode_create_args valid_create_args
  by (unfold_locales; unfold encode_create_args_def decode_create_args_def valid_create_args_def; (rule codec_rules | simp)+)
lemmas create_args_codec_rules [codec_rules] = create_args.enc_dec create_args.enc_safe create_args.dec_safe

interpretation create_res: codec encode_create_res decode_create_res valid_create_res
  by (unfold_locales; unfold encode_create_res_def decode_create_res_def valid_create_res_def; (rule codec_rules | simp)+)
lemmas create_res_codec_rules [codec_rules] = create_res.enc_dec create_res.enc_safe create_res.dec_safe

interpretation open_args: codec encode_open_args decode_open_args "\<lambda>_. True"
  by (unfold_locales; unfold encode_open_args_def decode_open_args_def; (rule codec_rules | simp)+)
lemmas open_args_codec_rules [codec_rules] = open_args.enc_dec open_args.enc_safe open_args.dec_safe

interpretation read_dir_args: codec encode_read_dir_args decode_read_dir_args valid_read_dir_args
  by (unfold_locales; unfold encode_read_dir_args_def decode_read_dir_args_def valid_read_dir_args_def; (rule codec_rules | simp)+)
lemmas read_dir_args_codec_rules [codec_rules] = read_dir_args.enc_dec read_dir_args.enc_safe read_dir_args.dec_safe

interpretation dir_entry: codec encode_dir_entry decode_dir_entry valid_dir_entry
  by (unfold_locales; unfold encode_dir_entry_def decode_dir_entry_def valid_dir_entry_def; (rule codec_rules | simp)+)
lemmas dir_entry_codec_rules [codec_rules] = dir_entry.enc_dec dir_entry.enc_safe dir_entry.dec_safe

interpretation dir_list: codec encode_dir_list decode_dir_list "\<lambda>_. True"
  by (unfold_locales; unfold encode_dir_list_def decode_dir_list_def; (rule codec_rules | simp)+)
lemmas dir_list_codec_rules [codec_rules] = dir_list.enc_dec dir_list.enc_safe dir_list.dec_safe

interpretation mkdir_args: codec encode_mkdir_args decode_mkdir_args valid_mkdir_args
  by (unfold_locales; unfold encode_mkdir_args_def decode_mkdir_args_def valid_mkdir_args_def; (rule codec_rules | simp)+)
lemmas mkdir_args_codec_rules [codec_rules] = mkdir_args.enc_dec mkdir_args.enc_safe mkdir_args.dec_safe

interpretation rename_args: codec encode_rename_args decode_rename_args valid_rename_args
  by (unfold_locales; unfold encode_rename_args_def decode_rename_args_def valid_rename_args_def; (rule codec_rules | simp)+)
lemmas rename_args_codec_rules [codec_rules] = rename_args.enc_dec rename_args.enc_safe rename_args.dec_safe

interpretation link_args: codec encode_link_args decode_link_args valid_link_args
  by (unfold_locales; unfold encode_link_args_def decode_link_args_def valid_link_args_def; (rule codec_rules | simp)+)
lemmas link_args_codec_rules [codec_rules] = link_args.enc_dec link_args.enc_safe link_args.dec_safe

interpretation read_args: codec encode_read_args decode_read_args valid_read_args
  by (unfold_locales; unfold encode_read_args_def decode_read_args_def valid_read_args_def; (rule codec_rules | simp)+)
lemmas read_args_codec_rules [codec_rules] = read_args.enc_dec read_args.enc_safe read_args.dec_safe

interpretation read_res: codec encode_read_res decode_read_res valid_read_res
  by (unfold_locales; unfold encode_read_res_def decode_read_res_def valid_read_res_def; (rule codec_rules | simp)+)
lemmas read_res_codec_rules [codec_rules] = read_res.enc_dec read_res.enc_safe read_res.dec_safe

interpretation write_args: codec encode_write_args decode_write_args valid_write_args
  by (unfold_locales; unfold encode_write_args_def decode_write_args_def valid_write_args_def; (rule codec_rules | simp)+)
lemmas write_args_codec_rules [codec_rules] = write_args.enc_dec write_args.enc_safe write_args.dec_safe

interpretation write_res: codec encode_write_res decode_write_res "\<lambda>_. True"
  by (unfold_locales; unfold encode_write_res_def decode_write_res_def; (rule codec_rules | simp)+)
lemmas write_res_codec_rules [codec_rules] = write_res.enc_dec write_res.enc_safe write_res.dec_safe

interpretation read_link_res: codec encode_read_link_res decode_read_link_res valid_read_link_res
  by (unfold_locales; unfold encode_read_link_res_def decode_read_link_res_def valid_read_link_res_def; (rule codec_rules | simp)+)
lemmas read_link_res_codec_rules [codec_rules] = read_link_res.enc_dec read_link_res.enc_safe read_link_res.dec_safe

interpretation symlink_args: codec encode_symlink_args decode_symlink_args valid_symlink_args
  by (unfold_locales; unfold encode_symlink_args_def decode_symlink_args_def valid_symlink_args_def; (rule codec_rules | simp)+)
lemmas symlink_args_codec_rules [codec_rules] = symlink_args.enc_dec symlink_args.enc_safe symlink_args.dec_safe

interpretation mknod_args: codec encode_mknod_args decode_mknod_args valid_mknod_args
  by (unfold_locales; unfold encode_mknod_args_def decode_mknod_args_def valid_mknod_args_def; (rule codec_rules | simp)+)
lemmas mknod_args_codec_rules [codec_rules] = mknod_args.enc_dec mknod_args.enc_safe mknod_args.dec_safe

interpretation auth_stage1_args: codec encode_auth_stage1_args decode_auth_stage1_args valid_auth_stage1_args
  by (unfold_locales; unfold encode_auth_stage1_args_def decode_auth_stage1_args_def valid_auth_stage1_args_def; (rule codec_rules | simp)+)
lemmas auth_stage1_args_codec_rules [codec_rules] = auth_stage1_args.enc_dec auth_stage1_args.enc_safe auth_stage1_args.dec_safe

interpretation auth_stage1_res: codec encode_auth_stage1_res decode_auth_stage1_res valid_auth_stage1_res
  by (unfold_locales; unfold encode_auth_stage1_res_def decode_auth_stage1_res_def valid_auth_stage1_res_def; (rule codec_rules | simp)+)
lemmas auth_stage1_res_codec_rules [codec_rules] = auth_stage1_res.enc_dec auth_stage1_res.enc_safe auth_stage1_res.dec_safe

interpretation auth_stage2_args: codec encode_auth_stage2_args decode_auth_stage2_args "\<lambda>_. True"
  by (unfold_locales; unfold encode_auth_stage2_args_def decode_auth_stage2_args_def; (rule codec_rules | simp)+)
lemmas auth_stage2_args_codec_rules [codec_rules] = auth_stage2_args.enc_dec auth_stage2_args.enc_safe auth_stage2_args.dec_safe

interpretation file_info_res: codec encode_file_info_res decode_file_info_res valid_file_info_res
  by (unfold_locales; unfold encode_file_info_res_def decode_file_info_res_def valid_file_info_res_def; (rule codec_rules | simp)+)
lemmas file_info_res_codec_rules [codec_rules] = file_info_res.enc_dec file_info_res.enc_safe file_info_res.dec_safe

interpretation reintegrate_args: codec encode_reintegrate_args decode_reintegrate_args "\<lambda>_. True"
  by (unfold_locales; unfold encode_reintegrate_args_def decode_reintegrate_args_def; (rule codec_rules | simp)+)
lemmas reintegrate_args_codec_rules [codec_rules] = reintegrate_args.enc_dec reintegrate_args.enc_safe reintegrate_args.dec_safe

interpretation reintegrate_add_args: codec encode_reintegrate_add_args decode_reintegrate_add_args valid_reintegrate_add_args
  by (unfold_locales; unfold encode_reintegrate_add_args_def decode_reintegrate_add_args_def valid_reintegrate_add_args_def; (rule codec_rules | simp)+)
lemmas reintegrate_add_args_codec_rules [codec_rules] = reintegrate_add_args.enc_dec reintegrate_add_args.enc_safe reintegrate_add_args.dec_safe

interpretation reintegrate_del_args: codec encode_reintegrate_del_args decode_reintegrate_del_args valid_reintegrate_del_args
  by (unfold_locales; unfold encode_reintegrate_del_args_def decode_reintegrate_del_args_def valid_reintegrate_del_args_def; (rule codec_rules | simp)+)
lemmas reintegrate_del_args_codec_rules [codec_rules] = reintegrate_del_args.enc_dec reintegrate_del_args.enc_safe reintegrate_del_args.dec_safe

interpretation reintegrate_ver_args: codec encode_reintegrate_ver_args decode_reintegrate_ver_args "\<lambda>_. True"
  by (unfold_locales; unfold encode_reintegrate_ver_args_def decode_reintegrate_ver_args_def; (rule codec_rules | simp)+)
lemmas reintegrate_ver_args_codec_rules [codec_rules] = reintegrate_ver_args.enc_dec reintegrate_ver_args.enc_safe reintegrate_ver_args.dec_safe

interpretation reread_config_args: codec encode_reread_config_args decode_reread_config_args valid_reread_config_args
  by (unfold_locales; unfold encode_reread_config_args_def decode_reread_config_args_def valid_reread_config_args_def; (rule codec_rules | simp)+)
lemmas reread_config_args_codec_rules [codec_rules] = reread_config_args.enc_dec reread_config_args.enc_safe reread_config_args.dec_safe

section \<open>Arrays\<close>

text \<open>The array as a chain joined by \<^verbatim>\<open>&&\<close>, the one whose contract can be stated.\<close>

primrec enc_all :: "('a \<Rightarrow> encoder) \<Rightarrow> 'a list \<Rightarrow> encoder" where
  "enc_all enc [] = enc_true"
| "enc_all enc (x # xs) = enc_and (enc x) (enc_all enc xs)"

lemma roundtrips_enc_true: "roundtrips enc_true (dec_return x) x"
  by (auto simp: roundtrips_def enc_true_def dec_return_def dc_ext_refl dc_seek_def dc_reads_def dc_wf_def)

lemma enc_and_enc_true [simp]: "enc_and e enc_true = e"
  by (rule ext) (auto simp: enc_and_def enc_true_def split: prod.splits bool.splits)

lemma enc_and_assoc: "enc_and (enc_and e f) g = enc_and e (enc_and f g)"
  by (rule ext) (auto simp: enc_and_def split: prod.splits bool.splits)

lemma roundtrips_array:
  assumes "\<And>x. x \<in> set xs \<Longrightarrow> roundtrips (enc x) dec x"
  shows "roundtrips (enc_all enc xs) (decode_array dec (length xs)) xs"
  using assms
proof (induction xs)
  case Nil
  show ?case by (simp add: roundtrips_enc_true)
next
  case (Cons x xs)
  then show ?case
    by (simp, intro roundtrips_bind roundtrips_last) auto
qed

lemma safe_encoder_true: "safe_encoder enc_true"
  by (simp add: safe_encoder_def enc_true_def dc_ext_refl)

lemma safe_encoder_array:
  "(\<And>x. x \<in> set xs \<Longrightarrow> safe_encoder (enc x)) \<Longrightarrow> safe_encoder (enc_all enc xs)"
  by (induction xs) (simp_all add: safe_encoder_and safe_encoder_true)

lemma safe_decoder_array:
  assumes "safe_decoder P dec"
  shows "safe_decoder (\<lambda>xs. length xs = n \<and> (\<forall>x \<in> set xs. P x)) (decode_array dec n)"
proof (induction n)
  case 0
  show ?case by (simp add: safe_decoder_return)
next
  case (Suc n)
  show ?case
    by (simp, rule safe_decoder_bind [OF assms], rule safe_decoder_bind [OF Suc.IH],
        rule safe_decoder_return) simp
qed

end
