(* ===== verification/Message_Size.thy ===== *)
theory Message_Size
  imports Message_Coding
begin

text \<open>
  How much room a message takes. \<open>enc_fits a n e\<close> says that the encoder \<open>e\<close> succeeds whenever \<open>n\<close>
  bytes are free after the position has been aligned to \<open>a\<close>, and that it uses no more than that.
  The bounds add up along a message, so each message gets one number, and every valid message is
  shown to fit in a packet. For the MD5 messages, whose encoders ignore failures, the bound is what
  makes the encoder correct at all.
\<close>

section \<open>Bounds\<close>

definition enc_fits :: "nat \<Rightarrow> nat \<Rightarrow> encoder \<Rightarrow> bool" where
  "enc_fits a n e \<longleftrightarrow> (\<forall>d. dc_wf d \<and> round_up a (unat (cur_length d)) + n \<le> unat (max_length d) \<longrightarrow>
     (\<exists>d'. e d = (True, d') \<and> dc_ext d d' \<and> unat (cur_length d') \<le> round_up a (unat (cur_length d)) + n))"

named_theorems fits_rules \<open>bounds on the size of messages\<close>

lemma enc_fitsD:
  assumes "enc_fits a n e" "dc_wf d" "round_up a (unat (cur_length d)) + n \<le> unat (max_length d)"
  obtains d' where "e d = (True, d')" "dc_ext d d'" "dc_wf d'" "max_length d' = max_length d"
    "unat (cur_length d') \<le> round_up a (unat (cur_length d)) + n"
  using assms unfolding enc_fits_def dc_ext_def by blast

lemma round_up_1 [simp]: "round_up 1 n = n" "round_up (Suc 0) n = n"
  by (simp_all add: round_up_def)

lemma round_up_mono: "m \<le> n \<Longrightarrow> round_up a m \<le> round_up a n"
  unfolding round_up_def by (intro mult_le_mono div_le_mono) auto

lemma round_up_add: "0 < a \<Longrightarrow> a dvd n \<Longrightarrow> round_up a (round_up a m + n) = round_up a m + n"
proof -
  assume a: "0 < a" and n: "a dvd n"
  then have "a dvd round_up a m + n" using round_up_dvd by simp
  then obtain k where k: "round_up a m + n = a * k" ..
  have "(a * k + (a - 1)) div a = k"
    using a by (intro div_nat_eqI) (simp_all add: algebra_simps)
  then have "round_up a (a * k) = a * k"
    by (simp add: round_up_def)
  then show ?thesis using k by metis
qed

lemma enc_fits_weaken:
  assumes e: "enc_fits a m e" and le: "\<And>c. round_up a c + m \<le> c + n"
  shows "enc_fits 1 n e"
  unfolding enc_fits_def
proof (intro allI impI, elim conjE)
  fix d assume wf: "dc_wf d" and room: "round_up 1 (unat (cur_length d)) + n \<le> unat (max_length d)"
  then have "round_up a (unat (cur_length d)) + m \<le> unat (max_length d)"
    using le [of "unat (cur_length d)"] by simp
  then obtain d' where "e d = (True, d')" "dc_ext d d'"
      "unat (cur_length d') \<le> round_up a (unat (cur_length d)) + m"
    using enc_fitsD [OF e wf] by blast
  then show "\<exists>d'. e d = (True, d') \<and> dc_ext d d'
      \<and> unat (cur_length d') \<le> round_up 1 (unat (cur_length d)) + n"
    using le [of "unat (cur_length d)"] by auto
qed

lemma enc_fits_mono: "enc_fits 1 m e \<Longrightarrow> m \<le> n \<Longrightarrow> enc_fits 1 n e"
  by (erule enc_fits_weaken) simp

lemma enc_fits_unalign: "0 < a \<Longrightarrow> enc_fits a n e \<Longrightarrow> enc_fits 1 (n + a) e"
  by (erule enc_fits_weaken) (simp add: less_imp_le [OF round_up_less])

lemma enc_fits_and [fits_rules]:
  assumes e: "enc_fits 1 m e" and f: "enc_fits 1 n f"
  shows "enc_fits 1 (m + n) (enc_and e f)"
  unfolding enc_fits_def
proof (intro allI impI, elim conjE)
  fix d assume wf: "dc_wf d" and room: "round_up 1 (unat (cur_length d)) + (m + n) \<le> unat (max_length d)"
  obtain d1 where d1: "e d = (True, d1)" "dc_ext d d1" "dc_wf d1" "max_length d1 = max_length d"
      "unat (cur_length d1) \<le> unat (cur_length d) + m"
    using enc_fitsD [OF e wf] room by auto
  obtain d2 where d2: "f d1 = (True, d2)" "dc_ext d1 d2"
      "unat (cur_length d2) \<le> unat (cur_length d1) + n"
    using enc_fitsD [OF f d1(3)] room d1(4,5) by auto
  show "\<exists>d'. enc_and e f d = (True, d') \<and> dc_ext d d'
      \<and> unat (cur_length d') \<le> round_up 1 (unat (cur_length d)) + (m + n)"
    using d1 d2 dc_ext_trans [OF d1(2) d2(2)] by (simp add: enc_and_def)
qed

lemma enc_fits_true [fits_rules]: "enc_fits 1 0 enc_true"
  by (simp add: enc_fits_def enc_true_def dc_ext_refl)

text \<open>An array of parts whose size is a multiple of their alignment is packed without gaps.\<close>

lemma enc_fits_array:
  assumes "0 < a" "a dvd n" and "\<And>x. x \<in> set xs \<Longrightarrow> enc_fits a n (enc x)"
  shows "enc_fits a (length xs * n) (enc_all enc xs)"
  using assms(3)
proof (induction xs)
  case Nil
  then show ?case
    using round_up_ge [OF assms(1)] by (simp add: enc_fits_def enc_true_def dc_ext_refl)
next
  case (Cons x xs)
  have x: "enc_fits a n (enc x)" and xs: "enc_fits a (length xs * n) (enc_all enc xs)"
    using Cons by auto
  show ?case
    unfolding enc_fits_def
  proof (intro allI impI, elim conjE)
    fix d assume wf: "dc_wf d"
      and room: "round_up a (unat (cur_length d)) + length (x # xs) * n \<le> unat (max_length d)"
    obtain d1 where d1: "enc x d = (True, d1)" "dc_ext d d1" "dc_wf d1" "max_length d1 = max_length d"
        "unat (cur_length d1) \<le> round_up a (unat (cur_length d)) + n"
      using enc_fitsD [OF x wf] room by auto
    have c: "round_up a (unat (cur_length d1)) \<le> round_up a (unat (cur_length d)) + n"
      using round_up_mono [OF d1(5), of a] round_up_add [OF assms(1,2)] by simp
    obtain d2 where d2: "enc_all enc xs d1 = (True, d2)" "dc_ext d1 d2"
        "unat (cur_length d2) \<le> round_up a (unat (cur_length d1)) + length xs * n"
      using enc_fitsD [OF xs d1(3)] room d1(4) c by auto
    show "\<exists>d'. enc_all enc (x # xs) d = (True, d') \<and> dc_ext d d'
        \<and> unat (cur_length d') \<le> round_up a (unat (cur_length d)) + length (x # xs) * n"
      using d1 d2 c dc_ext_trans [OF d1(2) d2(2)] by (simp add: enc_and_def)
  qed
qed


section \<open>The parts\<close>

context simple_type
begin

lemma simple_fits: "enc_fits S S (ENCODE_SIMPLE_TYPE align alignp S F x)"
  unfolding enc_fits_def
proof (intro allI impI, elim conjE)
  fix d assume wf: "dc_wf d" and room: "round_up S (unat (cur_length d)) + S \<le> unat (max_length d)"
  let ?d = "snd (ENCODE_SIMPLE_TYPE align alignp S F x d)"
  have e: "ENCODE_SIMPLE_TYPE align alignp S F x d = (True, ?d)"
      "cur_length ?d = of_nat (round_up S (unat (cur_length d)) + S)"
    using encode_simple [OF wf room, of x] by (simp_all del: of_nat_add)
  then have "unat (cur_length ?d) = round_up S (unat (cur_length d)) + S"
    using room wf by (simp add: dc_wf_def unat_of_nat del: of_nat_add)
  then show "\<exists>d'. ENCODE_SIMPLE_TYPE align alignp S F x d = (True, d') \<and> dc_ext d d'
      \<and> unat (cur_length d') \<le> round_up S (unat (cur_length d)) + S"
    using e(1) roundtripsD(1) [OF simple_roundtrips wf e(1)] by (metis order_refl)
qed

end

lemma enc_fits_char [fits_rules]: "enc_fits 1 1 (encode_char x)"
  using st1.simple_fits [of x] by (simp add: encode_char_def)

lemma enc_fits_uchar [fits_rules]: "enc_fits 1 1 (encode_uchar x)"
  using st1.simple_fits [of x] by (simp add: encode_uchar_def)

lemma enc_fits_uint32_aligned: "enc_fits 4 4 (encode_uint32_t x)"
  using st4.simple_fits [of x] by (simp add: encode_uint32_t_def)

lemma enc_fits_uint64_aligned: "enc_fits 8 8 (encode_uint64_t x)"
  using st8.simple_fits [of x] by (simp add: encode_uint64_t_def)

lemma enc_fits_uint32 [fits_rules]: "enc_fits 1 8 (encode_uint32_t x)"
  using enc_fits_unalign [OF _ enc_fits_uint32_aligned] by simp

lemma enc_fits_int32 [fits_rules]: "enc_fits 1 8 (encode_int32_t x)"
  using enc_fits_uint32 [of x] by (simp add: encode_uint32_t_def encode_int32_t_def)

lemma enc_fits_uint64 [fits_rules]: "enc_fits 1 16 (encode_uint64_t x)"
  using enc_fits_unalign [OF _ enc_fits_uint64_aligned] by simp

lemma enc_fits_void [fits_rules]: "enc_fits 1 0 (encode_void x)"
  by (simp add: enc_fits_def encode_void_def dc_ext_refl)

lemma enc_fits_fixed:
  assumes l: "unat l \<le> 8888" "length bs = unat l"
  shows "enc_fits 1 (unat l) (encode_fixed_buffer l bs)"
  unfolding enc_fits_def
proof (intro allI impI, elim conjE)
  fix d assume wf: "dc_wf d" and room: "round_up 1 (unat (cur_length d)) + unat l \<le> unat (max_length d)"
  let ?d = "(dc_seek (cur_length d + l) d)\<lparr>buffer := blit (unat (cur_length d)) bs (buffer d)\<rparr>"
  have e: "encode_fixed_buffer l bs d = (True, ?d)"
    using encode_fixed [OF wf l] room by simp
  have "unat (cur_length d + l) = unat (cur_length d) + unat l"
    using room wf by (intro unat_add_small) (simp add: dc_wf_def)
  then show "\<exists>d'. encode_fixed_buffer l bs d = (True, d') \<and> dc_ext d d'
      \<and> unat (cur_length d') \<le> round_up 1 (unat (cur_length d)) + unat l"
    using e roundtripsD(1) [OF codec.enc_dec [OF codec_fixed_buffer [OF l(1)] l(2)] wf e] by simp
qed

lemma enc_fits_verify [fits_rules]:
  "length bs = unat ZFS_VERIFY_LEN \<Longrightarrow> enc_fits 1 16 (encode_fixed_buffer ZFS_VERIFY_LEN bs)"
  using enc_fits_fixed [of ZFS_VERIFY_LEN bs] by (simp add: ZFS_VERIFY_LEN_def MD5_SIZE_def)

lemma enc_fits_data_buffer [fits_rules]:
  assumes "valid_data_buffer x"
  shows "enc_fits 1 8200 (encode_data_buffer x)"
proof -
  have "unat (db_len x) \<le> 8192" "length (db_buf x) = unat (db_len x)"
    using assms by (simp_all add: valid_data_buffer_def ZFS_MAXDATA_def word_le_nat_alt)
  then have "enc_fits 1 (8 + unat (db_len x)) (encode_data_buffer x)"
    unfolding encode_data_buffer_eq by (intro enc_fits_and enc_fits_uint32 enc_fits_fixed) simp_all
  then show ?thesis
    using \<open>unat (db_len x) \<le> 8192\<close> by (elim enc_fits_mono) simp
qed

lemma enc_fits_string:
  assumes "valid_string m x" "unat m \<le> 8192"
  shows "enc_fits 1 (9 + unat m) (encode_string x)"
proof -
  have l: "unat (str_len x) \<le> unat m" "length (str_str x) = unat (str_len x + 1)"
    using assms unat_Suc_small [of "str_len x"] by (simp_all add: valid_string_def word_le_nat_alt)
  then have "enc_fits 1 (8 + unat (str_len x + 1))
      (enc_and (encode_uint32_t (str_len x)) (encode_fixed_buffer (str_len x + 1) (str_str x)))"
    using assms unat_Suc_small [of "str_len x"]
    by (intro enc_fits_and enc_fits_uint32 enc_fits_fixed) simp_all
  then have "enc_fits 1 (9 + unat m)
      (enc_and (encode_uint32_t (str_len x)) (encode_fixed_buffer (str_len x + 1) (str_str x)))"
    using l assms(2) unat_Suc_small [of "str_len x"] by (elim enc_fits_mono) simp
  then show ?thesis
    by (simp add: enc_fits_def encode_string_True)
qed

lemma enc_fits_filename [fits_rules]:
  "valid_string ZFS_MAXNAMELEN x \<Longrightarrow> enc_fits 1 264 (encode_filename x)"
  using enc_fits_string [of ZFS_MAXNAMELEN x] by (simp add: encode_filename_def ZFS_MAXNAMELEN_def)

lemma enc_fits_zfs_path [fits_rules]:
  "valid_string ZFS_MAXPATHLEN x \<Longrightarrow> enc_fits 1 1032 (encode_zfs_path x)"
  using enc_fits_string [of ZFS_MAXPATHLEN x] by (simp add: encode_zfs_path_def ZFS_MAXPATHLEN_def)

lemma enc_fits_nodename [fits_rules]:
  "valid_string ZFS_MAXNODELEN x \<Longrightarrow> enc_fits 1 265 (encode_nodename x)"
  using enc_fits_string [of ZFS_MAXNODELEN x] by (simp add: encode_nodename_def ZFS_MAXNODELEN_def)

lemmas fits_unfold =
  encode_zfs_time_def encode_request_id_def encode_function_def encode_status_def
  encode_direction_def encode_ftype_def encode_connection_speed_def


section \<open>The messages\<close>

lemma enc_fits_zfs_fh [fits_rules]: "enc_fits 1 40 (encode_zfs_fh x)"
  by (rule enc_fits_mono, unfold encode_zfs_fh_def fits_unfold) (rule fits_rules | simp)+

lemma enc_fits_zfs_cap [fits_rules]: "valid_zfs_cap x \<Longrightarrow> enc_fits 1 64 (encode_zfs_cap x)"
  by (rule enc_fits_mono, unfold encode_zfs_cap_def valid_zfs_cap_def fits_unfold) (rule fits_rules | simp)+

lemma enc_fits_fattr [fits_rules]: "enc_fits 1 137 (encode_fattr x)"
  by (rule enc_fits_mono, unfold encode_fattr_def fits_unfold) (rule fits_rules | simp)+

lemma enc_fits_sattr [fits_rules]: "enc_fits 1 56 (encode_sattr x)"
  by (rule enc_fits_mono, unfold encode_sattr_def fits_unfold) (rule fits_rules | simp)+

lemma enc_fits_volume_root_args [fits_rules]: "enc_fits 1 8 (encode_volume_root_args x)"
  by (rule enc_fits_mono, unfold encode_volume_root_args_def fits_unfold) (rule fits_rules | simp)+

lemma enc_fits_setattr_args [fits_rules]: "enc_fits 1 96 (encode_setattr_args x)"
  by (rule enc_fits_mono, unfold encode_setattr_args_def fits_unfold) (rule fits_rules | simp)+

lemma enc_fits_dir_op_args [fits_rules]: "valid_dir_op_args x \<Longrightarrow> enc_fits 1 304 (encode_dir_op_args x)"
  by (rule enc_fits_mono, unfold encode_dir_op_args_def valid_dir_op_args_def fits_unfold) (rule fits_rules | simp)+

lemma enc_fits_dir_op_res [fits_rules]: "enc_fits 1 177 (encode_dir_op_res x)"
  by (rule enc_fits_mono, unfold encode_dir_op_res_def fits_unfold) (rule fits_rules | simp)+

lemma enc_fits_create_args [fits_rules]: "valid_create_args x \<Longrightarrow> enc_fits 1 368 (encode_create_args x)"
  by (rule enc_fits_mono, unfold encode_create_args_def valid_create_args_def fits_unfold) (rule fits_rules | simp)+

lemma enc_fits_create_res [fits_rules]: "valid_create_res x \<Longrightarrow> enc_fits 1 241 (encode_create_res x)"
  by (rule enc_fits_mono, unfold encode_create_res_def valid_create_res_def fits_unfold) (rule fits_rules | simp)+

lemma enc_fits_open_args [fits_rules]: "enc_fits 1 48 (encode_open_args x)"
  by (rule enc_fits_mono, unfold encode_open_args_def fits_unfold) (rule fits_rules | simp)+

lemma enc_fits_read_dir_args [fits_rules]: "valid_read_dir_args x \<Longrightarrow> enc_fits 1 80 (encode_read_dir_args x)"
  by (rule enc_fits_mono, unfold encode_read_dir_args_def valid_read_dir_args_def fits_unfold) (rule fits_rules | simp)+

lemma enc_fits_dir_entry [fits_rules]: "valid_dir_entry x \<Longrightarrow> enc_fits 1 280 (encode_dir_entry x)"
  by (rule enc_fits_mono, unfold encode_dir_entry_def valid_dir_entry_def fits_unfold) (rule fits_rules | simp)+

lemma enc_fits_dir_list [fits_rules]: "enc_fits 1 9 (encode_dir_list x)"
  by (rule enc_fits_mono, unfold encode_dir_list_def fits_unfold) (rule fits_rules | simp)+

lemma enc_fits_mkdir_args [fits_rules]: "valid_mkdir_args x \<Longrightarrow> enc_fits 1 360 (encode_mkdir_args x)"
  by (rule enc_fits_mono, unfold encode_mkdir_args_def valid_mkdir_args_def fits_unfold) (rule fits_rules | simp)+

lemma enc_fits_rename_args [fits_rules]: "valid_rename_args x \<Longrightarrow> enc_fits 1 608 (encode_rename_args x)"
  by (rule enc_fits_mono, unfold encode_rename_args_def valid_rename_args_def fits_unfold) (rule fits_rules | simp)+

lemma enc_fits_link_args [fits_rules]: "valid_link_args x \<Longrightarrow> enc_fits 1 344 (encode_link_args x)"
  by (rule enc_fits_mono, unfold encode_link_args_def valid_link_args_def fits_unfold) (rule fits_rules | simp)+

lemma enc_fits_read_args [fits_rules]: "valid_read_args x \<Longrightarrow> enc_fits 1 88 (encode_read_args x)"
  by (rule enc_fits_mono, unfold encode_read_args_def valid_read_args_def fits_unfold) (rule fits_rules | simp)+

lemma enc_fits_read_res [fits_rules]: "valid_read_res x \<Longrightarrow> enc_fits 1 8216 (encode_read_res x)"
  by (rule enc_fits_mono, unfold encode_read_res_def valid_read_res_def fits_unfold) (rule fits_rules | simp)+

lemma enc_fits_write_args [fits_rules]: "valid_write_args x \<Longrightarrow> enc_fits 1 8280 (encode_write_args x)"
  by (rule enc_fits_mono, unfold encode_write_args_def valid_write_args_def fits_unfold) (rule fits_rules | simp)+

lemma enc_fits_write_res [fits_rules]: "enc_fits 1 24 (encode_write_res x)"
  by (rule enc_fits_mono, unfold encode_write_res_def fits_unfold) (rule fits_rules | simp)+

lemma enc_fits_read_link_res [fits_rules]: "valid_read_link_res x \<Longrightarrow> enc_fits 1 1032 (encode_read_link_res x)"
  by (rule enc_fits_mono, unfold encode_read_link_res_def valid_read_link_res_def fits_unfold) (rule fits_rules | simp)+

lemma enc_fits_symlink_args [fits_rules]: "valid_symlink_args x \<Longrightarrow> enc_fits 1 1392 (encode_symlink_args x)"
  by (rule enc_fits_mono, unfold encode_symlink_args_def valid_symlink_args_def fits_unfold) (rule fits_rules | simp)+

lemma enc_fits_mknod_args [fits_rules]: "valid_mknod_args x \<Longrightarrow> enc_fits 1 369 (encode_mknod_args x)"
  by (rule enc_fits_mono, unfold encode_mknod_args_def valid_mknod_args_def fits_unfold) (rule fits_rules | simp)+

lemma enc_fits_auth_stage1_args [fits_rules]: "valid_auth_stage1_args x \<Longrightarrow> enc_fits 1 265 (encode_auth_stage1_args x)"
  by (rule enc_fits_mono, unfold encode_auth_stage1_args_def valid_auth_stage1_args_def fits_unfold) (rule fits_rules | simp)+

lemma enc_fits_auth_stage1_res [fits_rules]: "valid_auth_stage1_res x \<Longrightarrow> enc_fits 1 265 (encode_auth_stage1_res x)"
  by (rule enc_fits_mono, unfold encode_auth_stage1_res_def valid_auth_stage1_res_def fits_unfold) (rule fits_rules | simp)+

lemma enc_fits_auth_stage2_args [fits_rules]: "enc_fits 1 1 (encode_auth_stage2_args x)"
  by (rule enc_fits_mono, unfold encode_auth_stage2_args_def fits_unfold) (rule fits_rules | simp)+

lemma enc_fits_file_info_res [fits_rules]: "valid_file_info_res x \<Longrightarrow> enc_fits 1 1032 (encode_file_info_res x)"
  by (rule enc_fits_mono, unfold encode_file_info_res_def valid_file_info_res_def fits_unfold) (rule fits_rules | simp)+

lemma enc_fits_reintegrate_args [fits_rules]: "enc_fits 1 41 (encode_reintegrate_args x)"
  by (rule enc_fits_mono, unfold encode_reintegrate_args_def fits_unfold) (rule fits_rules | simp)+

lemma enc_fits_reintegrate_add_args [fits_rules]: "valid_reintegrate_add_args x \<Longrightarrow> enc_fits 1 344 (encode_reintegrate_add_args x)"
  by (rule enc_fits_mono, unfold encode_reintegrate_add_args_def valid_reintegrate_add_args_def fits_unfold) (rule fits_rules | simp)+

lemma enc_fits_reintegrate_del_args [fits_rules]: "valid_reintegrate_del_args x \<Longrightarrow> enc_fits 1 345 (encode_reintegrate_del_args x)"
  by (rule enc_fits_mono, unfold encode_reintegrate_del_args_def valid_reintegrate_del_args_def fits_unfold) (rule fits_rules | simp)+

lemma enc_fits_reintegrate_ver_args [fits_rules]: "enc_fits 1 56 (encode_reintegrate_ver_args x)"
  by (rule enc_fits_mono, unfold encode_reintegrate_ver_args_def fits_unfold) (rule fits_rules | simp)+

lemma enc_fits_reread_config_args [fits_rules]: "valid_reread_config_args x \<Longrightarrow> enc_fits 1 1032 (encode_reread_config_args x)"
  by (rule enc_fits_mono, unfold encode_reread_config_args_def valid_reread_config_args_def fits_unfold) (rule fits_rules | simp)+


section \<open>The MD5 messages\<close>

text \<open>
  Where there is room for all parts, ignoring the results of the coders makes no difference.
\<close>

definition enc_agree :: "nat \<Rightarrow> encoder \<Rightarrow> encoder \<Rightarrow> bool" where
  "enc_agree n e f \<longleftrightarrow> (\<forall>d. dc_wf d \<and> unat (cur_length d) + n \<le> unat (max_length d) \<longrightarrow> e d = f d)"

lemma enc_agree_refl: "enc_agree n e e"
  by (simp add: enc_agree_def)

lemma enc_agree_seq:
  assumes e: "enc_agree m e e'" "enc_fits 1 m e'" and f: "enc_agree n f f'"
  shows "enc_agree (m + n) (enc_seq e f) (enc_and e' f')"
  unfolding enc_agree_def
proof (intro allI impI, elim conjE)
  fix d assume wf: "dc_wf d" and room: "unat (cur_length d) + (m + n) \<le> unat (max_length d)"
  obtain d' where d': "e' d = (True, d')" "dc_wf d'" "max_length d' = max_length d"
      "unat (cur_length d') \<le> unat (cur_length d) + m"
    using enc_fitsD [OF e(2) wf] room by auto
  moreover have "e d = e' d"
    using e(1) wf room by (simp add: enc_agree_def)
  moreover have "f d' = f' d'"
    using f d' room by (simp add: enc_agree_def)
  ultimately show "enc_seq e f d = enc_and e' f' d"
    by (simp add: enc_seq_def enc_and_def)
qed

lemma encode_array_agree:
  assumes "0 < a" "a dvd n" and "\<And>x. x \<in> set xs \<Longrightarrow> enc_fits a n (enc x)"
  shows "dc_wf d \<Longrightarrow> round_up a (unat (cur_length d)) + length xs * n \<le> unat (max_length d)
    \<Longrightarrow> encode_array enc xs d = enc_all enc xs d"
  using assms(3)
proof (induction xs arbitrary: d)
  case Nil
  then show ?case by simp
next
  case (Cons x xs)
  have x: "enc_fits a n (enc x)" using Cons.prems by simp
  obtain d1 where d1: "enc x d = (True, d1)" "dc_wf d1" "max_length d1 = max_length d"
      "unat (cur_length d1) \<le> round_up a (unat (cur_length d)) + n"
    using enc_fitsD [OF x Cons.prems(1)] Cons.prems(2) by auto
  have "round_up a (unat (cur_length d1)) \<le> round_up a (unat (cur_length d)) + n"
    using round_up_mono [OF d1(4), of a] round_up_add [OF assms(1,2)] by simp
  then have "encode_array enc xs d1 = enc_all enc xs d1"
    using Cons d1 by simp
  then show ?case
    using d1 by (simp add: enc_seq_def enc_and_def)
qed

lemma enc_agree_array:
  assumes "0 < a" "a dvd n" and "\<And>x. x \<in> set xs \<Longrightarrow> enc_fits a n (enc x)"
  shows "enc_agree (length xs * n + a) (encode_array enc xs) (enc_all enc xs)"
  unfolding enc_agree_def
proof (intro allI impI, elim conjE)
  fix d assume "dc_wf d" and "unat (cur_length d) + (length xs * n + a) \<le> unat (max_length d)"
  then show "encode_array enc xs d = enc_all enc xs d"
    using encode_array_agree [of a n xs enc d] assms round_up_less [OF assms(1), of "unat (cur_length d)"] by simp
qed

definition valid_md5sum_args :: "md5sum_args \<Rightarrow> bool" where
  "valid_md5sum_args x \<longleftrightarrow> valid_zfs_cap (msa_cap x) \<and> msa_count x \<le> ZFS_MAX_MD5_CHUNKS
     \<and> length (msa_offset x) = unat (msa_count x) \<and> length (msa_length x) = unat (msa_count x)"

definition valid_md5sum_res :: "md5sum_res \<Rightarrow> bool" where
  "valid_md5sum_res x \<longleftrightarrow> msr_count x \<le> ZFS_MAX_MD5_CHUNKS
     \<and> length (msr_offset x) = unat (msr_count x) \<and> length (msr_length x) = unat (msr_count x)
     \<and> length (msr_md5sum x) = unat (msr_count x)
     \<and> (\<forall>md5 \<in> set (msr_md5sum x). length md5 = unat MD5_SIZE)"

text \<open>The encoders with every result checked; these obey the contract of a codec.\<close>

definition enc_md5sum_args :: "md5sum_args \<Rightarrow> encoder" where
  "enc_md5sum_args x =
     enc_and (encode_zfs_cap (msa_cap x))
     (enc_and (encode_uint32_t (msa_count x))
     (enc_and (encode_char (msa_ignore_changes x))
     (enc_and (enc_all encode_uint64_t (msa_offset x))
     (enc_all encode_uint32_t (msa_length x)))))"

definition enc_md5sum_res :: "md5sum_res \<Rightarrow> encoder" where
  "enc_md5sum_res x =
     enc_and (encode_uint32_t (msr_count x))
     (enc_and (encode_uint64_t (msr_size x))
     (enc_and (encode_uint64_t (msr_version x))
     (enc_and (enc_all encode_uint64_t (msr_offset x))
     (enc_and (enc_all encode_uint32_t (msr_length x))
     (enc_all (encode_fixed_buffer MD5_SIZE) (msr_md5sum x))))))"

interpretation md5: codec "encode_fixed_buffer MD5_SIZE" "decode_fixed_buffer MD5_SIZE"
    "\<lambda>bs. length bs = unat MD5_SIZE"
  by (rule codec_fixed_buffer) (simp add: MD5_SIZE_def)

lemma enc_fits_md5: "length bs = unat MD5_SIZE \<Longrightarrow> enc_fits 1 16 (encode_fixed_buffer MD5_SIZE bs)"
  using enc_fits_fixed [of MD5_SIZE bs] by (simp add: MD5_SIZE_def)

lemma md5_chunks: "n \<le> ZFS_MAX_MD5_CHUNKS \<Longrightarrow> unat n \<le> 256"
  by (simp add: ZFS_MAX_MD5_CHUNKS_def ZFS_MAXDATA_def MD5_SIZE_def word_le_nat_alt)

lemma roundtrips_array_n:
  assumes "length xs = n" "\<And>x. x \<in> set xs \<Longrightarrow> roundtrips (enc x) dec x"
  shows "roundtrips (enc_all enc xs) (decode_array dec n) xs"
  using roundtrips_array [of xs enc dec] assms by simp

lemma safe_decoder_if:
  "(\<not> b \<Longrightarrow> safe_decoder P f) \<Longrightarrow> safe_decoder P (if b then dec_fail else f)"
  by (simp add: safe_decoder_fail)

lemma roundtrips_if: "\<not> b \<Longrightarrow> roundtrips e f x \<Longrightarrow> roundtrips e (if b then dec_fail else f) x"
  by simp

interpretation md5sum_args: codec enc_md5sum_args decode_md5sum_args valid_md5sum_args
proof
  fix x assume v: "valid_md5sum_args x"
  show "roundtrips (enc_md5sum_args x) decode_md5sum_args x"
    using v unfolding enc_md5sum_args_def decode_md5sum_args_def valid_md5sum_args_def
    by (elim conjE) (rule codec_rules roundtrips_if roundtrips_array_n | simp)+
  show "safe_encoder (enc_md5sum_args x)"
    using v unfolding enc_md5sum_args_def valid_md5sum_args_def
    by (intro codec_rules safe_encoder_array) auto
next
  show "safe_decoder valid_md5sum_args decode_md5sum_args"
    unfolding decode_md5sum_args_def valid_md5sum_args_def
    by (rule codec_rules safe_decoder_if safe_decoder_array | simp)+
qed

interpretation md5sum_res: codec enc_md5sum_res decode_md5sum_res valid_md5sum_res
proof
  fix x assume v: "valid_md5sum_res x"
  show "roundtrips (enc_md5sum_res x) decode_md5sum_res x"
    using v unfolding enc_md5sum_res_def decode_md5sum_res_def valid_md5sum_res_def
    by (elim conjE) (rule codec_rules roundtrips_if roundtrips_array_n md5.enc_dec | simp)+
  show "safe_encoder (enc_md5sum_res x)"
    using v unfolding enc_md5sum_res_def valid_md5sum_res_def
    by (intro codec_rules safe_encoder_array md5.enc_safe) auto
next
  show "safe_decoder valid_md5sum_res decode_md5sum_res"
    unfolding decode_md5sum_res_def valid_md5sum_res_def
    by (rule codec_rules safe_decoder_if safe_decoder_array md5.dec_safe | simp)+
qed

lemmas md5_fits = enc_fits_uint64_aligned enc_fits_uint32_aligned enc_fits_md5

lemma array_fits:
  assumes "0 < a" "a dvd n" and "\<And>x. x \<in> set xs \<Longrightarrow> enc_fits a n (enc x)"
  shows "enc_fits 1 (length xs * n + a) (enc_all enc xs)"
  by (rule enc_fits_unalign [OF assms(1) enc_fits_array [OF assms]])

lemma md5sum_args_fits:
  assumes v: "valid_md5sum_args x"
  shows "enc_agree 3200 (encode_md5sum_args x) (enc_md5sum_args x)"
    and "enc_fits 1 3200 (enc_md5sum_args x)"
proof -
  have n: "length (msa_offset x) \<le> 256" "length (msa_length x) = length (msa_offset x)"
      "length (msa_offset x) = unat (msa_count x)" and cap: "valid_zfs_cap (msa_cap x)"
    using v md5_chunks [of "msa_count x"] by (simp_all add: valid_md5sum_args_def)
  have t: "take (unat (msa_count x)) (msa_offset x) = msa_offset x"
      "take (unat (msa_count x)) (msa_length x) = msa_length x"
    using n by simp_all
  let ?n = "length (msa_offset x)"
  have a: "enc_agree (64 + (8 + (1 + ((?n * 8 + 8) + (length (msa_length x) * 4 + 4)))))
      (encode_md5sum_args x) (enc_md5sum_args x)"
    unfolding encode_md5sum_args_def enc_md5sum_args_def
    unfolding t using cap
    by (intro enc_agree_seq enc_agree_array fits_rules array_fits) (simp_all add: md5_fits enc_agree_refl del: One_nat_def)
  have f: "enc_fits 1 (64 + (8 + (1 + ((?n * 8 + 8) + (length (msa_length x) * 4 + 4)))))
      (enc_md5sum_args x)"
    unfolding enc_md5sum_args_def using cap by (intro fits_rules array_fits) (simp_all add: md5_fits del: One_nat_def)
  show "enc_agree 3200 (encode_md5sum_args x) (enc_md5sum_args x)"
    using a n by (simp add: enc_agree_def)
  show "enc_fits 1 3200 (enc_md5sum_args x)"
    using f n by (elim enc_fits_mono) simp
qed

lemma md5sum_res_fits:
  assumes v: "valid_md5sum_res x"
  shows "enc_agree 7240 (encode_md5sum_res x) (enc_md5sum_res x)"
    and "enc_fits 1 7240 (enc_md5sum_res x)"
proof -
  have n: "length (msr_offset x) \<le> 256" "length (msr_length x) = length (msr_offset x)"
      "length (msr_offset x) = unat (msr_count x)" "length (msr_md5sum x) = unat (msr_count x)"
      and md5: "\<And>m. m \<in> set (msr_md5sum x) \<Longrightarrow> length m = unat MD5_SIZE"
    using v md5_chunks [of "msr_count x"] by (simp_all add: valid_md5sum_res_def)
  have t: "take (unat (msr_count x)) (msr_offset x) = msr_offset x"
      "take (unat (msr_count x)) (msr_length x) = msr_length x"
      "take (unat (msr_count x)) (msr_md5sum x) = msr_md5sum x"
    using n by simp_all
  let ?n = "length (msr_offset x)"
  let ?m = "8 + (16 + (16 + ((?n * 8 + 8) + ((length (msr_length x) * 4 + 4)
      + (length (msr_md5sum x) * 16 + 1)))))"
  have a: "enc_agree ?m (encode_md5sum_res x) (enc_md5sum_res x)"
    unfolding encode_md5sum_res_def enc_md5sum_res_def
    unfolding t using md5
    by (intro enc_agree_seq enc_agree_array fits_rules array_fits) (simp_all add: md5_fits enc_agree_refl del: One_nat_def)
  have f: "enc_fits 1 ?m (enc_md5sum_res x)"
    unfolding enc_md5sum_res_def using md5 by (intro fits_rules array_fits) (simp_all add: md5_fits del: One_nat_def)
  show "enc_agree 7240 (encode_md5sum_res x) (enc_md5sum_res x)"
    using a n by (simp add: enc_agree_def)
  show "enc_fits 1 7240 (enc_md5sum_res x)"
    using f n by (elim enc_fits_mono) simp
qed

end
