(* ===== verification/Zfs_Calls.thy ===== *)
theory Zfs_Calls
  imports Message_Size
begin

text \<open>
  The remote procedures of \<^verbatim>\<open>zfs-protocol/zfs-prot.def\<close> and the packets of the requests, from the client
  stubs that the macro \<^verbatim>\<open>DEFINE_ZFS_PROC\<close> generates in \<^verbatim>\<open>zfs-protocol/zfs-prot.c\<close>. A call is a value
  of the datatype \<open>zfs_call\<close>: one constructor per procedure, with the arguments of the procedure,
  like the union \<^verbatim>\<open>request_args\<close>.

  The theorems show that every valid request is encoded, and that the decoders of the server read
  the same request from the bytes of the packet.
\<close>

section \<open>Authentication levels\<close>

datatype authentication_status =
  AUTHENTICATION_NONE | AUTHENTICATION_Q1 | AUTHENTICATION_STAGE_1 | AUTHENTICATION_Q3
| AUTHENTICATION_FINISHED

primrec auth_num :: "authentication_status \<Rightarrow> nat" where
  "auth_num AUTHENTICATION_NONE = 0"
| "auth_num AUTHENTICATION_Q1 = 1"
| "auth_num AUTHENTICATION_STAGE_1 = 2"
| "auth_num AUTHENTICATION_Q3 = 3"
| "auth_num AUTHENTICATION_FINISHED = 4"

lemma auth_num_inject: "auth_num a = auth_num b \<longleftrightarrow> a = b"
  by (cases a; cases b; simp)

instantiation authentication_status :: linorder
begin

definition less_eq_authentication_status :: "authentication_status \<Rightarrow> authentication_status \<Rightarrow> bool" where
  "less_eq_authentication_status a b \<longleftrightarrow> auth_num a \<le> auth_num b"

definition less_authentication_status :: "authentication_status \<Rightarrow> authentication_status \<Rightarrow> bool" where
  "less_authentication_status a b \<longleftrightarrow> auth_num a < auth_num b"

instance
  by standard
    (auto simp: less_eq_authentication_status_def less_authentication_status_def auth_num_inject)

end


section \<open>Procedures\<close>

datatype zfs_call =
  ZFS_PROC_NULL
| ZFS_PROC_PING data_buffer
| ZFS_PROC_ROOT
| ZFS_PROC_VOLUME_ROOT volume_root_args
| ZFS_PROC_GETATTR zfs_fh
| ZFS_PROC_SETATTR setattr_args
| ZFS_PROC_LOOKUP dir_op_args
| ZFS_PROC_CREATE create_args
| ZFS_PROC_OPEN open_args
| ZFS_PROC_CLOSE zfs_cap
| ZFS_PROC_READDIR read_dir_args
| ZFS_PROC_MKDIR mkdir_args
| ZFS_PROC_RMDIR dir_op_args
| ZFS_PROC_RENAME rename_args
| ZFS_PROC_LINK link_args
| ZFS_PROC_UNLINK dir_op_args
| ZFS_PROC_READ read_args
| ZFS_PROC_WRITE write_args
| ZFS_PROC_READLINK zfs_fh
| ZFS_PROC_SYMLINK symlink_args
| ZFS_PROC_MKNOD mknod_args
| ZFS_PROC_AUTH_STAGE1 auth_stage1_args
| ZFS_PROC_AUTH_STAGE2 auth_stage2_args
| ZFS_PROC_MD5SUM md5sum_args
| ZFS_PROC_FILE_INFO zfs_fh
| ZFS_PROC_REREAD_CONFIG reread_config_args
| ZFS_PROC_REINTEGRATE reintegrate_args
| ZFS_PROC_REINTEGRATE_ADD reintegrate_add_args
| ZFS_PROC_REINTEGRATE_DEL reintegrate_del_args
| ZFS_PROC_REINTEGRATE_SET reintegrate_ver_args

primrec call_number :: "zfs_call \<Rightarrow> u32" where
  "call_number ZFS_PROC_NULL = 0"
| "call_number (ZFS_PROC_PING x) = 1"
| "call_number ZFS_PROC_ROOT = 2"
| "call_number (ZFS_PROC_VOLUME_ROOT x) = 3"
| "call_number (ZFS_PROC_GETATTR x) = 4"
| "call_number (ZFS_PROC_SETATTR x) = 5"
| "call_number (ZFS_PROC_LOOKUP x) = 6"
| "call_number (ZFS_PROC_CREATE x) = 7"
| "call_number (ZFS_PROC_OPEN x) = 8"
| "call_number (ZFS_PROC_CLOSE x) = 9"
| "call_number (ZFS_PROC_READDIR x) = 10"
| "call_number (ZFS_PROC_MKDIR x) = 11"
| "call_number (ZFS_PROC_RMDIR x) = 12"
| "call_number (ZFS_PROC_RENAME x) = 13"
| "call_number (ZFS_PROC_LINK x) = 14"
| "call_number (ZFS_PROC_UNLINK x) = 15"
| "call_number (ZFS_PROC_READ x) = 16"
| "call_number (ZFS_PROC_WRITE x) = 17"
| "call_number (ZFS_PROC_READLINK x) = 18"
| "call_number (ZFS_PROC_SYMLINK x) = 19"
| "call_number (ZFS_PROC_MKNOD x) = 20"
| "call_number (ZFS_PROC_AUTH_STAGE1 x) = 21"
| "call_number (ZFS_PROC_AUTH_STAGE2 x) = 22"
| "call_number (ZFS_PROC_MD5SUM x) = 23"
| "call_number (ZFS_PROC_FILE_INFO x) = 24"
| "call_number (ZFS_PROC_REREAD_CONFIG x) = 25"
| "call_number (ZFS_PROC_REINTEGRATE x) = 26"
| "call_number (ZFS_PROC_REINTEGRATE_ADD x) = 27"
| "call_number (ZFS_PROC_REINTEGRATE_DEL x) = 28"
| "call_number (ZFS_PROC_REINTEGRATE_SET x) = 29"

primrec encode_args :: "zfs_call \<Rightarrow> encoder" where
  "encode_args ZFS_PROC_NULL = encode_void ()"
| "encode_args (ZFS_PROC_PING x) = encode_data_buffer x"
| "encode_args ZFS_PROC_ROOT = encode_void ()"
| "encode_args (ZFS_PROC_VOLUME_ROOT x) = encode_volume_root_args x"
| "encode_args (ZFS_PROC_GETATTR x) = encode_zfs_fh x"
| "encode_args (ZFS_PROC_SETATTR x) = encode_setattr_args x"
| "encode_args (ZFS_PROC_LOOKUP x) = encode_dir_op_args x"
| "encode_args (ZFS_PROC_CREATE x) = encode_create_args x"
| "encode_args (ZFS_PROC_OPEN x) = encode_open_args x"
| "encode_args (ZFS_PROC_CLOSE x) = encode_zfs_cap x"
| "encode_args (ZFS_PROC_READDIR x) = encode_read_dir_args x"
| "encode_args (ZFS_PROC_MKDIR x) = encode_mkdir_args x"
| "encode_args (ZFS_PROC_RMDIR x) = encode_dir_op_args x"
| "encode_args (ZFS_PROC_RENAME x) = encode_rename_args x"
| "encode_args (ZFS_PROC_LINK x) = encode_link_args x"
| "encode_args (ZFS_PROC_UNLINK x) = encode_dir_op_args x"
| "encode_args (ZFS_PROC_READ x) = encode_read_args x"
| "encode_args (ZFS_PROC_WRITE x) = encode_write_args x"
| "encode_args (ZFS_PROC_READLINK x) = encode_zfs_fh x"
| "encode_args (ZFS_PROC_SYMLINK x) = encode_symlink_args x"
| "encode_args (ZFS_PROC_MKNOD x) = encode_mknod_args x"
| "encode_args (ZFS_PROC_AUTH_STAGE1 x) = encode_auth_stage1_args x"
| "encode_args (ZFS_PROC_AUTH_STAGE2 x) = encode_auth_stage2_args x"
| "encode_args (ZFS_PROC_MD5SUM x) = encode_md5sum_args x"
| "encode_args (ZFS_PROC_FILE_INFO x) = encode_zfs_fh x"
| "encode_args (ZFS_PROC_REREAD_CONFIG x) = encode_reread_config_args x"
| "encode_args (ZFS_PROC_REINTEGRATE x) = encode_reintegrate_args x"
| "encode_args (ZFS_PROC_REINTEGRATE_ADD x) = encode_reintegrate_add_args x"
| "encode_args (ZFS_PROC_REINTEGRATE_DEL x) = encode_reintegrate_del_args x"
| "encode_args (ZFS_PROC_REINTEGRATE_SET x) = encode_reintegrate_ver_args x"

text \<open>
  A row of the table is the number, the authentication level that is needed, the direction and the
  decoder of the arguments.
\<close>

record zfs_proc =
  proc_auth :: authentication_status
  proc_mode :: direction
  proc_decode :: "zfs_call decoder"

definition dec_map :: "('a \<Rightarrow> 'b) \<Rightarrow> 'a decoder \<Rightarrow> 'b decoder" where
  "dec_map f g = dec_bind g (\<lambda>x. dec_return (f x))"

definition zfs_procs :: "(u32 \<times> zfs_proc) list" where
  "zfs_procs = [
    (0, \<lparr>proc_auth = AUTHENTICATION_NONE, proc_mode = DIR_REQUEST, proc_decode = dec_map (\<lambda>_. ZFS_PROC_NULL) decode_void\<rparr>),
    (1, \<lparr>proc_auth = AUTHENTICATION_STAGE_1, proc_mode = DIR_REQUEST, proc_decode = dec_map ZFS_PROC_PING decode_data_buffer\<rparr>),
    (2, \<lparr>proc_auth = AUTHENTICATION_FINISHED, proc_mode = DIR_REQUEST, proc_decode = dec_map (\<lambda>_. ZFS_PROC_ROOT) decode_void\<rparr>),
    (3, \<lparr>proc_auth = AUTHENTICATION_FINISHED, proc_mode = DIR_REQUEST, proc_decode = dec_map ZFS_PROC_VOLUME_ROOT decode_volume_root_args\<rparr>),
    (4, \<lparr>proc_auth = AUTHENTICATION_FINISHED, proc_mode = DIR_REQUEST, proc_decode = dec_map ZFS_PROC_GETATTR decode_zfs_fh\<rparr>),
    (5, \<lparr>proc_auth = AUTHENTICATION_FINISHED, proc_mode = DIR_REQUEST, proc_decode = dec_map ZFS_PROC_SETATTR decode_setattr_args\<rparr>),
    (6, \<lparr>proc_auth = AUTHENTICATION_FINISHED, proc_mode = DIR_REQUEST, proc_decode = dec_map ZFS_PROC_LOOKUP decode_dir_op_args\<rparr>),
    (7, \<lparr>proc_auth = AUTHENTICATION_FINISHED, proc_mode = DIR_REQUEST, proc_decode = dec_map ZFS_PROC_CREATE decode_create_args\<rparr>),
    (8, \<lparr>proc_auth = AUTHENTICATION_FINISHED, proc_mode = DIR_REQUEST, proc_decode = dec_map ZFS_PROC_OPEN decode_open_args\<rparr>),
    (9, \<lparr>proc_auth = AUTHENTICATION_FINISHED, proc_mode = DIR_REQUEST, proc_decode = dec_map ZFS_PROC_CLOSE decode_zfs_cap\<rparr>),
    (10, \<lparr>proc_auth = AUTHENTICATION_FINISHED, proc_mode = DIR_REQUEST, proc_decode = dec_map ZFS_PROC_READDIR decode_read_dir_args\<rparr>),
    (11, \<lparr>proc_auth = AUTHENTICATION_FINISHED, proc_mode = DIR_REQUEST, proc_decode = dec_map ZFS_PROC_MKDIR decode_mkdir_args\<rparr>),
    (12, \<lparr>proc_auth = AUTHENTICATION_FINISHED, proc_mode = DIR_REQUEST, proc_decode = dec_map ZFS_PROC_RMDIR decode_dir_op_args\<rparr>),
    (13, \<lparr>proc_auth = AUTHENTICATION_FINISHED, proc_mode = DIR_REQUEST, proc_decode = dec_map ZFS_PROC_RENAME decode_rename_args\<rparr>),
    (14, \<lparr>proc_auth = AUTHENTICATION_FINISHED, proc_mode = DIR_REQUEST, proc_decode = dec_map ZFS_PROC_LINK decode_link_args\<rparr>),
    (15, \<lparr>proc_auth = AUTHENTICATION_FINISHED, proc_mode = DIR_REQUEST, proc_decode = dec_map ZFS_PROC_UNLINK decode_dir_op_args\<rparr>),
    (16, \<lparr>proc_auth = AUTHENTICATION_FINISHED, proc_mode = DIR_REQUEST, proc_decode = dec_map ZFS_PROC_READ decode_read_args\<rparr>),
    (17, \<lparr>proc_auth = AUTHENTICATION_FINISHED, proc_mode = DIR_REQUEST, proc_decode = dec_map ZFS_PROC_WRITE decode_write_args\<rparr>),
    (18, \<lparr>proc_auth = AUTHENTICATION_FINISHED, proc_mode = DIR_REQUEST, proc_decode = dec_map ZFS_PROC_READLINK decode_zfs_fh\<rparr>),
    (19, \<lparr>proc_auth = AUTHENTICATION_FINISHED, proc_mode = DIR_REQUEST, proc_decode = dec_map ZFS_PROC_SYMLINK decode_symlink_args\<rparr>),
    (20, \<lparr>proc_auth = AUTHENTICATION_FINISHED, proc_mode = DIR_REQUEST, proc_decode = dec_map ZFS_PROC_MKNOD decode_mknod_args\<rparr>),
    (21, \<lparr>proc_auth = AUTHENTICATION_NONE, proc_mode = DIR_REQUEST, proc_decode = dec_map ZFS_PROC_AUTH_STAGE1 decode_auth_stage1_args\<rparr>),
    (22, \<lparr>proc_auth = AUTHENTICATION_STAGE_1, proc_mode = DIR_REQUEST, proc_decode = dec_map ZFS_PROC_AUTH_STAGE2 decode_auth_stage2_args\<rparr>),
    (23, \<lparr>proc_auth = AUTHENTICATION_FINISHED, proc_mode = DIR_REQUEST, proc_decode = dec_map ZFS_PROC_MD5SUM decode_md5sum_args\<rparr>),
    (24, \<lparr>proc_auth = AUTHENTICATION_FINISHED, proc_mode = DIR_REQUEST, proc_decode = dec_map ZFS_PROC_FILE_INFO decode_zfs_fh\<rparr>),
    (25, \<lparr>proc_auth = AUTHENTICATION_FINISHED, proc_mode = DIR_ONEWAY, proc_decode = dec_map ZFS_PROC_REREAD_CONFIG decode_reread_config_args\<rparr>),
    (26, \<lparr>proc_auth = AUTHENTICATION_FINISHED, proc_mode = DIR_REQUEST, proc_decode = dec_map ZFS_PROC_REINTEGRATE decode_reintegrate_args\<rparr>),
    (27, \<lparr>proc_auth = AUTHENTICATION_FINISHED, proc_mode = DIR_REQUEST, proc_decode = dec_map ZFS_PROC_REINTEGRATE_ADD decode_reintegrate_add_args\<rparr>),
    (28, \<lparr>proc_auth = AUTHENTICATION_FINISHED, proc_mode = DIR_REQUEST, proc_decode = dec_map ZFS_PROC_REINTEGRATE_DEL decode_reintegrate_del_args\<rparr>),
    (29, \<lparr>proc_auth = AUTHENTICATION_FINISHED, proc_mode = DIR_REQUEST, proc_decode = dec_map ZFS_PROC_REINTEGRATE_SET decode_reintegrate_ver_args\<rparr>)]"

definition find_proc :: "u32 \<Rightarrow> zfs_proc option" where
  "find_proc fn = map_of zfs_procs fn"

definition call_proc :: "zfs_call \<Rightarrow> zfs_proc" where
  "call_proc c = the (find_proc (call_number c))"


section \<open>Requests\<close>

text \<open>
  A client stub builds the packet in the buffer of its thread and returns an error when the
  arguments do not fit; otherwise the packet is the first \<^verbatim>\<open>cur_length\<close> bytes of the buffer.
\<close>

definition client_1 :: "u32 \<Rightarrow> zfs_call \<Rightarrow> dc \<Rightarrow> u32 \<times> dc" where
  "client_1 req_id c d =
     (let d = start_encoding d;
          d = snd (encode_direction (proc_mode (call_proc c)) d);
          d = snd (encode_request_id req_id d);
          d = snd (encode_function (call_number c) d)
      in case encode_args c d of
           (False, d) \<Rightarrow> (ZFS_REQUEST_TOO_LONG, d)
         | (True, d) \<Rightarrow> (ZFS_OK, snd (finish_encoding d)))"

definition packet :: "dc \<Rightarrow> u8 list" where
  "packet d = take (unat (cur_length d)) (buffer d)"

definition decode_request :: "(direction \<times> u32 \<times> zfs_call) decoder" where
  "decode_request =
     dec_bind decode_direction (\<lambda>dir.
     dec_bind decode_request_id (\<lambda>req_id.
     dec_bind decode_function (\<lambda>fn.
     case find_proc fn of
       None \<Rightarrow> dec_fail
     | Some p \<Rightarrow> dec_bind (proc_decode p) (\<lambda>c. dec_return (dir, req_id, c)))))"


section \<open>Valid calls\<close>

primrec valid_call :: "zfs_call \<Rightarrow> bool" where
  "valid_call ZFS_PROC_NULL = True"
| "valid_call (ZFS_PROC_PING x) = valid_data_buffer x"
| "valid_call ZFS_PROC_ROOT = True"
| "valid_call (ZFS_PROC_VOLUME_ROOT x) = True"
| "valid_call (ZFS_PROC_GETATTR x) = True"
| "valid_call (ZFS_PROC_SETATTR x) = True"
| "valid_call (ZFS_PROC_LOOKUP x) = valid_dir_op_args x"
| "valid_call (ZFS_PROC_CREATE x) = valid_create_args x"
| "valid_call (ZFS_PROC_OPEN x) = True"
| "valid_call (ZFS_PROC_CLOSE x) = valid_zfs_cap x"
| "valid_call (ZFS_PROC_READDIR x) = valid_read_dir_args x"
| "valid_call (ZFS_PROC_MKDIR x) = valid_mkdir_args x"
| "valid_call (ZFS_PROC_RMDIR x) = valid_dir_op_args x"
| "valid_call (ZFS_PROC_RENAME x) = valid_rename_args x"
| "valid_call (ZFS_PROC_LINK x) = valid_link_args x"
| "valid_call (ZFS_PROC_UNLINK x) = valid_dir_op_args x"
| "valid_call (ZFS_PROC_READ x) = valid_read_args x"
| "valid_call (ZFS_PROC_WRITE x) = valid_write_args x"
| "valid_call (ZFS_PROC_READLINK x) = True"
| "valid_call (ZFS_PROC_SYMLINK x) = valid_symlink_args x"
| "valid_call (ZFS_PROC_MKNOD x) = valid_mknod_args x"
| "valid_call (ZFS_PROC_AUTH_STAGE1 x) = valid_auth_stage1_args x"
| "valid_call (ZFS_PROC_AUTH_STAGE2 x) = True"
| "valid_call (ZFS_PROC_MD5SUM x) = valid_md5sum_args x"
| "valid_call (ZFS_PROC_FILE_INFO x) = True"
| "valid_call (ZFS_PROC_REREAD_CONFIG x) = valid_reread_config_args x"
| "valid_call (ZFS_PROC_REINTEGRATE x) = True"
| "valid_call (ZFS_PROC_REINTEGRATE_ADD x) = valid_reintegrate_add_args x"
| "valid_call (ZFS_PROC_REINTEGRATE_DEL x) = valid_reintegrate_del_args x"
| "valid_call (ZFS_PROC_REINTEGRATE_SET x) = True"

text \<open>The arguments with every result of a coder checked.\<close>

definition enc_args :: "zfs_call \<Rightarrow> encoder" where
  "enc_args c = (case c of ZFS_PROC_MD5SUM x \<Rightarrow> enc_md5sum_args x | _ \<Rightarrow> encode_args c)"

lemma find_proc_call:
  "find_proc (call_number c) = Some (call_proc c)"
  by (cases c) (simp_all add: find_proc_def zfs_procs_def call_proc_def)

lemma roundtrips_dec_map: "roundtrips e g x \<Longrightarrow> roundtrips e (dec_map f g) (f x)"
  unfolding dec_map_def by (rule roundtrips_last) simp_all

lemma roundtrips_void: "roundtrips (encode_void ()) (dec_map (\<lambda>_. c) decode_void) c"
  using roundtrips_dec_map [OF void.enc_dec, of "()" "\<lambda>_. c"] by simp

lemma roundtrips_call:
  assumes "valid_call c"
  shows "roundtrips (enc_args c) (proc_decode (call_proc c)) c"
  using assms
  by (cases c)
    (simp_all add: enc_args_def call_proc_def find_proc_def zfs_procs_def codec_rules data.enc_dec
      md5sum_args.enc_dec roundtrips_dec_map roundtrips_void)

lemma safe_encoder_args: "valid_call c \<Longrightarrow> safe_encoder (enc_args c)"
  by (cases c) (simp_all add: enc_args_def codec_rules data.enc_safe md5sum_args.enc_safe)

lemma safe_decoder_dec_map: "safe_decoder P g \<Longrightarrow> (\<And>x. P x \<Longrightarrow> Q (f x)) \<Longrightarrow> safe_decoder Q (dec_map f g)"
  unfolding dec_map_def by (erule safe_decoder_bind) (simp add: safe_decoder_return)

lemma safe_decoder_procs:
  "list_all (\<lambda>(fn, p). safe_decoder valid_call (proc_decode p)) zfs_procs"
  unfolding zfs_procs_def list_all_iff list.set ball_simps prod.case zfs_proc.select_convs
  by (intro conjI TrueI; (rule safe_decoder_dec_map, rule codec_rules md5sum_args.dec_safe, simp))

lemma safe_decoder_call: "find_proc fn = Some p \<Longrightarrow> safe_decoder valid_call (proc_decode p)"
  using safe_decoder_procs by (auto simp: find_proc_def list_all_iff dest: map_of_SomeD)

lemma enc_fits_args:
  assumes "valid_call c"
  shows "enc_fits 1 8280 (enc_args c)"
  by (insert assms, cases c; simp only: enc_args_def zfs_call.case encode_args.simps valid_call.simps;
      (rule enc_fits_mono, rule fits_rules md5sum_args_fits(2), (assumption | simp)+))

lemma enc_agree_args: "valid_call c \<Longrightarrow> enc_agree 8280 (encode_args c) (enc_args c)"
  using md5sum_args_fits(1) by (cases c) (simp_all add: enc_args_def enc_agree_def)

definition enc_request :: "direction \<times> u32 \<times> zfs_call \<Rightarrow> encoder" where
  "enc_request r =
     (case r of (dir, req_id, c) \<Rightarrow>
        enc_and (encode_direction dir)
        (enc_and (encode_request_id req_id)
        (enc_and (encode_function (call_number c)) (enc_args c))))"

lemma decode_known:
  "find_proc fn = Some p \<Longrightarrow> safe_decoder (\<lambda>(dir, req_id, c). valid_call c)
     (dec_bind (proc_decode p) (\<lambda>c. dec_return (dir, req_id, c)))"
  by (rule safe_decoder_bind [OF safe_decoder_call]) (simp_all add: safe_decoder_return)

interpretation request: codec enc_request decode_request "\<lambda>(dir, req_id, c). valid_call c"
proof
  fix x :: "direction \<times> u32 \<times> zfs_call" assume "case x of (dir, req_id, c) \<Rightarrow> valid_call c"
  then obtain dir req_id c where x: "x = (dir, req_id, c)" and v: "valid_call c" by (cases x) auto
  show "roundtrips (enc_request x) decode_request x"
    unfolding x enc_request_def decode_request_def prod.case
    by (rule codec_rules TrueI)+ (simp add: find_proc_call, rule roundtrips_last [OF roundtrips_call [OF v]], simp)
  show "safe_encoder (enc_request x)"
    unfolding x enc_request_def prod.case by (rule codec_rules TrueI safe_encoder_args [OF v])+
next
  show "safe_decoder (\<lambda>(dir, req_id, c). valid_call c) decode_request"
    unfolding decode_request_def
    by (rule codec_rules)+ (simp split: option.split add: safe_decoder_fail decode_known)
qed

lemma enc_step:
  assumes "enc_fits 1 n e" "dc_wf d" "max_length d = ZFS_DC_SIZE" "unat (cur_length d) \<le> m" "m + n \<le> 8888"
  shows "\<exists>d'. e d = (True, d') \<and> dc_wf d' \<and> max_length d' = ZFS_DC_SIZE \<and> unat (cur_length d') \<le> m + n"
proof -
  have "round_up 1 (unat (cur_length d)) + n \<le> unat (max_length d)" using assms by simp
  then obtain d' where "e d = (True, d')" "dc_wf d'" "max_length d' = max_length d"
      "unat (cur_length d') \<le> round_up 1 (unat (cur_length d)) + n"
    by (rule enc_fitsD [OF assms(1,2)])
  then show ?thesis using assms(3,4) by simp
qed

text \<open>The stub builds the packet that the checked encoder builds.\<close>

lemma client_1_eq:
  assumes v: "valid_call c" and d: "dc_raw d"
  obtains d1 where "enc_request (proc_mode (call_proc c), req_id, c) (start_encoding d) = (True, d1)"
    and "client_1 req_id c d = (ZFS_OK, snd (finish_encoding d1))"
proof -
  let ?m = "proc_mode (call_proc c)"
  note s = start_encoding_wf [OF d]
  have f: "enc_fits 1 1 (encode_direction ?m)" "enc_fits 1 8 (encode_request_id req_id)"
      "enc_fits 1 8 (encode_function (call_number c))"
    unfolding fits_unfold by (rule fits_rules)+
  obtain e1 where e1: "encode_direction ?m (start_encoding d) = (True, e1)" "dc_wf e1"
      "max_length e1 = ZFS_DC_SIZE" "unat (cur_length e1) \<le> 5"
    using enc_step [OF f(1) s(1,3), of 4] s(2) by auto
  obtain e2 where e2: "encode_request_id req_id e1 = (True, e2)" "dc_wf e2"
      "max_length e2 = ZFS_DC_SIZE" "unat (cur_length e2) \<le> 13"
    using enc_step [OF f(2) e1(2-4)] by auto
  obtain e3 where e3: "encode_function (call_number c) e2 = (True, e3)" "dc_wf e3"
      "max_length e3 = ZFS_DC_SIZE" "unat (cur_length e3) \<le> 21"
    using enc_step [OF f(3) e2(2-4)] by auto
  obtain e4 where e4: "enc_args c e3 = (True, e4)"
    using enc_step [OF enc_fits_args [OF v] e3(2-4)] by auto
  moreover have "encode_args c e3 = enc_args c e3"
    using enc_agree_args [OF v] e3 by (simp add: enc_agree_def)
  ultimately show thesis
    using e1(1) e2(1) e3(1)
    by (intro that [of e4]) (simp_all add: enc_request_def enc_and_def client_1_def)
qed

lemma packet_finish:
  assumes "dc_wf d"
  shows "unat (cur_length (snd (finish_encoding d))) = length (packet (snd (finish_encoding d)))"
  using assms
  by (simp add: packet_def finish_encoding_def dc_store_def dc_wf_def length_blit word_le_nat_alt)

text \<open>
  A client stub never fails on a valid call: the packet always fits. Whatever buffer the server
  has received the packet into, decoding it gives the direction, the request number and the call
  that were sent, and the packet ends where its length says.
\<close>

lemma client_request:
  assumes v: "valid_call c" and d: "dc_raw d"
  shows "\<exists>d'. client_1 req_id c d = (ZFS_OK, d') \<and>
    (\<forall>r. dc_raw r \<and> take (length (packet d')) (buffer r) = packet d' \<longrightarrow>
      (\<exists>r1 r2. start_decoding r = (True, r1)
        \<and> decode_request r1 = (Some (proc_mode (call_proc c), req_id, c), r2) \<and> finish_decoding r2))"
proof -
  let ?q = "(proc_mode (call_proc c), req_id, c)"
  obtain d1 where e: "enc_request ?q (start_encoding d) = (True, d1)"
    and cl: "client_1 req_id c d = (ZFS_OK, snd (finish_encoding d1))"
    using client_1_eq [OF v d] .
  obtain n d2 where fin: "finish_encoding d1 = (n, d2)" by (cases "finish_encoding d1")
  have vq: "(\<lambda>(dir, req_id, c). valid_call c) ?q" using v by simp
  have wf: "dc_wf d1"
    using roundtripsD(1) [OF request.enc_dec [OF vq] start_encoding_wf(1) [OF d] e] by (simp add: dc_ext_def)
  have n: "unat n = length (packet d2)" "packet d2 = take (unat n) (buffer d2)"
    using packet_finish [OF wf] fin wf
    by (auto simp: finish_encoding_def packet_def dc_store_def dc_wf_def)
  have "\<exists>r1 r2. start_decoding r = (True, r1) \<and> decode_request r1 = (Some ?q, r2) \<and> finish_decoding r2"
    if "dc_raw r" "take (length (packet d2)) (buffer r) = packet d2" for r
  proof -
    have "take (unat n) (buffer r) = take (unat n) (buffer d2)"
      using that(2) unfolding n(1) [symmetric] n(2) [symmetric] .
    then show ?thesis
      using request.packet_roundtrip [OF vq d that(1) e fin] by blast
  qed
  then show ?thesis
    using cl fin by auto
qed

definition sample_fh :: zfs_fh where
  "sample_fh = \<lparr>fh_sid = 1, fh_vid = 2, fh_dev = 3, fh_ino = 4, fh_gen = 5\<rparr>"

definition sample_dc :: dc where
  "sample_dc = dc_create (replicate 8888 0) 0 0 0"

lemma dc_raw_sample: "dc_raw sample_dc"
  by (simp add: sample_dc_def dc_raw_def dc_create_def)

lemma dec_bind_Some:
  "dec_bind f g d = (Some y, d') \<longleftrightarrow> (\<exists>x d1. f d = (Some x, d1) \<and> g x d1 = (Some y, d'))"
  by (auto simp: dec_bind_def split: prod.splits option.splits)

lemma decode_request_Some:
  assumes "decode_request d = (Some (dir, req_id, c), d')"
  obtains d1 d2 d3 fn p where "decode_direction d = (Some dir, d1)" "decode_request_id d1 = (Some req_id, d2)"
    "decode_function d2 = (Some fn, d3)" "find_proc fn = Some p" "proc_decode p d3 = (Some c, d')"
  using assms by (auto simp: decode_request_def dec_bind_Some dec_return_def dec_fail_def split: option.splits)

lemma procs_number:
  "list_all (\<lambda>(fn, p). \<forall>d c d'. proc_decode p d = (Some c, d') \<longrightarrow> call_number c = fn) zfs_procs"
  unfolding zfs_procs_def list_all_iff list.set ball_simps prod.case zfs_proc.select_convs
  by (intro conjI allI impI TrueI; (unfold dec_map_def, elim dec_bind_Some [THEN iffD1, THEN exE] exE conjE,
      simp add: dec_return_def; (elim conjE)?; hypsubst; simp))

lemma proc_decode_number:
  "find_proc fn = Some p \<Longrightarrow> proc_decode p d = (Some c, d') \<Longrightarrow> call_number c = fn"
  using procs_number by (fastforce simp: find_proc_def list_all_iff dest!: map_of_SomeD)

lemma proc_decode_call: "find_proc fn = Some p \<Longrightarrow> proc_decode p d = (Some c, d') \<Longrightarrow> p = call_proc c"
  using find_proc_call [of c] proc_decode_number [of fn p d c d'] by simp

lemma call_mode: "proc_mode (call_proc c) = DIR_REQUEST \<or> proc_mode (call_proc c) = DIR_ONEWAY"
  by (cases c) (simp_all add: call_proc_def find_proc_def zfs_procs_def)

end
