(* ===== verification/Network.thy ===== *)
theory Network
  imports Zfs_Calls
begin

text \<open>
  The connections of \<^verbatim>\<open>network/network.c\<close>: the data of a file descriptor, the receiver in the main network
  thread that assembles packets from what \<^verbatim>\<open>read\<close> returns, the dispatcher and the worker that checks a
  request, calls the procedure and sends the reply.

  The mutexes, the thread pool and the times of last use are not part of the model: one step is
  what the code does while it holds the lock of the file descriptor. Waking a thread or handing it
  a packet is an event of the step. The hash table \<^verbatim>\<open>waiting4reply\<close> is a list of pairs of a request
  number and a thread. The ghost field \<open>fd_fault\<close> is set when the static array \<^verbatim>\<open>dummy\<close> of
  \<^verbatim>\<open>ZFS_MAXDATA\<close> bytes is overrun.

  The arguments that a request carries are values of the model. In C the strings and data point
  into the buffer of the request, which the worker then reuses for the reply.
\<close>

section \<open>File descriptors\<close>

datatype connection_status =
  CONNECTION_NONE | CONNECTION_CONNECTING | CONNECTION_ACTIVE | CONNECTION_PASSIVE
| CONNECTION_ESTABLISHED

record fd_data =
  fd_fd :: int
  fd_read :: u32
  fd_dc :: "dc list"
  fd_generation :: u32
  fd_conn :: connection_status
  fd_speed :: connection_speed
  fd_auth :: authentication_status
  fd_sid :: u32
  fd_busy :: u32
  fd_close :: bool
  fd_waiting4reply :: "(u32 \<times> nat) list"
  fd_fault :: bool

definition MAX_FREE_DCS :: nat where "MAX_FREE_DCS = 8"
definition ZFS_CONNECTION_CLOSED :: u32 where "ZFS_CONNECTION_CLOSED = - 154"

datatype net_event =
  Wake nat "u32 option" "dc option"
| Job direction u32 u32 dc

definition init_fd_data :: "int \<Rightarrow> dc \<Rightarrow> fd_data \<Rightarrow> fd_data" where
  "init_fd_data fd new_dc f =
     f\<lparr>fd_fd := fd, fd_read := 0,
       fd_dc := (if fd_dc f = [] then [new_dc] else fd_dc f),
       fd_generation := fd_generation f + 1, fd_busy := 0, fd_close := False,
       fd_waiting4reply := []\<rparr>"

definition wake_all_threads :: "u32 \<Rightarrow> fd_data \<Rightarrow> fd_data \<times> net_event list" where
  "wake_all_threads retval f =
     (f\<lparr>fd_waiting4reply := []\<rparr>, map (\<lambda>(_, t). Wake t (Some retval) None) (fd_waiting4reply f))"

definition close_network_fd :: "fd_data \<Rightarrow> fd_data" where
  "close_network_fd f = (if fd_close f then f else f\<lparr>fd_close := True\<rparr>)"

definition close_active_fd :: "fd_data \<Rightarrow> fd_data \<times> net_event list" where
  "close_active_fd f =
     (let (f, ev) = wake_all_threads ZFS_CONNECTION_CLOSED f
      in (f\<lparr>fd_dc := [], fd_fd := - 1, fd_generation := fd_generation f + 1,
            fd_conn := CONNECTION_NONE, fd_speed := CONNECTION_SPEED_NONE,
            fd_auth := AUTHENTICATION_NONE, fd_sid := 0\<rparr>, ev))"

definition recycle_dc_to_fd_data :: "dc \<Rightarrow> fd_data \<Rightarrow> fd_data" where
  "recycle_dc_to_fd_data d f =
     (if fd_fd f \<ge> 0 \<and> length (fd_dc f) < MAX_FREE_DCS then f\<lparr>fd_dc := fd_dc f @ [d]\<rparr> else f)"


section \<open>Replies\<close>

text \<open>
  The state around a worker: the connection, the counters of calls, the packets written to the
  socket and the rest of the daemon. The procedures of the server are an argument \<open>serve\<close>.
\<close>

record 'st worker =
  w_fd :: fd_data
  w_stats :: "u32 \<Rightarrow> u64"
  w_sent :: "u8 list list"
  w_rest :: 'st

type_synonym 'st server = "zfs_call \<Rightarrow> dc \<Rightarrow> 'st worker \<Rightarrow> dc \<times> 'st worker"

definition send_reply :: "u32 \<Rightarrow> dc \<Rightarrow> 'st worker \<Rightarrow> 'st worker" where
  "send_reply gen d w =
     (if fd_fd (w_fd w) \<ge> 0 \<and> fd_generation (w_fd w) = gen
      then w\<lparr>w_sent := w_sent w @ [packet d]\<rparr> else w)"

definition send_error_reply :: "u32 \<Rightarrow> u32 \<Rightarrow> u32 \<Rightarrow> dc \<Rightarrow> 'st worker \<Rightarrow> dc \<times> 'st worker" where
  "send_error_reply gen request_id status d w =
     (let d = start_encoding d;
          d = snd (encode_direction DIR_REPLY d);
          d = snd (encode_request_id request_id d);
          d = snd (encode_status status d);
          d = snd (finish_encoding d)
      in (d, send_reply gen d w))"


section \<open>The worker\<close>

text \<open>What a case of the \<^verbatim>\<open>switch\<close> does once the arguments are decoded.\<close>

definition run_call ::
    "'st server \<Rightarrow> u32 \<Rightarrow> u32 \<Rightarrow> u32 \<Rightarrow> zfs_proc \<Rightarrow> zfs_call \<Rightarrow> dc \<Rightarrow> 'st worker \<Rightarrow> dc \<times> 'st worker" where
  "run_call serve gen request_id fn p c d w =
     (let w = w\<lparr>w_stats := (w_stats w)(fn := w_stats w fn + 1)\<rparr>;
          d = (if proc_mode p = DIR_REQUEST
               then snd (encode_request_id request_id (snd (encode_direction DIR_REPLY (start_encoding d))))
               else d);
          (d, w) = serve c d w
      in if proc_mode p = DIR_REQUEST
         then let d = snd (finish_encoding d) in (d, send_reply gen d w)
         else (d, w))"

text \<open>One case of the \<^verbatim>\<open>switch\<close> that the table of procedures expands to.\<close>

definition call_case ::
    "'st server \<Rightarrow> u32 \<Rightarrow> direction \<Rightarrow> u32 \<Rightarrow> u32 \<Rightarrow> zfs_proc \<Rightarrow> dc \<Rightarrow> 'st worker \<Rightarrow> dc \<times> 'st worker" where
  "call_case serve gen dir request_id fn p d w =
     (let fail = (\<lambda>status d. if proc_mode p = DIR_REQUEST then send_error_reply gen request_id status d w
                             else (d, w))
      in if dir \<noteq> proc_mode p then
           (if dir = DIR_REQUEST then send_error_reply gen request_id ZFS_INVALID_DIRECTION d w else (d, w))
         else if fd_auth (w_fd w) < proc_auth p then fail ZFS_INVALID_AUTH_LEVEL d
         else case proc_decode p d of
             (None, d) \<Rightarrow> fail ZFS_INVALID_REQUEST d
           | (Some c, d) \<Rightarrow>
               if \<not> finish_decoding d then fail ZFS_INVALID_REQUEST d
               else run_call serve gen request_id fn p c d w)"

definition worker_request ::
    "'st server \<Rightarrow> u32 \<Rightarrow> direction \<Rightarrow> dc \<Rightarrow> 'st worker \<Rightarrow> dc \<times> 'st worker" where
  "worker_request serve gen dir d w =
     (case decode_request_id d of
        (None, d) \<Rightarrow> (d, w)
      | (Some request_id, d) \<Rightarrow>
          let fail = (\<lambda>status d. if dir = DIR_REQUEST then send_error_reply gen request_id status d w
                                  else (d, w))
          in if max_length d > ZFS_DC_SIZE then fail ZFS_REQUEST_TOO_LONG d
             else case decode_function d of
                 (None, d) \<Rightarrow> fail ZFS_INVALID_REQUEST d
               | (Some fn, d) \<Rightarrow>
                   (case find_proc fn of
                      None \<Rightarrow> fail ZFS_UNKNOWN_FUNCTION d
                    | Some p \<Rightarrow> call_case serve gen dir request_id fn p d w))"

text \<open>
  One round of the loop of \<^verbatim>\<open>network_worker\<close>, without the idle queue of the thread pool.
\<close>

definition network_worker ::
    "'st server \<Rightarrow> u32 \<Rightarrow> direction \<Rightarrow> dc \<Rightarrow> 'st worker \<Rightarrow> 'st worker" where
  "network_worker serve gen dir d w =
     (let (d, w) = worker_request serve gen dir d w
      in w\<lparr>w_fd := recycle_dc_to_fd_data d ((w_fd w)\<lparr>fd_busy := fd_busy (w_fd w) - 1\<rparr>)\<rparr>)"


section \<open>Dispatching and receiving\<close>

definition network_dispatch :: "fd_data \<Rightarrow> bool \<times> fd_data \<times> net_event list" where
  "network_dispatch f =
     (let keep = (\<lambda>d. f\<lparr>fd_dc := (fd_dc f)[0 := d]\<rparr>)
      in case decode_direction (hd (fd_dc f)) of
           (None, d) \<Rightarrow> (False, keep d, [])
         | (Some DIR_REPLY, d) \<Rightarrow>
             (case decode_request_id d of
                (None, d) \<Rightarrow> (False, keep d, [])
              | (Some request_id, d) \<Rightarrow>
                  (case map_of (fd_waiting4reply f) request_id of
                     None \<Rightarrow> (False, keep d, [])
                   | Some t \<Rightarrow>
                       (True, (keep d)\<lparr>fd_waiting4reply := filter (\<lambda>(i, _). i \<noteq> request_id) (fd_waiting4reply f)\<rparr>,
                        [Wake t None (Some d)])))
         | (Some dir, d) \<Rightarrow>
             (True, (keep d)\<lparr>fd_busy := fd_busy f + 1\<rparr>, [Job dir (fd_sid f) (fd_generation f) d]))"

text \<open>
  The part of \<^verbatim>\<open>network_main\<close> for a readable socket. \<open>recv_size\<close> is the number of bytes it asks
  \<^verbatim>\<open>read\<close> for, with the arithmetic of C; \<open>net_recv\<close> is what it does with the bytes \<open>bs\<close> that
  \<^verbatim>\<open>read\<close> has returned, none at the end of the stream or on an error. \<open>new_dc\<close> is the buffer it
  allocates if there is none.
\<close>

definition recv_size :: "fd_data \<Rightarrow> nat" where
  "recv_size f =
     (if fd_read f < 4 then unat (4 - fd_read f)
      else if max_length (hd (fd_dc f)) \<le> ZFS_DC_SIZE then unat (max_length (hd (fd_dc f)) - fd_read f)
      else if fd_read f < 12 then unat (12 - fd_read f)
      else
        let l = max_length (hd (fd_dc f)) - fd_read f;
            l = (if sint l > sint ZFS_MAXDATA then ZFS_MAXDATA else l)
        in unat (scast l :: u64))"

definition recv_store :: "u8 list \<Rightarrow> fd_data \<Rightarrow> fd_data" where
  "recv_store bs f = f\<lparr>fd_dc := (fd_dc f)[0 := dc_store (unat (fd_read f)) bs (hd (fd_dc f))]\<rparr>"

definition dispatch_packet :: "fd_data \<Rightarrow> fd_data \<times> net_event list" where
  "dispatch_packet f =
     (let (ok, f, ev) = network_dispatch f
      in if ok
         then (f\<lparr>fd_dc := (let n = length (fd_dc f) - 1
                            in if n > 0 then (butlast (fd_dc f))[0 := fd_dc f ! n] else [])\<rparr>, ev)
         else (f, ev))"

definition net_recv :: "dc \<Rightarrow> u8 list \<Rightarrow> fd_data \<Rightarrow> fd_data \<times> net_event list" where
  "net_recv new_dc bs f =
     (if fd_read f < 4 then
        let f = (if fd_dc f = [] then f\<lparr>fd_dc := [new_dc]\<rparr> else f);
            f = recv_store bs f
        in if bs = [] then close_active_fd f
           else
             let f = f\<lparr>fd_read := fd_read f + of_nat (length bs)\<rparr>
             in if fd_read f = 4
                then (f\<lparr>fd_dc := (fd_dc f)[0 := snd (start_decoding (hd (fd_dc f)))]\<rparr>, [])
                else (f, [])
      else
        let f = (if max_length (hd (fd_dc f)) \<le> ZFS_DC_SIZE \<or> fd_read f < 12 then recv_store bs f
                 else f\<lparr>fd_fault := (fd_fault f \<or> length bs > unat ZFS_MAXDATA)\<rparr>)
        in if bs = [] then close_active_fd f
           else
             let f = f\<lparr>fd_read := fd_read f + of_nat (length bs)\<rparr>
             in if max_length (hd (fd_dc f)) = fd_read f then dispatch_packet (f\<lparr>fd_read := 0\<rparr>)
                else (f, []))"


section \<open>Authentication\<close>

lemma call_case_serve_cong:
  assumes p: "find_proc fn = Some p"
    and agree: "\<And>c d w'. proc_auth (call_proc c) \<le> fd_auth (w_fd w) \<Longrightarrow> serve c d w' = serve' c d w'"
  shows "call_case serve gen dir request_id fn p d w = call_case serve' gen dir request_id fn p d w"
proof (cases "proc_decode p d")
  case (Pair z d')
  then show ?thesis
    using proc_decode_call [OF p] agree
    by (cases z) (auto simp: call_case_def run_call_def Let_def not_less)
qed

text \<open>
  C2. What a procedure would do is out of reach of a peer that has not reached the authentication
  level of the procedure: two servers that agree on the calls the peer's level allows answer
  every packet, however it was made, in the same way and leave the same state.
\<close>

theorem auth_required:
  assumes "\<And>c d w'. proc_auth (call_proc c) \<le> fd_auth (w_fd w) \<Longrightarrow> serve c d w' = serve' c d w'"
  shows "network_worker serve gen dir d w = network_worker serve' gen dir d w"
proof -
  have "worker_request serve gen dir d w = worker_request serve' gen dir d w"
    using call_case_serve_cong [OF _ assms]
    by (simp add: worker_request_def split: prod.splits option.splits)
  then show ?thesis by (simp add: network_worker_def)
qed


section \<open>Serving a call\<close>

lemma decode_request_max_length:
  assumes "dc_wf d" "decode_direction d = (Some dir, d1)" "decode_request_id d1 = (Some req_id, d2)"
  shows "dc_wf d1" "dc_wf d2" "max_length d2 = max_length d"
proof -
  have 1: "dc_wf d1 \<and> max_length d1 = max_length d"
    using direction.dec_safe assms(1,2) by (auto simp: safe_decoder_def dest!: spec [of _ d])
  then have "dc_wf d2 \<and> max_length d2 = max_length d1"
    using request_id.dec_safe assms(3) by (auto simp: safe_decoder_def dest!: spec [of _ d1])
  with 1 show "dc_wf d1" "dc_wf d2" "max_length d2 = max_length d" by auto
qed

lemma worker_serves:
  assumes wf: "dc_wf d" and req: "decode_request d = (Some (proc_mode (call_proc c), req_id, c), d')"
    and fin: "finish_decoding d'" and d1: "decode_direction d = (Some dir, d1)"
    and auth: "proc_auth (call_proc c) \<le> fd_auth (w_fd w)"
  shows "dir = proc_mode (call_proc c)"
    and "worker_request serve gen dir d1 w = run_call serve gen req_id (call_number c) (call_proc c) c d' w"
proof -
  obtain d2 d3 fn p where s: "decode_direction d = (Some (proc_mode (call_proc c)), d1)"
      "decode_request_id d1 = (Some req_id, d2)"
      "decode_function d2 = (Some fn, d3)" "find_proc fn = Some p" "proc_decode p d3 = (Some c, d')"
    using decode_request_Some [OF req] d1 by (metis prod.inject)
  show dir: "dir = proc_mode (call_proc c)" using s(1) d1 by simp
  have p: "p = call_proc c" and fn: "fn = call_number c"
    using proc_decode_call [OF s(4,5)] proc_decode_number [OF s(4,5)] by auto
  have "\<not> max_length d2 > ZFS_DC_SIZE"
    using decode_request_max_length [OF wf s(1,2)] wf by (simp add: dc_wf_def word_less_nat_alt)
  moreover have "\<not> fd_auth (w_fd w) < proc_auth (call_proc c)" using auth by simp
  ultimately show "worker_request serve gen dir d1 w = run_call serve gen req_id (call_number c) (call_proc c) c d' w"
    using s(2-) fin dir p fn by (simp add: worker_request_def call_case_def)
qed

section \<open>Packets that are sent\<close>

text \<open>A packet: its first four bytes are its length.\<close>

definition is_packet :: "u8 list \<Rightarrow> bool" where
  "is_packet P \<longleftrightarrow> 4 < length P \<and> length P \<le> 8888 \<and> le_word (take 4 P) = (of_nat (length P) :: u32)"

lemma finish_packet:
  assumes wf: "dc_wf d" and long: "4 < unat (cur_length d)"
  shows "is_packet (packet (snd (finish_encoding d)))"
proof -
  have d: "length (buffer d) = 8888" "unat (cur_length d) \<le> 8888"
    using wf by (auto simp: dc_wf_def word_le_nat_alt)
  have "take 4 (blit 0 (le_bytes 4 (cur_length d)) (buffer d)) = le_bytes 4 (cur_length d)"
    by (simp add: blit_def)
  then show ?thesis
    using d long
    by (simp add: is_packet_def packet_def finish_encoding_def dc_store_def length_blit le_word_le_bytes)
qed

lemma encode_direction_first:
  assumes "dc_raw d"
  shows "\<exists>e. encode_direction dir (start_encoding d) = (True, e) \<and> dc_wf e \<and> unat (cur_length e) = 5
    \<and> max_length e = ZFS_DC_SIZE \<and> dc_ext (start_encoding d) e"
proof -
  note s = start_encoding_wf [OF assms]
  obtain e where e: "encode_direction dir (start_encoding d) = (True, e)" "cur_length e = 5"
    using st1.encode_simple [OF s(1), of "direction_num dir"] s(2,3)
    by (auto simp: encode_direction_def encode_uchar_def)
  then show ?thesis
    using roundtripsD(1) [OF direction.enc_dec [OF TrueI] s(1) e(1)] s(3) by (auto simp: dc_ext_def)
qed

lemma client_packet:
  assumes v: "valid_call c" and d: "dc_raw d" and call: "client_1 req_id c d = (status, d')"
  shows "is_packet (packet d')"
proof -
  let ?m = "proc_mode (call_proc c)"
  obtain d1 where e: "enc_request (?m, req_id, c) (start_encoding d) = (True, d1)"
    and d': "d' = snd (finish_encoding d1)"
    using client_1_eq [OF v d, of req_id] call by (metis prod.inject)
  obtain e1 where e1: "encode_direction ?m (start_encoding d) = (True, e1)" "dc_wf e1" "unat (cur_length e1) = 5"
    using encode_direction_first [OF d] by blast
  let ?rest = "enc_and (encode_request_id req_id) (enc_and (encode_function (call_number c)) (enc_args c))"
  have "safe_encoder ?rest"
    by (rule codec_rules TrueI safe_encoder_args [OF v])+
  moreover have "?rest e1 = (True, d1)"
    using e e1(1) by (simp add: enc_request_def enc_and_def)
  ultimately have "dc_ext e1 d1"
    using e1(2) by (auto simp: safe_encoder_def dest!: spec [of _ e1])
  then show ?thesis
    using finish_packet [of d1] e1(3) by (auto simp: d' dc_ext_def word_le_nat_alt)
qed


section \<open>Receiving a packet\<close>

text \<open>
  A run of the receiver: each element of the list is what one call of \<^verbatim>\<open>read\<close> has returned, at least
  one byte and at most as many as were asked for.
\<close>

fun recv_all :: "dc \<Rightarrow> u8 list list \<Rightarrow> fd_data \<Rightarrow> (fd_data \<times> net_event list) option" where
  "recv_all new_dc [] f = Some (f, [])"
| "recv_all new_dc (bs # bss) f =
     (if bs \<noteq> [] \<and> length bs \<le> recv_size f then
        let (f, ev) = net_recv new_dc bs f
        in case recv_all new_dc bss f of None \<Rightarrow> None | Some (f, ev') \<Rightarrow> Some (f, ev @ ev')
      else None)"

text \<open>The receiver has the first \<open>k\<close> bytes of the packet.\<close>

definition recv_inv :: "u8 list \<Rightarrow> nat \<Rightarrow> fd_data \<Rightarrow> dc \<Rightarrow> dc list \<Rightarrow> bool" where
  "recv_inv P k f b bs \<longleftrightarrow> fd_dc f = b # bs \<and> dc_raw b \<and> fd_read f = of_nat k \<and> k < length P
     \<and> take k (buffer b) = take k P
     \<and> (4 \<le> k \<longrightarrow> cur_length b = 4 \<and> cur_pos b = 4 \<and> max_length b = of_nat (length P))"

lemma unat_small_u32: "n \<le> 8888 \<Longrightarrow> unat (of_nat n :: u32) = n"
  by (simp add: unat_of_nat)

lemma recv_size_inv:
  assumes P: "is_packet P" and inv: "recv_inv P k f b bs"
  shows "recv_size f = (if k < 4 then 4 - k else length P - k)"
proof -
  have k: "unat (fd_read f) = k" "k < length P" "length P \<le> 8888"
    using P inv by (auto simp: recv_inv_def is_packet_def unat_small_u32)
  have sub: "unat (of_nat m - fd_read f :: u32) = m - k" if "k \<le> m" "m \<le> 8888" for m
    using that k by (subst unat_sub) (simp_all add: word_le_nat_alt unat_small_u32)
  show ?thesis
    using k sub [of 4] sub [of "length P"] inv
    by (auto simp: recv_size_def recv_inv_def word_less_nat_alt word_le_nat_alt unat_small_u32)
qed

lemma recv_store_inv:
  assumes P: "is_packet P" and inv: "recv_inv P k f b bs"
    and c: "take (k + length c) P = take k P @ c" and le: "k + length c \<le> length P"
  defines "b' \<equiv> b\<lparr>buffer := blit k c (buffer b)\<rparr>"
  shows "recv_store c f = f\<lparr>fd_dc := b' # bs\<rparr>" and "dc_raw b'"
    and "take (k + length c) (buffer b') = take (k + length c) P"
    and "cur_length b' = cur_length b" "cur_pos b' = cur_pos b" "max_length b' = max_length b"
proof -
  have k: "unat (fd_read f) = k" "k < length P" "length P \<le> 8888" "length (buffer b) = 8888"
      "fd_dc f = b # bs" "take k (buffer b) = take k P"
    using P inv by (auto simp: recv_inv_def is_packet_def unat_small_u32 dc_raw_def)
  show "recv_store c f = f\<lparr>fd_dc := b' # bs\<rparr>"
    using k le by (simp add: recv_store_def dc_store_def b'_def)
  show "dc_raw b'"
    using k le inv by (simp add: b'_def recv_inv_def dc_raw_def length_blit)
  show "take (k + length c) (buffer b') = take (k + length c) P"
    using k le unfolding c by (simp add: b'_def blit_def)
  show "cur_length b' = cur_length b" "cur_pos b' = cur_pos b" "max_length b' = max_length b"
    by (simp_all add: b'_def)
qed

text \<open>The buffer holds the whole packet and is ready for decoding.\<close>

definition received :: "u8 list \<Rightarrow> dc \<Rightarrow> bool" where
  "received P b \<longleftrightarrow> dc_raw b \<and> take (length P) (buffer b) = P \<and> cur_length b = 4 \<and> cur_pos b = 4
     \<and> max_length b = of_nat (length P)"

lemma start_decoding_packet:
  assumes P: "is_packet P" and b: "dc_raw b" "take 4 (buffer b) = take 4 P"
  shows "snd (start_decoding b) = (dc_seek 4 b)\<lparr>max_length := of_nat (length P)\<rparr>"
  using start_decoding_eq [OF b(1)] P b(2) by (simp add: slice_def is_packet_def)

lemma net_recv_more:
  assumes P: "is_packet P" and inv: "recv_inv P k f b bs" and c: "c \<noteq> []" "length c \<le> recv_size f"
    and pre: "take (k + length c) P = take k P @ c" and less: "k + length c < length P"
  shows "\<exists>b'. net_recv new_dc c f = (f\<lparr>fd_dc := b' # bs, fd_read := of_nat (k + length c)\<rparr>, [])
    \<and> recv_inv P (k + length c) (f\<lparr>fd_dc := b' # bs, fd_read := of_nat (k + length c)\<rparr>) b' bs"
proof -
  let ?b = "b\<lparr>buffer := blit k c (buffer b)\<rparr>"
  note st = recv_store_inv [OF P inv pre less_imp_le [OF less]]
  have f: "fd_read f = of_nat k" "unat (fd_read f) = k" "fd_dc f = b # bs" "length P \<le> 8888"
    using P inv less by (auto simp: recv_inv_def is_packet_def unat_small_u32)
  have size: "length c \<le> (if k < 4 then 4 - k else length P - k)"
    using c(2) recv_size_inv [OF P inv] by simp
  have read: "fd_read f + of_nat (length c) = of_nat (k + length c)"
    using f by simp
  have eq4: "(of_nat (k + length c) :: u32) = 4 \<longleftrightarrow> k + length c = 4"
    and ne: "(of_nat (length P) :: u32) \<noteq> of_nat (k + length c)"
    using unat_small_u32 [of "k + length c"] unat_small_u32 [of "length P"] f(4) less
    by (auto simp del: of_nat_add simp: word_unat_eq_iff)
  show ?thesis
  proof (cases "k < 4")
    case True
    show ?thesis
    proof (cases "k + length c = 4")
      case four: True
      have "snd (start_decoding ?b) = (dc_seek 4 ?b)\<lparr>max_length := of_nat (length P)\<rparr>"
        using start_decoding_packet [OF P st(2)] st(3) four by simp
      then show ?thesis
        using True c(1) f st read eq4 four less
        by (intro exI [of _ "(dc_seek 4 ?b)\<lparr>max_length := of_nat (length P)\<rparr>"])
          (auto simp: net_recv_def word_less_nat_alt recv_inv_def dc_raw_def simp del: of_nat_add)
    next
      case False
      then have "\<not> 4 \<le> k + length c" using size True by simp
      then show ?thesis
        using True c(1) f st read eq4 False less
        by (auto simp: net_recv_def word_less_nat_alt recv_inv_def simp del: of_nat_add)
    qed
  next
    case False
    then have "max_length b = of_nat (length P)" "cur_length b = 4" "cur_pos b = 4"
      using inv by (auto simp: recv_inv_def)
    then show ?thesis
      using False c(1) f st read ne less
      by (auto simp: net_recv_def word_less_nat_alt word_le_nat_alt recv_inv_def unat_small_u32 simp del: of_nat_add)
  qed
qed

lemma net_recv_last:
  assumes P: "is_packet P" and inv: "recv_inv P k f b bs" and c: "c \<noteq> []" "length c \<le> recv_size f"
    and pre: "P = take k P @ c"
  shows "\<exists>b'. received P b' \<and> net_recv new_dc c f = dispatch_packet (f\<lparr>fd_dc := b' # bs, fd_read := 0\<rparr>)"
proof -
  let ?b = "b\<lparr>buffer := blit k c (buffer b)\<rparr>"
  have kP: "k < length P" using inv by (simp add: recv_inv_def)
  have len: "k + length c = length P"
    using arg_cong [OF pre, of length] kP by simp
  have pre': "take (k + length c) P = take k P @ c"
    using pre len by simp
  note st = recv_store_inv [OF P inv pre' eq_imp_le [OF len]]
  have f: "fd_read f = of_nat k" "unat (fd_read f) = k" "fd_dc f = b # bs" "length P \<le> 8888" "4 < length P"
    using P inv kP by (auto simp: recv_inv_def is_packet_def unat_small_u32)
  have k4: "\<not> k < 4"
    using c(2) recv_size_inv [OF P inv] len f(5) by auto
  then have b: "max_length b = of_nat (length P)" "cur_length b = 4" "cur_pos b = 4"
    using inv by (auto simp: recv_inv_def)
  have read: "fd_read f + of_nat (length c) = of_nat (length P)"
    using f(1) len by (metis of_nat_add)
  have "received P ?b"
    using st b len by (simp add: received_def)
  moreover have "net_recv new_dc c f = dispatch_packet (f\<lparr>fd_dc := ?b # bs, fd_read := 0\<rparr>)"
    using k4 c(1) f st read b
    by (auto simp: net_recv_def word_less_nat_alt word_le_nat_alt unat_small_u32)
  ultimately show ?thesis by blast
qed

text \<open>However the stream is cut into pieces, the receiver hands on exactly the packet.\<close>

lemma recv_all_packet:
  assumes P: "is_packet P"
  shows "recv_inv P k f b bs \<Longrightarrow> concat cs = drop k P \<Longrightarrow> recv_all new_dc cs f = Some (f', ev) \<Longrightarrow>
    \<exists>b'. received P b' \<and> (f', ev) = dispatch_packet (f\<lparr>fd_dc := b' # bs, fd_read := 0\<rparr>)"
proof (induction cs arbitrary: k f b ev)
  case Nil
  then show ?case by (simp add: recv_inv_def)
next
  case (Cons c cs)
  have c: "c \<noteq> []" "length c \<le> recv_size f" and cat: "c @ concat cs = drop k P"
    using Cons.prems by (auto split: if_splits)
  have k: "k < length P" using Cons.prems(1) by (simp add: recv_inv_def)
  have len: "k + length c \<le> length P"
    using arg_cong [OF cat, of length] k by simp
  have pre: "take (k + length c) P = take k P @ c"
    using arg_cong [OF cat, of "take (length c)"] by (simp add: take_add)
  have rest: "concat cs = drop (k + length c) P"
    using arg_cong [OF cat, of "drop (length c)"] by (simp add: add.commute)
  show ?case
  proof (cases "k + length c < length P")
    case True
    from net_recv_more [OF P Cons.prems(1) c pre True] obtain b' where
      step: "net_recv new_dc c f = (f\<lparr>fd_dc := b' # bs, fd_read := of_nat (k + length c)\<rparr>, [])"
        "recv_inv P (k + length c) (f\<lparr>fd_dc := b' # bs, fd_read := of_nat (k + length c)\<rparr>) b' bs" by blast
    have "recv_all new_dc cs (f\<lparr>fd_dc := b' # bs, fd_read := of_nat (k + length c)\<rparr>) = Some (f', ev)"
      using Cons.prems(3) c step(1) by (auto split: option.splits)
    from Cons.IH [OF step(2) rest this] show ?thesis by simp
  next
    case False
    then have last: "concat cs = []" "P = take k P @ c" using len rest pre by simp_all
    from net_recv_last [OF P Cons.prems(1) c last(2)] obtain b' where
      b': "received P b'" "net_recv new_dc c f = dispatch_packet (f\<lparr>fd_dc := b' # bs, fd_read := 0\<rparr>)" by blast
    have "cs = []"
    proof (cases cs)
      case (Cons c' cs')
      then have "c' = []" using last(1) by simp
      then show ?thesis using Cons Cons.prems(3) by (auto split: if_splits prod.splits option.splits)
    qed simp
    then show ?thesis
      using Cons.prems(3) c b' by (auto split: prod.splits)
  qed
qed

lemma received_decoding:
  assumes "is_packet P" "received P b"
  shows "start_decoding b = (True, b)" and "dc_wf b"
proof -
  have b: "dc_raw b" "take (length P) (buffer b) = P" "cur_length b = 4" "cur_pos b = 4"
      "max_length b = of_nat (length P)" and P: "4 < length P" "length P \<le> 8888"
      "le_word (take 4 P) = (of_nat (length P) :: u32)"
    using assms by (auto simp: received_def is_packet_def)
  have "take 4 (buffer b) = take 4 P"
    using arg_cong [OF b(2), of "take 4"] P(1) by simp
  then have "start_decoding b = (True, (dc_seek 4 b)\<lparr>max_length := of_nat (length P)\<rparr>)"
    using start_decoding_eq [OF b(1)] P by (simp add: slice_def word_le_nat_alt unat_small_u32)
  then show "start_decoding b = (True, b)"
    using b(3-5) by (simp add: dc_seek_def)
  show "dc_wf b"
    using b P by (simp add: dc_wf_def dc_raw_def word_le_nat_alt unat_small_u32)
qed

text \<open>The state of a connection that waits for a packet.\<close>

definition fd_idle :: "fd_data \<Rightarrow> bool" where
  "fd_idle f \<longleftrightarrow> fd_read f = 0 \<and> fd_dc f \<noteq> [] \<and> dc_raw (hd (fd_dc f))"

lemma recv_inv_0: "is_packet P \<Longrightarrow> fd_idle f \<Longrightarrow> recv_inv P 0 f (hd (fd_dc f)) (tl (fd_dc f))"
  by (auto simp: recv_inv_def fd_idle_def is_packet_def)

lemma recv_packet:
  assumes "is_packet P" "fd_idle f" "concat cs = P" "recv_all new_dc cs f = Some (f', ev)"
  shows "\<exists>b. received P b \<and> (f', ev) = dispatch_packet (f\<lparr>fd_dc := b # tl (fd_dc f), fd_read := 0\<rparr>)"
  using recv_all_packet [OF assms(1) recv_inv_0 [OF assms(1,2)]] assms(3,4) by simp

text \<open>
  C1. End to end: a client stub encodes a valid call, the bytes of its packet arrive in pieces of any
  size, and the receiver hands the worker one job. The worker of a peer with the level the
  procedure needs then runs the procedure on exactly the arguments that the client passed, under
  the number of the request.
\<close>

theorem call_served:
  assumes v: "valid_call c" and d: "dc_raw d" and call: "client_1 req_id c d = (status, d')"
    and f: "fd_idle f" and cs: "concat cs = packet d'" and recv: "recv_all new_dc cs f = Some (f', ev)"
    and auth: "proc_auth (call_proc c) \<le> fd_auth (w_fd w)"
  shows "status = ZFS_OK \<and> (\<exists>q q'. ev = [Job (proc_mode (call_proc c)) (fd_sid f) (fd_generation f) q]
    \<and> worker_request serve gen (proc_mode (call_proc c)) q w
      = run_call serve gen req_id (call_number c) (call_proc c) c q' w)"
proof -
  have "status = ZFS_OK" and P: "is_packet (packet d')"
    and decodes: "\<And>r. dc_raw r \<Longrightarrow> take (length (packet d')) (buffer r) = packet d' \<Longrightarrow>
      \<exists>r1 r2. start_decoding r = (True, r1)
        \<and> decode_request r1 = (Some (proc_mode (call_proc c), req_id, c), r2) \<and> finish_decoding r2"
    using client_request [OF v d, of req_id] client_packet [OF v d call] call by auto
  obtain b where b: "received (packet d') b"
      "(f', ev) = dispatch_packet (f\<lparr>fd_dc := b # tl (fd_dc f), fd_read := 0\<rparr>)"
    using recv_packet [OF P f cs recv] by blast
  note dec = received_decoding [OF P b(1)]
  obtain q' where req: "decode_request b = (Some (proc_mode (call_proc c), req_id, c), q')" "finish_decoding q'"
    using decodes [of b] b(1) dec(1) by (auto simp: received_def)
  obtain q where q: "decode_direction b = (Some (proc_mode (call_proc c)), q)"
    using decode_request_Some [OF req(1)] by metis
  have "ev = [Job (proc_mode (call_proc c)) (fd_sid f) (fd_generation f) q]"
    using b(2) q call_mode [of c] by (auto simp: dispatch_packet_def network_dispatch_def Let_def)
  then show ?thesis
    using worker_serves(2) [OF dec(2) req q auth] \<open>status = ZFS_OK\<close> by blast
qed

section \<open>Replies\<close>

definition reply_header :: "u32 \<Rightarrow> dc \<Rightarrow> dc" where
  "reply_header request_id d =
     snd (encode_request_id request_id (snd (encode_direction DIR_REPLY (start_encoding d))))"

definition decode_reply :: "'a decoder \<Rightarrow> (direction \<times> u32 \<times> 'a) decoder" where
  "decode_reply g = dec_bind decode_direction (\<lambda>dir. dec_bind decode_request_id (\<lambda>req_id.
     dec_bind g (\<lambda>x. dec_return (dir, req_id, x))))"

text \<open>A reply is read back by whoever receives the packet.\<close>

lemma reply_header_wf:
  fixes req_id :: u32
  assumes "dc_raw d"
  shows "enc_and (encode_direction DIR_REPLY) (encode_request_id req_id) (start_encoding d) = (True, reply_header req_id d)"
    and "dc_wf (reply_header req_id d)" and "max_length (reply_header req_id d) = ZFS_DC_SIZE"
    and "4 < unat (cur_length (reply_header req_id d))" and "unat (cur_length (reply_header req_id d)) \<le> 13"
proof -
  obtain e1 where e1: "encode_direction DIR_REPLY (start_encoding d) = (True, e1)" "dc_wf e1"
      "unat (cur_length e1) = 5" "max_length e1 = ZFS_DC_SIZE"
    using encode_direction_first [OF assms] by blast
  have "enc_fits 1 8 (encode_request_id req_id)"
    unfolding fits_unfold by (rule fits_rules)
  then obtain e2 where e2: "encode_request_id req_id e1 = (True, e2)" "dc_wf e2" "max_length e2 = ZFS_DC_SIZE"
      "unat (cur_length e2) \<le> 13"
    using enc_step [OF _ e1(2,4), of 8 _ 5] e1(3) by auto
  have "dc_ext e1 e2"
    using roundtripsD(1) [OF request_id.enc_dec [OF TrueI] e1(2) e2(1)] .
  then have "4 < unat (cur_length e2)" using e1(3) by (auto simp: dc_ext_def word_le_nat_alt)
  moreover have "reply_header req_id d = e2" using e1(1) e2(1) by (simp add: reply_header_def)
  ultimately show "enc_and (encode_direction DIR_REPLY) (encode_request_id req_id) (start_encoding d) = (True, reply_header req_id d)"
      "dc_wf (reply_header req_id d)" "max_length (reply_header req_id d) = ZFS_DC_SIZE"
      "4 < unat (cur_length (reply_header req_id d))" "unat (cur_length (reply_header req_id d)) \<le> 13"
    using e1(1) e2 by (simp_all add: enc_and_def)
qed

lemma reply_body:
  fixes req_id :: u32
  assumes rt: "roundtrips e g x" and d: "dc_raw d" and e3: "e (reply_header req_id d) = (True, e3)"
  defines "d' \<equiv> snd (finish_encoding e3)"
  shows "is_packet (packet d')"
    and "received (packet d') b \<Longrightarrow>
      \<exists>q. decode_reply g b = (Some (DIR_REPLY, req_id, x), q) \<and> finish_decoding q"
proof -
  note h = reply_header_wf [OF d, of req_id]
  let ?E = "enc_and (encode_direction DIR_REPLY) (enc_and (encode_request_id req_id) e)"
  have E: "?E (start_encoding d) = (True, e3)"
    using h(1) e3 by (auto simp: enc_and_def split: prod.splits bool.splits)
  have rtE: "roundtrips ?E (decode_reply g) (DIR_REPLY, req_id, x)"
    unfolding decode_reply_def
    by (rule roundtrips_bind [OF direction.enc_dec [OF TrueI]], rule roundtrips_bind [OF request_id.enc_dec [OF TrueI]],
        rule roundtrips_last [OF rt]) simp
  have wf: "dc_wf e3" "4 < unat (cur_length e3)"
    using roundtripsD(1) [OF rt h(2) e3] h(4) by (auto simp: dc_ext_def word_le_nat_alt)
  show P: "is_packet (packet d')"
    unfolding d'_def by (rule finish_packet [OF wf])
  obtain m where fin: "finish_encoding e3 = (m, d')"
    unfolding d'_def by (metis prod.collapse)
  have m: "unat m = length (packet d')" "packet d' = take (unat m) (buffer d')"
    using packet_finish [OF wf(1)] fin wf(1)
    by (auto simp: finish_encoding_def packet_def dc_store_def dc_wf_def)
  assume b: "received (packet d') b"
  have "take (unat m) (buffer b) = take (unat m) (buffer d')"
    using b unfolding received_def m(1) [symmetric] m(2) [symmetric] by simp
  then obtain r1 r2 where "start_decoding b = (True, r1)" "decode_reply g r1 = (Some (DIR_REPLY, req_id, x), r2)"
      "finish_decoding r2"
    using packet_roundtrips [OF rtE d _ E fin, of b] b by (auto simp: received_def)
  then show "\<exists>q. decode_reply g b = (Some (DIR_REPLY, req_id, x), q) \<and> finish_decoding q"
    using received_decoding(1) [OF P b] by simp
qed

lemma reply_fits:
  assumes fits: "enc_fits 1 n e" "n \<le> 8875" and d: "dc_raw d"
  shows "e (reply_header req_id d) = (True, snd (e (reply_header req_id d)))"
  using enc_step [OF fits(1) reply_header_wf(2,3,5) [OF d, of req_id]] fits(2) by auto

lemma reply_packet:
  fixes req_id :: u32
  assumes rt: "roundtrips e g x" and fits: "enc_fits 1 n e" "n \<le> 8875" and d: "dc_raw d"
  defines "d' \<equiv> snd (finish_encoding (snd (e (reply_header req_id d))))"
  shows "is_packet (packet d')"
    and "received (packet d') b \<Longrightarrow>
      \<exists>q. decode_reply g b = (Some (DIR_REPLY, req_id, x), q) \<and> finish_decoding q"
  unfolding d'_def by (rule reply_body [OF rt d reply_fits [OF fits d]], assumption?)+

lemma decode_reply_Some:
  assumes "decode_reply g b = (Some (dir, req_id, x), q')"
  obtains d1 q where "decode_direction b = (Some dir, d1)" "decode_request_id d1 = (Some req_id, q)" "g q = (Some x, q')"
  using assms by (auto simp: decode_reply_def dec_bind_Some dec_return_def)

lemma map_of_filter_neq: "map_of (filter (\<lambda>(i, _). i \<noteq> k) xs) k = None"
  by (induction xs) auto

text \<open>
  C3. The answer finds its caller. The worker runs the procedure, which appends the encoding of a result \<open>x\<close>
  to the header of the reply. The packet goes out if the connection is still the one the request came
  from; received in pieces of any size, it wakes the thread that waits under the number of the
  request, which is then no longer waiting, and that thread decodes exactly \<open>x\<close>.
\<close>

theorem reply_wakes_caller:
  assumes rt: "roundtrips e g x" and fits: "enc_fits 1 n e" "n \<le> 8875" and d: "dc_raw d"
    and mode: "proc_mode p = DIR_REQUEST"
    and serve: "serve c (reply_header req_id d) (w\<lparr>w_stats := (w_stats w)(fn := w_stats w fn + 1)\<rparr>)
      = (snd (e (reply_header req_id d)), w1)"
    and conn: "fd_fd (w_fd w1) \<ge> 0" "fd_generation (w_fd w1) = gen"
    and run: "run_call serve gen req_id fn p c d w = (d', w')"
    and f: "fd_idle f" "map_of (fd_waiting4reply f) req_id = Some t"
    and cs: "concat cs = last (w_sent w')" and recv: "recv_all new_dc cs f = Some (f', ev)"
  shows "\<exists>q q'. ev = [Wake t None (Some q)] \<and> g q = (Some x, q') \<and> finish_decoding q'
    \<and> map_of (fd_waiting4reply f') req_id = None"
proof -
  let ?d = "snd (finish_encoding (snd (e (reply_header req_id d))))"
  have sent: "last (w_sent w') = packet ?d"
    using run mode serve conn by (auto simp: run_call_def send_reply_def reply_header_def Let_def)
  note reply = reply_packet [OF rt fits d]
  obtain b where b: "received (packet ?d) b"
      "(f', ev) = dispatch_packet (f\<lparr>fd_dc := b # tl (fd_dc f), fd_read := 0\<rparr>)"
    using recv_packet [OF reply(1) f(1) _ recv] cs sent by metis
  obtain q' where q': "decode_reply g b = (Some (DIR_REPLY, req_id, x), q')" "finish_decoding q'"
    using reply(2) [OF b(1)] by blast
  obtain d1 q where q: "decode_direction b = (Some DIR_REPLY, d1)" "decode_request_id d1 = (Some req_id, q)"
      "g q = (Some x, q')"
    using decode_reply_Some [OF q'(1)] .
  show ?thesis
    using b(2) q q'(2) f(2)
    by (auto simp: dispatch_packet_def network_dispatch_def Let_def map_of_filter_neq)
qed

text \<open>The coders of the header keep a buffer whole, whatever length it announces.\<close>

lemma decode_direction_raw:
  assumes "dc_raw b" "cur_length b = 4" "cur_pos b = 4" "decode_direction b = (z, d)"
  shows "dc_raw d" and "z \<noteq> None \<Longrightarrow> cur_length d = 5 \<and> cur_pos d = 5 \<and> 5 \<le> max_length d"
  using assms
  by (auto simp: decode_direction_def decode_uchar_def dec_bind_def dec_fail_def dec_return_def
      DECODE_SIMPLE_TYPE_def ALIGN_1_def dc_load_def dc_raw_def Let_def split: if_splits)

lemma decode_request_id_raw:
  assumes "dc_raw b" "cur_length b = 5" "cur_pos b = 5" "decode_request_id b = (z, d)"
  shows "dc_raw d"
  using assms
  by (auto simp: decode_request_id_def decode_uint32_t_def
      DECODE_SIMPLE_TYPE_def ALIGN_4_def dc_load_def dc_raw_def Let_def split: if_splits)

lemma decode_request_id_max: "decode_request_id b = (z, d) \<Longrightarrow> max_length d = max_length b"
  by (auto simp: decode_request_id_def decode_uint32_t_def
      DECODE_SIMPLE_TYPE_def dc_load_def Let_def split: if_splits)

text \<open>A packet that every receiver reads as the reply to a request.\<close>

definition is_reply :: "u32 \<Rightarrow> u8 list \<Rightarrow> bool" where
  "is_reply req_id P \<longleftrightarrow> is_packet P \<and> (\<forall>b. received P b \<longrightarrow>
     (\<exists>d1 q. decode_direction b = (Some DIR_REPLY, d1) \<and> decode_request_id d1 = (Some req_id, q)))"

text \<open>Whatever is appended to the header of a reply, the packet is one.\<close>

lemma reply_appended:
  assumes d: "dc_raw d" and ext: "dc_ext (reply_header req_id d) d'"
  shows "is_reply req_id (packet (snd (finish_encoding d')))"
proof -
  define e :: encoder where "e = (\<lambda>x. if x = reply_header req_id d then (True, d') else (False, x))"
  define g :: "unit decoder" where "g = (\<lambda>r. (Some (), dc_seek (cur_length d') r))"
  have rt: "roundtrips e g ()" using ext by (simp add: roundtrips_def e_def g_def)
  have e: "e (reply_header req_id d) = (True, d')" by (simp add: e_def)
  note body = reply_body [OF rt d e]
  have "\<exists>d1 q. decode_direction b = (Some DIR_REPLY, d1) \<and> decode_request_id d1 = (Some req_id, q)"
    if "received (packet (snd (finish_encoding d'))) b" for b
    using body(2) [OF that] decode_reply_Some by metis
  then show ?thesis using body(1) by (simp add: is_reply_def)
qed

text \<open>The list of sent packets has grown by a reply to \<open>req_id\<close> if \<open>b\<close>, and is the same otherwise.\<close>

definition sends :: "bool \<Rightarrow> u32 \<Rightarrow> u8 list list \<Rightarrow> u8 list list \<Rightarrow> bool" where
  "sends b req_id ps ps' \<longleftrightarrow> (if b then \<exists>P. ps' = ps @ [P] \<and> is_reply req_id P else ps' = ps)"

lemma sends_False: "sends False req_id ps ps"
  by (simp add: sends_def)

lemma encode_status_appended: "dc_raw d \<Longrightarrow> dc_ext (reply_header req_id d) (snd (encode_status status (reply_header req_id d)))"
proof -
  assume d: "dc_raw d"
  have fits: "enc_fits 1 8 (encode_status status)" unfolding fits_unfold by (rule fits_rules)
  show ?thesis
    using roundtripsD(1) [OF status.enc_dec [OF TrueI] reply_header_wf(2) [OF d] reply_fits [OF fits _ d]] by simp
qed

lemma send_error_reply_sent:
  assumes "fd_fd (w_fd w) \<ge> 0" "fd_generation (w_fd w) = gen" "dc_raw d"
  shows "sends True req_id (w_sent w) (w_sent (snd (send_error_reply gen req_id status d w)))"
  using assms(1,2) reply_appended [OF assms(3) encode_status_appended [OF assms(3)], of req_id status]
  by (simp add: sends_def send_error_reply_def send_reply_def reply_header_def Let_def)

text \<open>
  A procedure writes nothing to the socket itself, leaves the connection open, and to the header of the reply it only appends, within
  the buffer.
\<close>

definition quiet_server :: "'st server \<Rightarrow> bool" where
  "quiet_server serve \<longleftrightarrow>
     (\<forall>c d w. case serve c d w of (d', w') \<Rightarrow> w_sent w' = w_sent w
        \<and> fd_fd (w_fd w') = fd_fd (w_fd w) \<and> fd_generation (w_fd w') = fd_generation (w_fd w))
     \<and> (\<forall>c req_id d w. dc_raw d \<longrightarrow> dc_ext (reply_header req_id d) (fst (serve c (reply_header req_id d) w)))"

lemma run_call_sent:
  assumes serve: "quiet_server serve"
    and conn: "fd_fd (w_fd w) \<ge> 0" "fd_generation (w_fd w) = gen" and d: "dc_raw d"
  shows "sends (proc_mode p = DIR_REQUEST) req_id (w_sent w) (w_sent (snd (run_call serve gen req_id fn p c d w)))"
proof -
  let ?w = "w\<lparr>w_stats := (w_stats w)(fn := w_stats w fn + 1)\<rparr>"
  let ?d = "if proc_mode p = DIR_REQUEST then reply_header req_id d else d"
  obtain d' w' where s: "serve c ?d ?w = (d', w')" by (cases "serve c ?d ?w")
  have w': "w_sent w' = w_sent w" "fd_fd (w_fd w') = fd_fd (w_fd w)"
      "fd_generation (w_fd w') = fd_generation (w_fd w)"
    using conjunct1 [OF serve [unfolded quiet_server_def]] s by (auto dest!: spec [of _ c] spec [of _ ?d] spec [of _ ?w])
  have "is_reply req_id (packet (snd (finish_encoding d')))" if "proc_mode p = DIR_REQUEST"
  proof (rule reply_appended [OF d])
    have "dc_ext (reply_header req_id d) (fst (serve c (reply_header req_id d) ?w))"
      using conjunct2 [OF serve [unfolded quiet_server_def]] d by blast
    then show "dc_ext (reply_header req_id d) d'" using s that by simp
  qed
  then show ?thesis using s w' conn
    by (cases "proc_mode p = DIR_REQUEST")
      (simp_all add: run_call_def reply_header_def sends_def send_reply_def Let_def)
qed

lemma call_case_sent:
  assumes serve: "quiet_server serve"
    and conn: "fd_fd (w_fd w) \<ge> 0" "fd_generation (w_fd w) = gen" and p: "find_proc fn = Some p" and d: "dc_wf d"
  shows "sends (dir = DIR_REQUEST) req_id (w_sent w) (w_sent (snd (call_case serve gen dir req_id fn p d w)))"
proof -
  obtain z d' where z: "proc_decode p d = (z, d')" by (cases "proc_decode p d")
  have raw: "dc_raw d" "dc_raw d'"
    using safe_decoder_call [OF p] d z by (auto simp: safe_decoder_def dest!: spec [of _ d] split: option.splits)
  note err = send_error_reply_sent [OF conn raw(1)] send_error_reply_sent [OF conn raw(2)]
  show ?thesis
    using z err run_call_sent [OF serve conn raw(2), where p = p]
    by (cases z; cases "dir = DIR_REQUEST"; cases "proc_mode p = DIR_REQUEST")
      (simp_all add: call_case_def Let_def sends_False)
qed

lemma worker_request_sent:
  assumes serve: "quiet_server serve"
    and conn: "fd_fd (w_fd w) \<ge> 0" "fd_generation (w_fd w) = gen"
    and id: "decode_request_id d = (Some req_id, d1)" and raw: "dc_raw d1" and wf: "\<not> max_length d1 > ZFS_DC_SIZE \<Longrightarrow> dc_wf d1"
  shows "sends (dir = DIR_REQUEST) req_id (w_sent w) (w_sent (snd (worker_request serve gen dir d w)))"
proof (cases "max_length d1 > ZFS_DC_SIZE")
  case True
  then show ?thesis using id send_error_reply_sent [OF conn raw]
    by (simp add: worker_request_def sends_False)
next
  case False
  obtain z d2 where z: "decode_function d1 = (z, d2)" by (cases "decode_function d1")
  have d2: "dc_raw d2" "z \<noteq> None \<Longrightarrow> dc_wf d2"
    using func.dec_safe wf [OF False] z by (auto simp: safe_decoder_def dest!: spec [of _ d1] split: option.splits)
  show ?thesis
    using id z False send_error_reply_sent [OF conn d2(1)] call_case_sent [OF serve conn _ d2(2), of _ _ dir]
    by (cases "dir = DIR_REQUEST"; cases z)
      (simp_all add: worker_request_def Let_def sends_False split: option.split)
qed

text \<open>
  C4. One answer per request. A packet has been received up to its direction, on a connection that stays open. If its number
  can be read and it is a request, exactly one packet is sent, whether the request is served or refused, and everyone who receives this packet reads it as the
  reply to that number. A one-way request gets no answer, and neither does a packet that is too short for its number. The
  procedures are only assumed to write nothing to the socket themselves and to append what they return to the reply.
\<close>

theorem one_reply:
  assumes serve: "quiet_server serve"
    and conn: "fd_fd (w_fd w) \<ge> 0" "fd_generation (w_fd w) = gen"
    and b: "dc_raw b" "cur_length b = 4" "cur_pos b = 4" and dir: "decode_direction b = (Some dir, d)"
  shows "case fst (decode_request_id d) of
      None \<Rightarrow> w_sent (network_worker serve gen dir d w) = w_sent w
    | Some req_id \<Rightarrow>
        if dir = DIR_REQUEST then \<exists>P. w_sent (network_worker serve gen dir d w) = w_sent w @ [P] \<and> is_reply req_id P
        else w_sent (network_worker serve gen dir d w) = w_sent w"
proof -
  obtain z d1 where z: "decode_request_id d = (z, d1)" by (cases "decode_request_id d")
  have sent: "w_sent (network_worker serve gen dir d w) = w_sent (snd (worker_request serve gen dir d w))"
    by (simp add: network_worker_def split: prod.split)
  note d = decode_direction_raw [OF b dir]
  show ?thesis
  proof (cases z)
    case None
    then show ?thesis using z sent by (simp add: worker_request_def)
  next
    case (Some req_id)
    have raw: "dc_raw d1" using decode_request_id_raw [OF d(1) _ _ z] d(2) by simp
    have "dc_wf d1" if "\<not> max_length d1 > ZFS_DC_SIZE"
    proof -
      have "max_length d1 = max_length d" using decode_request_id_max z by metis
      then have "dc_wf d" using that d by (simp add: dc_wf_def dc_raw_def word_less_nat_alt)
      then show ?thesis using request_id.dec_safe z Some by (auto simp: safe_decoder_def dest!: spec [of _ d])
    qed
    from worker_request_sent [OF serve conn z [unfolded Some] raw this, of dir]
    show ?thesis using z Some unfolding sent by (simp add: sends_def)
  qed
qed

section \<open>Bounds of the receiver\<close>

definition sample_fd :: fd_data where
  "sample_fd = \<lparr>fd_fd = 5, fd_read = 0, fd_dc = [sample_dc], fd_generation = 1, fd_conn = CONNECTION_ESTABLISHED,
     fd_speed = CONNECTION_SPEED_FAST, fd_auth = AUTHENTICATION_FINISHED, fd_sid = 2, fd_busy = 0, fd_close = False,
     fd_waiting4reply = [(7, 3)], fd_fault = False\<rparr>"

text \<open>
  The buffers are whole, and while a packet is being received its length is at least the number of
  bytes that have arrived and fits in a positive \<^verbatim>\<open>int\<close>.
\<close>

definition recv_ok :: "fd_data \<Rightarrow> bool" where
  "recv_ok f \<longleftrightarrow> \<not> fd_fault f \<and> list_all dc_raw (fd_dc f)
     \<and> (4 \<le> fd_read f \<longrightarrow> fd_dc f \<noteq> [] \<and> fd_read f \<le> max_length (hd (fd_dc f))
         \<and> unat (max_length (hd (fd_dc f))) < 2 ^ 31
         \<and> cur_length (hd (fd_dc f)) = 4 \<and> cur_pos (hd (fd_dc f)) = 4)"

lemma network_dispatch_raw:
  assumes f: "fd_dc f = b # bs" "list_all dc_raw (fd_dc f)" "cur_length b = 4" "cur_pos b = 4"
    and n: "network_dispatch f = (ok, f', ev)"
  shows "list_all dc_raw (fd_dc f')" and "fd_fault f' = fd_fault f" and "fd_read f' = fd_read f"
    and "fd_dc f' \<noteq> []"
proof -
  have raw: "dc_raw b" "list_all dc_raw bs" using f by auto
  obtain z d where z: "decode_direction b = (z, d)" by (cases "decode_direction b")
  obtain y e where y: "decode_request_id d = (y, e)" by (cases "decode_request_id d")
  have d: "dc_raw d" "z \<noteq> None \<Longrightarrow> cur_length d = 5 \<and> cur_pos d = 5"
    using decode_direction_raw [OF raw(1) f(3,4) z] by auto
  then have e: "z \<noteq> None \<Longrightarrow> dc_raw e"
    using decode_request_id_raw [OF d(1) _ _ y] by auto
  have "list_all dc_raw (fd_dc f') \<and> fd_fault f' = fd_fault f \<and> fd_read f' = fd_read f \<and> fd_dc f' \<noteq> []"
    using n z y d(1) e f(1) raw(2)
    by (auto simp: network_dispatch_def Let_def split: option.splits direction.splits)
  then show "list_all dc_raw (fd_dc f')" "fd_fault f' = fd_fault f" "fd_read f' = fd_read f" "fd_dc f' \<noteq> []"
    by auto
qed

lemma list_all_butlast: "list_all P xs \<Longrightarrow> list_all P (butlast xs)"
  by (auto simp: list_all_iff dest: in_set_butlastD)

lemma list_all_update: "list_all P xs \<Longrightarrow> P x \<Longrightarrow> list_all P (xs[i := x])"
  by (auto simp: list_all_iff dest!: set_update_subset_insert [THEN subsetD])

lemma dispatch_packet_ok:
  assumes f: "fd_dc f = b # bs" "list_all dc_raw (fd_dc f)" "cur_length b = 4" "cur_pos b = 4"
      "\<not> fd_fault f" "fd_read f = 0"
    and n: "dispatch_packet f = (f', ev)"
  shows "recv_ok f'"
proof -
  obtain ok g e where g: "network_dispatch f = (ok, g, e)" by (cases "network_dispatch f")
  note gr = network_dispatch_raw [OF f(1-4) g]
  have "dc_raw (fd_dc g ! (length (fd_dc g) - 1))"
    using gr by (auto simp: list_all_length)
  then have "list_all dc_raw (fd_dc f') \<and> fd_fault f' = fd_fault f \<and> fd_read f' = 0"
    using n g gr f(6) by (auto simp: dispatch_packet_def Let_def list_all_update list_all_butlast split: if_splits)
  then show ?thesis using f(5) by (simp add: recv_ok_def)
qed

lemma sint_small: "unat l < 2 ^ 31 \<Longrightarrow> sint l = int (unat l)" for l :: u32
proof -
  assume "unat l < 2 ^ 31"
  then have "int (unat l) < int (2 ^ 31)" by (simp only: of_nat_less_iff)
  then have "uint l < 2 ^ 31" by simp
  then have "signed_take_bit 31 (uint l) = uint l"
    by (intro signed_take_bit_int_eq_self) (simp_all add: order_trans [OF _ uint_ge_0])
  then show ?thesis by (simp add: sint_uint)
qed

lemma unat_of_nat_u64: "n < 2 ^ 31 \<Longrightarrow> unat (of_nat n :: u64) = n"
  by (simp add: unat_of_nat)

lemma scast_small:
  fixes l :: u32
  assumes "unat l < 2 ^ 31"
  shows "unat (scast l :: u64) = unat l"
  unfolding scast_eq sint_small [OF assms] of_int_of_nat_eq by (rule unat_of_nat_u64 [OF assms])

lemma recv_size_bound:
  assumes ok: "recv_ok f" and long: "4 \<le> fd_read f"
  shows "max_length (hd (fd_dc f)) \<le> ZFS_DC_SIZE \<Longrightarrow>
      unat (fd_read f) + recv_size f = unat (max_length (hd (fd_dc f)))"
    and "\<not> max_length (hd (fd_dc f)) \<le> ZFS_DC_SIZE \<Longrightarrow> fd_read f < 12 \<Longrightarrow> unat (fd_read f) + recv_size f = 12"
    and "\<not> max_length (hd (fd_dc f)) \<le> ZFS_DC_SIZE \<Longrightarrow> \<not> fd_read f < 12 \<Longrightarrow>
      recv_size f \<le> unat ZFS_MAXDATA \<and> unat (fd_read f) + recv_size f \<le> unat (max_length (hd (fd_dc f)))"
proof -
  let ?m = "max_length (hd (fd_dc f))"
  have m: "fd_read f \<le> ?m" "unat ?m < 2 ^ 31" using ok long by (auto simp: recv_ok_def)
  have l4: "\<not> fd_read f < 4" using long by simp
  have sub: "unat (?m - fd_read f) = unat ?m - unat (fd_read f)" "unat (fd_read f) \<le> unat ?m"
    using m(1) by (simp_all add: unat_sub word_le_nat_alt)
  show "?m \<le> ZFS_DC_SIZE \<Longrightarrow> unat (fd_read f) + recv_size f = unat ?m"
    using sub l4 by (simp add: recv_size_def)
  show "\<not> ?m \<le> ZFS_DC_SIZE \<Longrightarrow> fd_read f < 12 \<Longrightarrow> unat (fd_read f) + recv_size f = 12"
    using l4 by (simp add: recv_size_def unat_sub word_le_nat_alt word_less_nat_alt)
  let ?l = "?m - fd_read f"
  have small: "unat ?l < 2 ^ 31" using sub m(2) by simp
  note sint = sint_small [OF small]
  show "recv_size f \<le> unat ZFS_MAXDATA \<and> unat (fd_read f) + recv_size f \<le> unat ?m"
    if "\<not> ?m \<le> ZFS_DC_SIZE" "\<not> fd_read f < 12"
  proof -
    let ?l' = "if sint ?l > sint ZFS_MAXDATA then ZFS_MAXDATA else ?l"
    have max: "unat ZFS_MAXDATA < 2 ^ 31" by (simp add: ZFS_MAXDATA_def)
    have "sint ?l > sint ZFS_MAXDATA \<longleftrightarrow> unat ?l > unat ZFS_MAXDATA"
      unfolding sint sint_small [OF max] by (rule of_nat_less_iff)
    then have "unat ?l' \<le> unat ZFS_MAXDATA" "unat ?l' \<le> unat ?l"
      by auto
    moreover have "unat (scast ?l' :: u64) = unat ?l'"
      using calculation by (intro scast_small) (simp add: ZFS_MAXDATA_def)
    ultimately show ?thesis
      using that l4 sub by (simp add: recv_size_def Let_def)
  qed
qed

text \<open>The bytes of the header, and the bytes after it.\<close>

lemma recv_header_in_bounds:
  assumes ok: "recv_ok f" and bs: "bs \<noteq> []" "length bs \<le> recv_size f"
    and recv: "net_recv new_dc bs f = (f', ev)"
    and new: "dc_raw new_dc" and short: "fd_read f < 4"
    and header: "fd_read f < 4 \<Longrightarrow> fd_read f' = 4 \<Longrightarrow>
      4 \<le> max_length (hd (fd_dc f')) \<and> unat (max_length (hd (fd_dc f'))) < 2 ^ 31"
  shows "recv_ok f'"
proof -
  let ?f = "if fd_dc f = [] then f\<lparr>fd_dc := [new_dc]\<rparr> else f"
  let ?b = "dc_store (unat (fd_read f)) bs (hd (fd_dc ?f))"
  let ?n = "fd_read f + of_nat (length bs)"
  have len: "unat (fd_read f) + length bs \<le> 4"
    using short bs(2) by (simp add: recv_size_def unat_sub word_le_nat_alt word_less_nat_alt)
  have raw: "list_all dc_raw (fd_dc ?f)" "fd_dc ?f \<noteq> []" using ok new by (auto simp: recv_ok_def)
  then have b: "dc_raw ?b"
    using len by (auto simp: dc_store_def dc_raw_def length_blit neq_Nil_conv)
  have f': "(f', ev) = (if ?n = 4 then (?f\<lparr>fd_dc := snd (start_decoding ?b) # tl (fd_dc ?f), fd_read := 4\<rparr>, [])
      else (?f\<lparr>fd_dc := ?b # tl (fd_dc ?f), fd_read := ?n\<rparr>, []))"
    using recv short bs(1) raw(2) by (auto simp: net_recv_def recv_store_def Let_def neq_Nil_conv)
  have n: "?n = 4 \<or> ?n < 4"
    using le_less [of "unat (fd_read f) + length bs" 4] len
    by (auto simp: word_less_nat_alt word_unat_eq_iff unat_word_ariths unat_of_nat)
  have tl: "list_all dc_raw (tl (fd_dc ?f))" using raw by (cases "fd_dc ?f") auto
  show ?thesis
  proof (cases "?n = 4")
    case four: True
    have "dc_raw (snd (start_decoding ?b))" "cur_length (snd (start_decoding ?b)) = 4" "cur_pos (snd (start_decoding ?b)) = 4"
      using start_decoding_eq [OF b] b by (simp_all add: dc_seek_def)
    then show ?thesis
      using f' four header [OF short] tl ok by (auto simp: recv_ok_def)
  next
    case False
    then show ?thesis using f' n b tl ok by (auto simp: recv_ok_def)
  qed
qed

lemma recv_body_in_bounds:
  assumes ok: "recv_ok f" and bs: "bs \<noteq> []" "length bs \<le> recv_size f"
    and recv: "net_recv new_dc bs f = (f', ev)"
    and long: "4 \<le> fd_read f"
  shows "recv_ok f'"
proof -
  let ?m = "max_length (hd (fd_dc f))"
  obtain b ds where f: "fd_dc f = b # ds" "dc_raw b" "list_all dc_raw ds" "cur_length b = 4" "cur_pos b = 4"
      "\<not> fd_fault f" "unat (max_length b) < 2 ^ 31"
    using ok long by (cases "fd_dc f") (auto simp: recv_ok_def)
  define g where "g = (if ?m \<le> ZFS_DC_SIZE \<or> fd_read f < 12 then recv_store bs f
      else f\<lparr>fd_fault := (fd_fault f \<or> length bs > unat ZFS_MAXDATA)\<rparr>)"
  note size = recv_size_bound [OF ok long]
  have "unat (fd_read f) + length bs \<le> 8888" if "?m \<le> ZFS_DC_SIZE \<or> fd_read f < 12"
    using size bs(2) that by (cases "?m \<le> ZFS_DC_SIZE") (auto simp: word_le_nat_alt)
  then have "\<exists>b'. fd_dc g = b' # ds \<and> dc_raw b' \<and> cur_length b' = 4 \<and> cur_pos b' = 4
      \<and> max_length b' = max_length b \<and> \<not> fd_fault g \<and> fd_read g = fd_read f"
    using f size(3) bs(2)
    by (cases "?m \<le> ZFS_DC_SIZE \<or> fd_read f < 12") (auto simp: g_def recv_store_def dc_store_def dc_raw_def length_blit)
  then obtain b' where g: "fd_dc g = b' # ds" "dc_raw b'" "cur_length b' = 4" "cur_pos b' = 4"
      "max_length b' = max_length b" "\<not> fd_fault g" "fd_read g = fd_read f"
    by blast
  have total: "unat (fd_read f) + length bs \<le> unat (max_length b)"
    using size bs(2) f(1) by (cases "?m \<le> ZFS_DC_SIZE"; cases "fd_read f < 12") (auto simp: word_le_nat_alt)
  have n: "fd_read f + of_nat (length bs) \<le> max_length b"
    using total by (simp add: word_le_nat_alt unat_word_ariths unat_of_nat)
  have eq: "net_recv new_dc bs f =
      (if max_length (hd (fd_dc g)) = fd_read g + of_nat (length bs) then dispatch_packet (g\<lparr>fd_read := 0\<rparr>)
       else (g\<lparr>fd_read := fd_read g + of_nat (length bs)\<rparr>, []))"
    using long bs(1) by (simp add: linorder_not_less [symmetric] net_recv_def g_def Let_def)
  show ?thesis
  proof (cases "max_length b = fd_read f + of_nat (length bs)")
    case True
    then have "dispatch_packet (g\<lparr>fd_read := 0\<rparr>) = (f', ev)"
      using recv eq g by simp
    then show ?thesis
      by (rule dispatch_packet_ok [rotated -1]) (use g f(3) in simp_all)
  next
    case False
    then have "f' = g\<lparr>fd_read := fd_read f + of_nat (length bs)\<rparr>"
      using recv eq g by simp
    then show ?thesis
      using g f n by (simp add: recv_ok_def)
  qed
qed

text \<open>
  C5. The receiver stays inside its buffers as long as the length in the header of a packet counts
  the header itself and is less than \<^verbatim>\<open>2^31\<close>: whatever \<^verbatim>\<open>read\<close> returns, within the size that
  was asked for, no byte is stored past the end of a buffer or of \<^verbatim>\<open>dummy\<close>, also for packets that
  are too long for a buffer.
\<close>

theorem recv_in_bounds:
  assumes ok: "recv_ok f" and new: "dc_raw new_dc" and bs: "bs \<noteq> []" "length bs \<le> recv_size f"
    and recv: "net_recv new_dc bs f = (f', ev)"
    and header: "fd_read f < 4 \<Longrightarrow> fd_read f' = 4 \<Longrightarrow>
      4 \<le> max_length (hd (fd_dc f')) \<and> unat (max_length (hd (fd_dc f'))) < 2 ^ 31"
  shows "recv_ok f'"
proof (cases "fd_read f < 4")
  case True
  then show ?thesis using recv_header_in_bounds [OF ok bs recv new _ header] by blast
next
  case False
  then show ?thesis using recv_body_in_bounds [OF ok bs recv] by simp
qed

text \<open>A header that arrives in one piece.\<close>

lemma recv_header:
  assumes f: "fd_read f = 0" "fd_dc f = b # bs" "dc_raw b" and h: "length h = 4"
  shows "recv_size f = 4" and "net_recv new_dc h f =
    (f\<lparr>fd_dc := (dc_seek 4 (b\<lparr>buffer := blit 0 h (buffer b)\<rparr>))\<lparr>max_length := le_word h\<rparr> # bs, fd_read := 4\<rparr>, [])"
proof -
  let ?b = "b\<lparr>buffer := blit 0 h (buffer b)\<rparr>"
  have raw: "dc_raw ?b" using f(3) h by (simp add: dc_raw_def length_blit)
  have "slice 0 4 (buffer ?b) = h" using h by (simp add: slice_def blit_def)
  then have "snd (start_decoding ?b) = (dc_seek 4 ?b)\<lparr>max_length := le_word h\<rparr>"
    using start_decoding_eq [OF raw] by simp
  moreover have "h \<noteq> []" "dc_store 0 h b = ?b"
    using h f(3) by (auto simp: dc_store_def dc_raw_def)
  ultimately show "net_recv new_dc h f =
    (f\<lparr>fd_dc := (dc_seek 4 ?b)\<lparr>max_length := le_word h\<rparr> # bs, fd_read := 4\<rparr>, [])"
    using f h by (simp add: net_recv_def recv_store_def)
  show "recv_size f = 4" using f(1) by (simp add: recv_size_def)
qed

lemma sample_fd_simps: "fd_read sample_fd = 0" "fd_dc sample_fd = [sample_dc]" "\<not> fd_fault sample_fd"
    "fd_sid sample_fd = 2" "fd_generation sample_fd = 1" "fd_fd sample_fd = 5"
    "fd_auth sample_fd = AUTHENTICATION_FINISHED" "map_of (fd_waiting4reply sample_fd) 7 = Some 3"
  by (simp_all add: sample_fd_def)

text \<open>
  C6. No lower limit of the length is checked. A header that announces fewer than the four bytes of the length itself makes the size
  that is asked for wrap around to more than \<^verbatim>\<open>2^32 - 5\<close>, so that the next read takes whatever the peer sends: if it delivers
  more than the 8884 bytes that are left of the buffer, the buffer of the packet is overrun. This holds in every state in which
  the connection waits for a packet.
\<close>

theorem short_length_overflow:
  assumes f: "fd_idle f" and h: "length h = 4" "le_word h < (4 :: u32)" and bs: "8884 < length bs" "length bs < 2 ^ 32 - 4"
  shows "\<exists>f' ev. recv_all new_dc [h, bs] f = Some (f', ev) \<and> fault (hd (fd_dc f'))"
proof -
  obtain b ds where b: "fd_read f = 0" "fd_dc f = b # ds" "dc_raw b" using f by (cases "fd_dc f") (auto simp: fd_idle_def)
  let ?b = "(dc_seek 4 (b\<lparr>buffer := blit 0 h (buffer b)\<rparr>))\<lparr>max_length := le_word h\<rparr>"
  let ?f = "f\<lparr>fd_dc := ?b # ds, fd_read := 4\<rparr>"
  note hdr = recv_header [OF b h(1)]
  have small: "le_word h \<le> (ZFS_DC_SIZE :: u32)" using h(2) by (simp add: word_le_nat_alt word_less_nat_alt)
  have "unat (le_word h - 4 :: u32) = unat (le_word h :: u32) + (2 ^ 32 - 4)"
    using h(2) by (subst unat_sub_if') (simp add: word_less_nat_alt)
  then have "length bs \<le> recv_size ?f" using bs(2) small by (simp add: recv_size_def)
  moreover have "dc_store 4 bs ?b = ?b\<lparr>fault := True\<rparr>"
    using b(3) h(1) bs(1) by (simp add: dc_store_def dc_raw_def length_blit)
  moreover have "unat (4 + of_nat (length bs) :: u32) = 4 + length bs"
    using bs(2) by (simp add: unat_word_ariths unat_of_nat)
  then have "le_word h \<noteq> (4 + of_nat (length bs) :: u32)" using h(2) by (auto simp: word_less_nat_alt)
  moreover have "bs \<noteq> []" using bs(1) by auto
  ultimately have "length bs \<le> recv_size ?f" "bs \<noteq> []"
      "net_recv new_dc bs ?f = (?f\<lparr>fd_dc := ?b\<lparr>fault := True\<rparr> # ds, fd_read := 4 + of_nat (length bs)\<rparr>, [])"
    using small by (simp_all add: net_recv_def recv_store_def)
  then show ?thesis using hdr(1) hdr(2) [of new_dc] h(1) by auto
qed

lemma sint_large:
  fixes l :: u32
  assumes "2 ^ 31 \<le> unat l"
  shows "sint l = int (unat l) - 2 ^ 32"
proof -
  have "int (2 ^ 31) \<le> int (unat l)" using assms by (simp only: of_nat_le_iff)
  then have l: "2 ^ 31 \<le> uint l" "uint l < 2 ^ 32" using uint_lt2p [of l] by simp_all
  then have "uint l div 2 ^ 31 = 1" by (intro div_pos_geq [THEN trans]) simp_all
  then have "bit (uint l) 31" by (simp add: bit_iff_odd)
  moreover have "take_bit 32 (uint l) = uint l" using l by (intro take_bit_int_eq_self) simp_all
  ultimately show ?thesis by (simp add: sint_uint signed_take_bit_eq_take_bit_minus)
qed

lemma unat_u32: "unat l < 2 ^ 32" for l :: u32
  using unsigned_less [of l] by simp

lemma scast_large:
  fixes l :: u32
  assumes "2 ^ 31 \<le> unat l"
  shows "unat (scast l :: u64) = unat l + (2 ^ 64 - 2 ^ 32)"
proof -
  have "scast l = (of_nat (unat l + (2 ^ 64 - 2 ^ 32)) :: u64)"
    unfolding scast_eq sint_large [OF assms] by simp
  moreover have "unat l + (2 ^ 64 - 2 ^ 32) < 2 ^ 64" using unat_u32 [of l] by simp
  ultimately show ?thesis by (simp only: unat_of_nat) simp
qed

text \<open>
  C7. No upper limit of the length is checked. In every state in which the connection waits for a packet, a header that announces
  at least \<^verbatim>\<open>2^31 + 12\<close> bytes, followed by the eight bytes that are still stored in the buffer, makes
  the \<^verbatim>\<open>int\<close> that holds the size of the rest negative. It is then not limited to \<^verbatim>\<open>ZFS_MAXDATA\<close>, the size of the array
  \<^verbatim>\<open>dummy\<close>, and the count that \<^verbatim>\<open>read\<close> is asked for is at least \<^verbatim>\<open>2^64 - 2^31\<close> bytes.
\<close>

theorem long_length_not_limited:
  assumes f: "fd_idle f" and h: "length h = 4" "2 ^ 31 + 12 \<le> unat (le_word h :: u32)" and c: "length c = 8"
  shows "\<exists>f'. recv_all new_dc [h, c] f = Some (f', []) \<and> recv_size f' = unat (le_word h :: u32) - 12 + (2 ^ 64 - 2 ^ 32)
    \<and> unat ZFS_MAXDATA < recv_size f'"
proof -
  obtain b ds where b: "fd_read f = 0" "fd_dc f = b # ds" "dc_raw b" using f by (cases "fd_dc f") (auto simp: fd_idle_def)
  let ?L = "le_word h :: u32"
  let ?b = "(dc_seek 4 (b\<lparr>buffer := blit 0 h (buffer b)\<rparr>))\<lparr>max_length := ?L\<rparr>"
  let ?f = "f\<lparr>fd_dc := ?b # ds, fd_read := 4\<rparr>"
  let ?f' = "f\<lparr>fd_dc := ?b\<lparr>buffer := blit 4 c (buffer ?b)\<rparr> # ds, fd_read := 12\<rparr>"
  note hdr = recv_header [OF b h(1)]
  have long: "\<not> ?L \<le> ZFS_DC_SIZE" "?L \<noteq> 12" using h(2) by (auto simp: word_le_nat_alt)
  have l: "unat (?L - 12) = unat ?L - 12" using h(2) by (subst unat_sub) (simp_all add: word_le_nat_alt)
  then have neg: "2 ^ 31 \<le> unat (?L - 12)" using h(2) by simp
  have "\<not> sint (?L - 12) > sint ZFS_MAXDATA"
    using sint_large [OF neg] uint_lt2p [of "?L - 12"] by (simp add: ZFS_MAXDATA_def)
  then have size': "recv_size ?f' = unat ?L - 12 + (2 ^ 64 - 2 ^ 32)"
    using long(1) scast_large [OF neg] l by (simp add: recv_size_def)
  have size: "recv_size ?f = 8" using long(1) by (simp add: recv_size_def)
  have "c \<noteq> []" "dc_store 4 c ?b = ?b\<lparr>buffer := blit 4 c (buffer ?b)\<rparr>"
    using b(3) h(1) c by (auto simp: dc_store_def dc_raw_def length_blit)
  then have "net_recv new_dc c ?f = (?f', [])"
    using c long by (simp add: net_recv_def recv_store_def)
  then have "recv_all new_dc [h, c] f = Some (?f', [])"
    using hdr(1) hdr(2) [of new_dc] size h(1) c \<open>c \<noteq> []\<close> by auto
  then show ?thesis using size' by (intro exI [of _ ?f']) (simp add: ZFS_MAXDATA_def)
qed

section \<open>Instances\<close>

definition sample_worker :: "authentication_status \<Rightarrow> nat worker" where
  "sample_worker a = \<lparr>w_fd = sample_fd\<lparr>fd_auth := a\<rparr>, w_stats = (\<lambda>_. 0), w_sent = [], w_rest = 0\<rparr>"

definition status_server :: "nat server" where
  "status_server c d w = (snd (encode_status ZFS_OK d), w)"

definition counting_server :: "nat server" where
  "counting_server c d w =
     (if c = ZFS_PROC_ROOT then (d, w\<lparr>w_rest := w_rest w + 1\<rparr>) else status_server c d w)"

theorem auth_required_witness:
  "network_worker status_server 1 DIR_REQUEST sample_dc (sample_worker AUTHENTICATION_NONE)
   = network_worker counting_server 1 DIR_REQUEST sample_dc (sample_worker AUTHENTICATION_NONE)"
proof (rule auth_required)
  fix c d and w' :: "nat worker"
  assume "proc_auth (call_proc c) \<le> fd_auth (w_fd (sample_worker AUTHENTICATION_NONE))"
  then have "c \<noteq> ZFS_PROC_ROOT"
    by (auto simp: sample_worker_def call_proc_def find_proc_def zfs_procs_def less_eq_authentication_status_def)
  then show "status_server c d w' = counting_server c d w'"
    by (simp add: counting_server_def)
qed

text \<open>A packet in two pieces.\<close>

lemma recv_two:
  assumes P: "is_packet P" and f: "fd_idle f"
  shows "\<exists>f' ev. recv_all new_dc [take 4 P, drop 4 P] f = Some (f', ev)"
proof -
  let ?b = "hd (fd_dc f)"
  have len: "4 < length P" using P by (simp add: is_packet_def)
  note inv = recv_inv_0 [OF P f]
  have size: "recv_size f = 4" using recv_size_inv [OF P inv] by simp
  have "\<exists>b'. net_recv new_dc (take 4 P) f = (f\<lparr>fd_dc := b' # tl (fd_dc f), fd_read := of_nat (0 + length (take 4 P))\<rparr>, [])
      \<and> recv_inv P (0 + length (take 4 P)) (f\<lparr>fd_dc := b' # tl (fd_dc f), fd_read := of_nat (0 + length (take 4 P))\<rparr>)
          b' (tl (fd_dc f))"
    using len size by (intro net_recv_more [OF P inv]) auto
  then obtain b' g where g: "net_recv new_dc (take 4 P) f = (g, [])" "recv_inv P 4 g b' (tl (fd_dc f))"
    using len by auto
  have size': "recv_size g = length P - 4" using recv_size_inv [OF P g(2)] by simp
  show ?thesis using size size' g(1) len by (auto split: prod.split)
qed

lemma sample_fd_idle: "fd_idle sample_fd"
  by (simp add: fd_idle_def sample_fd_simps dc_raw_sample)

theorem call_served_witness:
  "\<exists>d' f' ev q. client_1 7 (ZFS_PROC_GETATTR sample_fh) sample_dc = (ZFS_OK, d')
    \<and> recv_all sample_dc [take 4 (packet d'), drop 4 (packet d')] sample_fd = Some (f', ev)
    \<and> ev = [Job DIR_REQUEST 2 1 q]"
proof -
  let ?c = "ZFS_PROC_GETATTR sample_fh"
  have v: "valid_call ?c" by simp
  obtain status d' where call: "client_1 7 ?c sample_dc = (status, d')" by (cases "client_1 7 ?c sample_dc")
  obtain f' ev where recv: "recv_all sample_dc [take 4 (packet d'), drop 4 (packet d')] sample_fd = Some (f', ev)"
    using recv_two [OF client_packet [OF v dc_raw_sample call] sample_fd_idle] by blast
  have auth: "proc_auth (call_proc ?c) \<le> fd_auth (w_fd (sample_worker AUTHENTICATION_FINISHED))"
    by (simp add: sample_worker_def call_proc_def find_proc_def zfs_procs_def)
  have mode: "proc_mode (call_proc ?c) = DIR_REQUEST"
    by (simp add: call_proc_def find_proc_def zfs_procs_def)
  show ?thesis
    using call_served [OF v dc_raw_sample call sample_fd_idle _ recv auth, where serve = status_server and gen = 1]
      call recv mode by (auto simp: sample_fd_simps)
qed

theorem reply_wakes_caller_witness:
  "\<exists>P f' ev q. w_sent (snd (run_call status_server 1 7 0 (call_proc ZFS_PROC_NULL) ZFS_PROC_NULL sample_dc
        (sample_worker AUTHENTICATION_NONE))) = [P]
    \<and> recv_all sample_dc [take 4 P, drop 4 P] sample_fd = Some (f', ev)
    \<and> ev = [Wake 3 None (Some q)] \<and> fst (decode_status q) = Some ZFS_OK"
proof -
  let ?w = "sample_worker AUTHENTICATION_NONE"
  let ?d = "snd (finish_encoding (snd (encode_status ZFS_OK (reply_header 7 sample_dc))))"
  have rt: "roundtrips (encode_status ZFS_OK) decode_status ZFS_OK"
    by (rule status.enc_dec) simp
  have fits: "enc_fits 1 8 (encode_status ZFS_OK)"
    unfolding fits_unfold by (rule fits_rules)
  have mode: "proc_mode (call_proc ZFS_PROC_NULL) = DIR_REQUEST"
    by (simp add: call_proc_def find_proc_def zfs_procs_def)
  let ?w1 = "?w\<lparr>w_stats := (w_stats ?w)(0 := w_stats ?w 0 + 1)\<rparr>"
  have serve: "status_server ZFS_PROC_NULL (reply_header 7 sample_dc) ?w1
      = (snd (encode_status ZFS_OK (reply_header 7 sample_dc)), ?w1)"
    by (simp add: status_server_def)
  have conn: "fd_fd (w_fd ?w1) \<ge> 0" "fd_generation (w_fd ?w1) = 1"
    by (simp_all add: sample_worker_def sample_fd_simps)
  have run: "run_call status_server 1 7 0 (call_proc ZFS_PROC_NULL) ZFS_PROC_NULL sample_dc ?w
      = (?d, ?w1\<lparr>w_sent := [packet ?d]\<rparr>)"
    using mode serve conn
    by (simp add: run_call_def reply_header_def send_reply_def Let_def sample_worker_def sample_fd_simps)
  have P: "is_packet (packet ?d)"
    by (rule reply_packet(1) [OF rt fits _ dc_raw_sample]) simp
  obtain f' ev where recv: "recv_all sample_dc [take 4 (packet ?d), drop 4 (packet ?d)] sample_fd = Some (f', ev)"
    using recv_two [OF P sample_fd_idle] by blast
  have cs: "concat [take 4 (packet ?d), drop 4 (packet ?d)] = last (w_sent (?w1\<lparr>w_sent := [packet ?d]\<rparr>))"
    by simp
  obtain q q' where q: "ev = [Wake 3 None (Some q)]" "decode_status q = (Some ZFS_OK, q')"
    using reply_wakes_caller [OF rt fits _ dc_raw_sample mode serve conn run sample_fd_idle sample_fd_simps(8) cs recv]
    by auto
  then show ?thesis
    using run recv
    by (intro exI [of _ "packet ?d"] exI [of _ f'] exI [of _ ev] exI [of _ q]) (simp del: recv_all.simps)
qed

lemma quiet_status_server: "quiet_server status_server"
  by (simp add: quiet_server_def status_server_def encode_status_appended)

text \<open>A received packet of 16 bytes, all zero after its length: the request 0 for the procedure 0, without arguments.\<close>

definition null_request :: dc where
  "null_request = sample_dc\<lparr>cur_length := 4, cur_pos := 4, max_length := 16\<rparr>"

lemma buffer_sample: "buffer sample_dc = replicate 8888 0"
  by (simp add: sample_dc_def dc_create_def)

lemma zeros: "nat_of_bytes (replicate n 0) = 0"
  by (induction n) simp_all

lemma null_request:
  "decode_direction null_request = (Some DIR_REQUEST, dc_seek 5 null_request)"
  "fst (decode_request_id (dc_seek 5 null_request)) = Some 0"
  by (simp_all add: null_request_def buffer_sample dc_seek_def DIR_LAST_AND_UNUSED_def direction_of_num_def le_word_def decode_direction_def decode_uchar_def dec_bind_def dec_fail_def dec_return_def
      decode_request_id_def decode_uint32_t_def DECODE_SIMPLE_TYPE_def ALIGN_1_def ALIGN_4_def dc_load_def slice_def Let_def zeros)

theorem one_reply_witness:
  "\<exists>P. w_sent (network_worker status_server 1 DIR_REQUEST (dc_seek 5 null_request) (sample_worker AUTHENTICATION_NONE)) = [P] \<and> is_reply 0 P"
proof -
  have "dc_raw null_request" "cur_length null_request = 4" "cur_pos null_request = 4"
    using dc_raw_sample by (simp_all add: null_request_def)
  from one_reply [OF quiet_status_server _ _ this null_request(1), of "sample_worker AUTHENTICATION_NONE" 1]
  show ?thesis by (simp add: null_request(2) sample_worker_def sample_fd_simps)
qed

theorem short_length_overflow_witness:
  "\<exists>f' ev. recv_all sample_dc [[3, 0, 0, 0], replicate 8885 0] sample_fd = Some (f', ev) \<and> fault (hd (fd_dc f'))"
  by (rule short_length_overflow [OF sample_fd_idle]) (simp_all add: le_word_def)

theorem long_length_not_limited_witness:
  "\<exists>f'. recv_all sample_dc [[255, 255, 255, 255], replicate 8 0] sample_fd = Some (f', []) \<and> recv_size f' = 18446744073709551603"
  using long_length_not_limited [OF sample_fd_idle, of "[255, 255, 255, 255]" "replicate 8 0" sample_dc]
  by (auto simp: le_word_def simp del: recv_all.simps)

theorem recv_in_bounds_witness:
  "recv_ok sample_fd \<and> recv_ok (fst (net_recv sample_dc [16, 0, 0, 0] sample_fd))"
proof -
  let ?h = "[16, 0, 0, 0] :: u8 list"
  have "length ?h = 4" by simp
  note hdr = recv_header [OF sample_fd_simps(1,2) dc_raw_sample this]
  have h: "le_word ?h = (16 :: u32)" by (simp add: le_word_def)
  have ok: "recv_ok sample_fd" by (simp add: recv_ok_def sample_fd_simps dc_raw_sample)
  have "recv_ok (sample_fd\<lparr>fd_dc := [(dc_seek 4 (sample_dc\<lparr>buffer := blit 0 ?h (buffer sample_dc)\<rparr>))\<lparr>max_length := le_word ?h\<rparr>],
      fd_read := 4\<rparr>)"
    by (rule recv_in_bounds [OF ok dc_raw_sample _ _ hdr(2)]) (simp_all add: hdr(1) h)
  then show ?thesis using ok hdr(2) by simp
qed

end
