(* ===== verification/Splay_Tree.thy ===== *)
theory Splay_Tree
  imports Zfs_Prelude "HOL-Library.Tree" "HOL-Library.Multiset"
begin

text \<open>
  The splay tree of \<^verbatim>\<open>lib/splay-tree\<close>: an ordered map from 64-bit keys to 64-bit values. A subtree is a
  value of the library type of binary trees, with \<^const>\<open>Leaf\<close> for the null pointer; a node is its
  pair of key and value.

  The C function \<^verbatim>\<open>splay_tree_splay_helper\<close> goes down to the key and, on the way back, moves the node it has
  found up two levels at a time through the pointers to its parent and grandparent. \<open>splay_up\<close> is
  the work of the calls for one subtree: the second component of its result says whether the node is
  at the root of the subtree or one level below it, where the call for the parent has to leave it
  to the call for the grandparent. At the root of the whole tree one single rotation remains.

  The theorems show that the tree implements a map that is sorted by its keys, the contract of the
  locale \<open>ordered_map\<close>, on which the interval tree relies.
\<close>

section \<open>Trees\<close>

type_synonym st_node = "u64 \<times> u64"
type_synonym st_tree = "st_node tree"

text \<open>
  \<open>sp_delete_value\<close> says whether the tree has a function to release values, and \<open>sp_released\<close>
  lists the values it has been called with.
\<close>

record splay_tree =
  sp_root :: st_tree
  sp_delete_value :: bool
  sp_released :: "u64 list"

definition release :: "u64 \<Rightarrow> splay_tree \<Rightarrow> splay_tree" where
  "release v sp = (if sp_delete_value sp then sp\<lparr>sp_released := sp_released sp @ [v]\<rparr> else sp)"

primrec splay_tree_destroy_helper :: "st_tree \<Rightarrow> splay_tree \<Rightarrow> splay_tree" where
  "splay_tree_destroy_helper Leaf sp = sp"
| "splay_tree_destroy_helper (Node l n r) sp =
     release (snd n) (splay_tree_destroy_helper r (splay_tree_destroy_helper l sp))"


section \<open>Splaying\<close>

fun zig :: "u64 \<Rightarrow> st_tree \<Rightarrow> st_tree" where
  "zig key (Node l p r) =
     (if key < fst p then
        (case l of Node a n b \<Rightarrow> Node a n (Node b p r) | Leaf \<Rightarrow> Node l p r)
      else
        (case r of Node b n c \<Rightarrow> Node (Node l p b) n c | Leaf \<Rightarrow> Node l p r))"
| "zig key Leaf = Leaf"

text \<open>
  The two double rotations for a grandparent \<open>g\<close> whose left child \<open>p\<close> has the node as a child, and the
  two for a right child.
\<close>

fun rotate_left_child :: "u64 \<Rightarrow> st_tree \<Rightarrow> st_node \<Rightarrow> st_tree \<Rightarrow> st_tree" where
  "rotate_left_child key (Node l p r) g d =
     (if key < fst p then
        (case l of Node a n b \<Rightarrow> Node a n (Node b p (Node r g d)) | Leaf \<Rightarrow> Node (Node l p r) g d)
      else
        (case r of Node b n c \<Rightarrow> Node (Node l p b) n (Node c g d) | Leaf \<Rightarrow> Node (Node l p r) g d))"
| "rotate_left_child key Leaf g d = Node Leaf g d"

fun rotate_right_child :: "u64 \<Rightarrow> st_tree \<Rightarrow> st_node \<Rightarrow> st_tree \<Rightarrow> st_tree" where
  "rotate_right_child key a g (Node l p r) =
     (if key < fst p then
        (case l of Node b n c \<Rightarrow> Node (Node a g b) n (Node c p r) | Leaf \<Rightarrow> Node a g (Node l p r))
      else
        (case r of Node c n d \<Rightarrow> Node (Node (Node a g l) p c) n d | Leaf \<Rightarrow> Node a g (Node l p r)))"
| "rotate_right_child key a g Leaf = Node a g Leaf"

fun splay_up :: "u64 \<Rightarrow> st_tree \<Rightarrow> st_tree \<times> bool" where
  "splay_up key Leaf = (Leaf, False)"
| "splay_up key (Node l n r) =
     (if key = fst n then (Node l n r, False)
      else if key < fst n then
        if l = Leaf then (Node l n r, False)
        else
          let (l', below) = splay_up key l
          in if below then (rotate_left_child key l' n r, False) else (Node l' n r, True)
      else
        if r = Leaf then (Node l n r, False)
        else
          let (r', below) = splay_up key r
          in if below then (rotate_right_child key l n r', False) else (Node l n r', True))"

definition splay_tree_splay :: "u64 \<Rightarrow> splay_tree \<Rightarrow> splay_tree" where
  "splay_tree_splay key sp =
     (if sp_root sp = Leaf then sp
      else let (t, below) = splay_up key (sp_root sp)
           in sp\<lparr>sp_root := (if below then zig key t else t)\<rparr>)"


section \<open>Operations\<close>

definition splay_tree_create :: "bool \<Rightarrow> splay_tree" where
  "splay_tree_create delete_value = \<lparr>sp_root = Leaf, sp_delete_value = delete_value, sp_released = []\<rparr>"

definition splay_tree_destroy :: "splay_tree \<Rightarrow> u64 list" where
  "splay_tree_destroy sp = sp_released (splay_tree_destroy_helper (sp_root sp) sp)"

definition splay_tree_empty :: "splay_tree \<Rightarrow> splay_tree" where
  "splay_tree_empty sp = (splay_tree_destroy_helper (sp_root sp) sp)\<lparr>sp_root := Leaf\<rparr>"

definition splay_tree_insert :: "u64 \<Rightarrow> u64 \<Rightarrow> splay_tree \<Rightarrow> splay_tree" where
  "splay_tree_insert key val sp =
     (let sp = splay_tree_splay key sp
      in case sp_root sp of
           Leaf \<Rightarrow> sp\<lparr>sp_root := Node Leaf (key, val) Leaf\<rparr>
         | Node l n r \<Rightarrow>
             if fst n = key then (release (snd n) sp)\<lparr>sp_root := Node l (key, val) r\<rparr>
             else if fst n < key then sp\<lparr>sp_root := Node (Node l n Leaf) (key, val) r\<rparr>
             else sp\<lparr>sp_root := Node l (key, val) (Node Leaf n r)\<rparr>)"

text \<open>Hang \<open>t\<close> off the rightmost node.\<close>

fun append_right :: "st_tree \<Rightarrow> st_tree \<Rightarrow> st_tree" where
  "append_right Leaf t = t"
| "append_right (Node l n r) t = Node l n (append_right r t)"

definition splay_tree_delete :: "u64 \<Rightarrow> splay_tree \<Rightarrow> splay_tree" where
  "splay_tree_delete key sp =
     (let sp = splay_tree_splay key sp
      in case sp_root sp of
           Leaf \<Rightarrow> sp
         | Node l n r \<Rightarrow>
             if fst n = key
             then (release (snd n) sp)\<lparr>sp_root := (if l \<noteq> Leaf then (if r \<noteq> Leaf then append_right l r else l) else r)\<rparr>
             else sp)"

definition splay_tree_lookup :: "u64 \<Rightarrow> splay_tree \<Rightarrow> st_node option \<times> splay_tree" where
  "splay_tree_lookup key sp =
     (let sp = splay_tree_splay key sp
      in case sp_root sp of
           Leaf \<Rightarrow> (None, sp)
         | Node l n r \<Rightarrow> (if fst n = key then Some n else None, sp))"

fun rightmost :: "st_tree \<Rightarrow> st_node option" where
  "rightmost Leaf = None"
| "rightmost (Node l n r) = (if r = Leaf then Some n else rightmost r)"

fun leftmost :: "st_tree \<Rightarrow> st_node option" where
  "leftmost Leaf = None"
| "leftmost (Node l n r) = (if l = Leaf then Some n else leftmost l)"

definition splay_tree_max :: "splay_tree \<Rightarrow> st_node option" where
  "splay_tree_max sp = rightmost (sp_root sp)"

definition splay_tree_min :: "splay_tree \<Rightarrow> st_node option" where
  "splay_tree_min sp = leftmost (sp_root sp)"

definition splay_tree_predecessor :: "u64 \<Rightarrow> splay_tree \<Rightarrow> st_node option \<times> splay_tree" where
  "splay_tree_predecessor key sp =
     (if sp_root sp = Leaf then (None, sp)
      else
        let sp = splay_tree_splay key sp
        in case sp_root sp of
             Leaf \<Rightarrow> (None, sp)
           | Node l n r \<Rightarrow> (if fst n < key then Some n else rightmost l, sp))"

definition splay_tree_successor :: "u64 \<Rightarrow> splay_tree \<Rightarrow> st_node option \<times> splay_tree" where
  "splay_tree_successor key sp =
     (if sp_root sp = Leaf then (None, sp)
      else
        let sp = splay_tree_splay key sp
        in case sp_root sp of
             Leaf \<Rightarrow> (None, sp)
           | Node l n r \<Rightarrow> (if fst n > key then Some n else leftmost r, sp))"

text \<open>The callback may change a state \<open>s\<close>; a result that is not zero ends the traversal.\<close>

primrec splay_tree_foreach_helper :: "(st_node \<Rightarrow> 's \<Rightarrow> int \<times> 's) \<Rightarrow> st_tree \<Rightarrow> 's \<Rightarrow> int \<times> 's" where
  "splay_tree_foreach_helper fn Leaf s = (0, s)"
| "splay_tree_foreach_helper fn (Node l n r) s =
     (let (v, s) = splay_tree_foreach_helper fn l s
      in if v \<noteq> 0 then (v, s)
         else let (v, s) = fn n s in if v \<noteq> 0 then (v, s) else splay_tree_foreach_helper fn r s)"

definition splay_tree_foreach :: "(st_node \<Rightarrow> 's \<Rightarrow> int \<times> 's) \<Rightarrow> splay_tree \<Rightarrow> 's \<Rightarrow> int \<times> 's" where
  "splay_tree_foreach fn sp s = splay_tree_foreach_helper fn (sp_root sp) s"


section \<open>Splaying keeps the nodes\<close>

text \<open>The last node on the way down to a key.\<close>

fun path_end :: "u64 \<Rightarrow> st_tree \<Rightarrow> st_node" where
  "path_end key Leaf = (key, 0)"
| "path_end key (Node l n r) =
     (if key = fst n then n
      else if key < fst n then (if l = Leaf then n else path_end key l)
      else (if r = Leaf then n else path_end key r))"

definition has_root :: "st_node \<Rightarrow> st_tree \<Rightarrow> bool" where
  "has_root n t \<longleftrightarrow> (\<exists>l r. t = Node l n r)"

text \<open>Where \<open>splay_up\<close> leaves the node.\<close>

definition splayed :: "u64 \<Rightarrow> st_node \<Rightarrow> st_tree \<Rightarrow> bool \<Rightarrow> bool" where
  "splayed key n t below \<longleftrightarrow>
     (if below then \<exists>l p r. t = Node l p r \<and> key \<noteq> fst p \<and> has_root n (if key < fst p then l else r)
      else has_root n t)"

lemma splayed_False [simp]: "splayed key n t False = has_root n t"
  by (simp add: splayed_def)

lemma splayed_True [simp]:
  "splayed key n (Node l p r) True \<longleftrightarrow> key \<noteq> fst p \<and> has_root n (if key < fst p then l else r)"
  by (simp add: splayed_def)

lemma rotate_left_child:
  assumes "splayed key n t True"
  shows "inorder (rotate_left_child key t g d) = inorder t @ g # inorder d"
    and "has_root n (rotate_left_child key t g d)"
  using assms by (auto simp: splayed_def has_root_def split: if_splits)

lemma rotate_right_child:
  assumes "splayed key n t True"
  shows "inorder (rotate_right_child key a g t) = inorder a @ g # inorder t"
    and "has_root n (rotate_right_child key a g t)"
  using assms by (auto simp: splayed_def has_root_def split: if_splits)

lemma splay_up:
  assumes "t \<noteq> Leaf" "splay_up key t = (t', below)"
  shows "inorder t' = inorder t \<and> splayed key (path_end key t) t' below"
  using assms
proof (induction key t arbitrary: t' below rule: splay_up.induct)
  case (2 key l n r)
  consider "key = fst n" | "key < fst n" "l = Leaf" | "key < fst n" "l \<noteq> Leaf"
    | "\<not> key < fst n" "key \<noteq> fst n" "r = Leaf" | "\<not> key < fst n" "key \<noteq> fst n" "r \<noteq> Leaf" by blast
  then show ?case
  proof cases
    case 3
    obtain l' b where l': "splay_up key l = (l', b)" by fastforce
    then have "inorder l' = inorder l \<and> splayed key (path_end key l) l' b"
      using 2(1) 3 by simp
    then show ?thesis
      using 2(4) 3 l' rotate_left_child [of key "path_end key l" l' n r]
      by (cases b) (auto simp del: rotate_left_child.simps)
  next
    case 5
    obtain r' b where r': "splay_up key r = (r', b)" by fastforce
    then have "inorder r' = inorder r \<and> splayed key (path_end key r) r' b"
      using 2(2) 5 by simp
    then show ?thesis
      using 2(4) 5 r' rotate_right_child [of key "path_end key r" r' l n]
      by (cases b) (auto simp del: rotate_right_child.simps)
  qed (use 2(4) in \<open>auto simp: splayed_def has_root_def\<close>)
qed simp

lemma zig:
  assumes "splayed key n t True"
  shows "inorder (zig key t) = inorder t" and "has_root n (zig key t)"
  using assms by (auto simp: splayed_def has_root_def split: if_splits tree.splits)

lemma splay_tree_splay:
  assumes "sp_root sp \<noteq> Leaf"
  obtains l r where "sp_root (splay_tree_splay key sp) = Node l (path_end key (sp_root sp)) r"
    and "inorder l @ path_end key (sp_root sp) # inorder r = inorder (sp_root sp)"
proof -
  obtain t below where t: "splay_up key (sp_root sp) = (t, below)" by fastforce
  let ?n = "path_end key (sp_root sp)" and ?t = "sp_root (splay_tree_splay key sp)"
  have "inorder t = inorder (sp_root sp) \<and> splayed key ?n t below"
    using splay_up [OF assms t] .
  then have "inorder ?t = inorder (sp_root sp)" "has_root ?n ?t"
    using assms t zig [of key ?n t] by (cases below; simp add: splay_tree_splay_def)+
  then show thesis using that by (auto simp: has_root_def)
qed

lemma splay_tree_splay_other [simp]:
  "sp_delete_value (splay_tree_splay key sp) = sp_delete_value sp"
  "sp_released (splay_tree_splay key sp) = sp_released sp"
  "sp_root sp = Leaf \<Longrightarrow> splay_tree_splay key sp = sp"
  by (simp_all add: splay_tree_splay_def split: prod.split)

lemma release_simps [simp]:
  "sp_root (release v sp) = sp_root sp" "sp_delete_value (release v sp) = sp_delete_value sp"
  by (simp_all add: release_def)


section \<open>Sorted lists of nodes\<close>

text \<open>The nodes in order, and the map they stand for.\<close>

definition nodes :: "splay_tree \<Rightarrow> st_node list" where
  "nodes sp = inorder (sp_root sp)"

definition ordered :: "st_node list \<Rightarrow> bool" where
  "ordered ns \<longleftrightarrow> sorted_wrt (<) (map fst ns)"

definition sp_inv :: "splay_tree \<Rightarrow> bool" where
  "sp_inv sp \<longleftrightarrow> ordered (nodes sp)"

definition sp_map :: "splay_tree \<Rightarrow> u64 \<rightharpoonup> u64" where
  "sp_map sp = map_of (nodes sp)"

lemma ordered_simps [simp]:
  "ordered []"
  "ordered (n # ns) \<longleftrightarrow> (\<forall>m \<in> set ns. fst n < fst m) \<and> ordered ns"
  "ordered (ns @ ms) \<longleftrightarrow> ordered ns \<and> ordered ms \<and> (\<forall>n \<in> set ns. \<forall>m \<in> set ms. fst n < fst m)"
  by (auto simp: ordered_def sorted_wrt_append)

lemma ordered_distinct: "ordered ns \<Longrightarrow> distinct (map fst ns)"
  by (induction ns) (auto simp: image_iff)

lemma map_of_ordered: "ordered ns \<Longrightarrow> map_of ns k = Some v \<longleftrightarrow> (k, v) \<in> set ns"
  by (simp add: ordered_distinct)

lemma map_of_None_iff: "map_of ns k = None \<longleftrightarrow> (\<forall>n \<in> set ns. fst n \<noteq> k)"
  by (auto simp: map_of_eq_None_iff image_iff)

text \<open>In a sorted tree the way down ends at the key or at one of its neighbours.\<close>

definition neighbour :: "u64 \<Rightarrow> st_node \<Rightarrow> st_node list \<Rightarrow> bool" where
  "neighbour key n ns \<longleftrightarrow> n \<in> set ns \<and> ((\<exists>m \<in> set ns. fst m = key) \<longrightarrow> fst n = key)
     \<and> (\<forall>m \<in> set ns. (fst n < key \<longrightarrow> fst m \<le> fst n \<or> key < fst m) \<and> (key < fst n \<longrightarrow> fst n \<le> fst m \<or> fst m < key))"

lemma neighbour_left:
  assumes "neighbour key m ns" "key < fst n" "\<forall>x \<in> set ns. fst x < fst n" "\<forall>x \<in> set ms. fst n < fst x"
  shows "neighbour key m (ns @ n # ms)"
proof -
  have m: "m \<in> set ns" "fst m < fst n" using assms by (auto simp: neighbour_def)
  have all: "\<forall>x \<in> set (n # ms). fst x \<noteq> key \<and> key < fst x \<and> fst m \<le> fst x"
  proof
    fix x assume "x \<in> set (n # ms)"
    then have "fst n \<le> fst x" using assms(4) by (cases "x = n") (auto intro!: less_imp_le)
    then show "fst x \<noteq> key \<and> key < fst x \<and> fst m \<le> fst x"
      using less_le_trans [OF assms(2)] less_le_trans [OF m(2)] by (simp add: less_imp_le less_imp_not_eq2)
  qed
  show ?thesis
    unfolding neighbour_def set_append
    using assms(1) [unfolded neighbour_def] all m(1) by blast
qed

lemma neighbour_right:
  assumes "neighbour key m ms" "fst n < key" "\<forall>x \<in> set ns. fst x < fst n" "\<forall>x \<in> set ms. fst n < fst x"
  shows "neighbour key m (ns @ n # ms)"
proof -
  have m: "m \<in> set ms" "fst n < fst m" using assms by (auto simp: neighbour_def)
  have all: "\<forall>x \<in> set ns \<union> {n}. fst x \<noteq> key \<and> fst x < key \<and> fst x \<le> fst m"
  proof
    fix x assume "x \<in> set ns \<union> {n}"
    then have "fst x \<le> fst n" using assms(3) by (cases "x = n") (auto intro!: less_imp_le)
    then show "fst x \<noteq> key \<and> fst x < key \<and> fst x \<le> fst m"
      using le_less_trans [OF _ assms(2)] le_less_trans [OF _ m(2)] by (simp add: less_imp_le less_imp_not_eq)
  qed
  show ?thesis
    unfolding neighbour_def set_append list.set
    using assms(1) [unfolded neighbour_def] all m(1) by blast
qed

lemma neighbour_here:
  assumes "key = fst n \<or> key < fst n \<and> ns = [] \<or> fst n < key \<and> ms = []"
    "\<forall>x \<in> set ns. fst x < fst n" "\<forall>x \<in> set ms. fst n < fst x"
  shows "neighbour key n (ns @ n # ms)"
proof -
  have "fst x \<noteq> key \<and> key < fst x" if "key < fst n" "x \<in> set ms" for x
    using that assms(3) less_trans [of key "fst n" "fst x"] by auto
  moreover have "fst x \<noteq> key \<and> fst x < key" if "fst n < key" "x \<in> set ns" for x
    using that assms(2) less_trans [of "fst x" "fst n" key] by auto
  ultimately show ?thesis
    using assms unfolding neighbour_def set_append set_simps by (force simp: less_imp_le)
qed

lemma path_end_neighbour:
  "ordered (inorder t) \<Longrightarrow> t \<noteq> Leaf \<Longrightarrow> neighbour key (path_end key t) (inorder t)"
proof (induction t)
  case (Node l n r)
  note ord = Node.prems(1) [simplified]
  consider "key = fst n" | "key < fst n" "l = Leaf" | "key < fst n" "l \<noteq> Leaf"
    | "fst n < key" "r = Leaf" | "fst n < key" "r \<noteq> Leaf" by fastforce
  then show ?case
  proof cases
    case 3
    then have "neighbour key (path_end key l) (inorder l)" using Node by simp
    then show ?thesis using 3 ord by (auto intro!: neighbour_left)
  next
    case 5
    then have "neighbour key (path_end key r) (inorder r)" using Node by simp
    moreover have "\<not> key < fst n" "key \<noteq> fst n" using 5 by auto
    ultimately show ?thesis using 5 ord by (auto intro!: neighbour_right)
  next
    case 4
    then have "\<not> key < fst n" "key \<noteq> fst n" by auto
    then show ?thesis using 4 ord neighbour_here [of key n "inorder l" "[]"] by simp
  qed (use ord neighbour_here [of key n "inorder l" "inorder r"] in auto)
qed simp



section \<open>The operations on the list of nodes\<close>

lemma nodes_splay [simp]: "nodes (splay_tree_splay key sp) = nodes sp"
  by (cases "sp_root sp = Leaf") (auto simp: nodes_def elim!: splay_tree_splay [of sp key])

text \<open>A sorted tree that is not empty, splayed around a key.\<close>

lemma splay_cases:
  assumes inv: "sp_inv sp" and ne: "sp_root sp \<noteq> Leaf"
  obtains l n r where "sp_root (splay_tree_splay key sp) = Node l n r"
    and "nodes sp = inorder l @ n # inorder r" and "neighbour key n (nodes sp)"
    and "\<forall>x \<in> set (inorder l). fst x < fst n" and "\<forall>x \<in> set (inorder r). fst n < fst x"
    and "ordered (inorder l)" and "ordered (inorder r)"
proof -
  obtain l r where lr: "sp_root (splay_tree_splay key sp) = Node l (path_end key (sp_root sp)) r"
    and nodes: "inorder l @ path_end key (sp_root sp) # inorder r = nodes sp"
    using splay_tree_splay [OF ne] unfolding nodes_def by metis
  have "neighbour key (path_end key (sp_root sp)) (nodes sp)"
    using path_end_neighbour [OF _ ne] inv by (simp add: sp_inv_def nodes_def)
  then show thesis
    using that [OF lr nodes [symmetric]] inv unfolding sp_inv_def nodes [symmetric] by auto
qed

text \<open>The part of the nodes on the other side of the key.\<close>

lemma neighbour_less:
  assumes "neighbour key n (ns @ n # ms)" "fst n < key" "\<forall>x \<in> set ms. fst n < fst x"
  shows "\<forall>x \<in> set ms. key < fst x"
proof
  fix x assume x: "x \<in> set ms"
  then have "fst x \<le> fst n \<or> key < fst x" using assms(1,2) by (auto simp: neighbour_def)
  then show "key < fst x" using assms(3) x by (auto simp: not_le)
qed

lemma neighbour_greater:
  assumes "neighbour key n (ns @ n # ms)" "key < fst n" "\<forall>x \<in> set ns. fst x < fst n"
  shows "\<forall>x \<in> set ns. fst x < key"
proof
  fix x assume x: "x \<in> set ns"
  then have "fst n \<le> fst x \<or> fst x < key" using assms(1,2) by (auto simp: neighbour_def)
  then show "fst x < key" using assms(3) x by (auto simp: not_le)
qed

lemma inorder_append_right [simp]: "inorder (append_right s t) = inorder s @ inorder t"
  by (induction s) auto

lemma nodes_insert:
  assumes inv: "sp_inv sp"
  shows "\<exists>ns ms. nodes (splay_tree_insert key val sp) = ns @ (key, val) # ms
    \<and> (\<forall>x \<in> set ns. fst x < key) \<and> (\<forall>x \<in> set ms. key < fst x)
    \<and> ordered ns \<and> ordered ms \<and> (nodes sp = ns @ ms \<or> (\<exists>v. nodes sp = ns @ (key, v) # ms))"
proof (cases "sp_root sp = Leaf")
  case True
  then show ?thesis by (auto simp: splay_tree_insert_def nodes_def intro!: exI [of _ "[]"])
next
  case False
  obtain l n r where s: "sp_root (splay_tree_splay key sp) = Node l n r" "nodes sp = inorder l @ n # inorder r"
      "neighbour key n (nodes sp)" "\<forall>x \<in> set (inorder l). fst x < fst n" "\<forall>x \<in> set (inorder r). fst n < fst x"
      "ordered (inorder l)" "ordered (inorder r)"
    using splay_cases [OF inv False] .
  consider "fst n = key" | "fst n < key" "fst n \<noteq> key" | "key < fst n" "fst n \<noteq> key" "\<not> fst n < key" by fastforce
  then show ?thesis
  proof cases
    case 1
    then have "nodes (splay_tree_insert key val sp) = inorder l @ (key, val) # inorder r"
      using s(1) by (simp add: splay_tree_insert_def nodes_def)
    then show ?thesis
      using s 1 by (intro exI [of _ "inorder l"] exI [of _ "inorder r"]) (auto simp: prod_eq_iff)
  next
    case 2
    then have "nodes (splay_tree_insert key val sp) = (inorder l @ [n]) @ (key, val) # inorder r"
      using s(1) by (simp add: splay_tree_insert_def nodes_def)
    moreover have "\<forall>x \<in> set (inorder r). key < fst x"
      using neighbour_less s 2 by simp
    ultimately show ?thesis
      using s 2 by (intro exI [of _ "inorder l @ [n]"] exI [of _ "inorder r"]) (auto dest: less_trans)
  next
    case 3
    then have "nodes (splay_tree_insert key val sp) = inorder l @ (key, val) # n # inorder r"
      using s(1) by (simp add: splay_tree_insert_def nodes_def)
    moreover have "\<forall>x \<in> set (inorder l). fst x < key"
      using neighbour_greater s 3 by simp
    ultimately show ?thesis
      using s 3 by (intro exI [of _ "inorder l"] exI [of _ "n # inorder r"]) (auto dest: less_trans)
  qed
qed

lemma filter_key:
  fixes key :: u64
  assumes "\<forall>x \<in> set ns. fst x < key" "\<forall>x \<in> set ms. key < fst x"
  shows "filter (\<lambda>n. fst n \<noteq> key) (ns @ ms) = ns @ ms"
proof -
  have "\<forall>x \<in> set (ns @ ms). fst x \<noteq> key" unfolding set_append using assms by (metis Un_iff less_irrefl)
  then show ?thesis by (simp only: filter_id_conv)
qed

lemma nodes_delete:
  assumes inv: "sp_inv sp"
  shows "nodes (splay_tree_delete key sp) = filter (\<lambda>n. fst n \<noteq> key) (nodes sp)"
proof (cases "sp_root sp = Leaf")
  case True
  then show ?thesis by (simp add: splay_tree_delete_def nodes_def)
next
  case False
  obtain l n r where s: "sp_root (splay_tree_splay key sp) = Node l n r" "nodes sp = inorder l @ n # inorder r"
      "neighbour key n (nodes sp)" "\<forall>x \<in> set (inorder l). fst x < fst n" "\<forall>x \<in> set (inorder r). fst n < fst x"
    using splay_cases [OF inv False] by metis
  show ?thesis
  proof (cases "fst n = key")
    case True
    then have "nodes (splay_tree_delete key sp) = inorder l @ inorder r"
      using s(1) by (simp add: splay_tree_delete_def nodes_def)
    then show ?thesis
      using filter_key [of "inorder l" key "inorder r"] s(2,4,5) True by simp
  next
    case False
    then have "\<forall>x \<in> set (nodes sp). fst x \<noteq> key" using s(3) by (auto simp: neighbour_def)
    moreover have "nodes (splay_tree_delete key sp) = nodes (splay_tree_splay key sp)"
      using s(1) False by (simp add: splay_tree_delete_def nodes_def)
    ultimately show ?thesis by (simp add: filter_id_conv)
  qed
qed

lemma rightmost_inorder: "rightmost t = (if inorder t = [] then None else Some (last (inorder t)))"
  by (induction t rule: rightmost.induct) auto

lemma leftmost_inorder: "leftmost t = (if inorder t = [] then None else Some (hd (inorder t)))"
  by (induction t rule: leftmost.induct) auto


section \<open>The interface\<close>

text \<open>What the predecessor and the successor of a key in a map are.\<close>

fun is_pred :: "(u64 \<rightharpoonup> u64) \<Rightarrow> u64 \<Rightarrow> st_node option \<Rightarrow> bool" where
  "is_pred m key None \<longleftrightarrow> (\<forall>x. x < key \<longrightarrow> m x = None)"
| "is_pred m key (Some (k, v)) \<longleftrightarrow> k < key \<and> m k = Some v \<and> (\<forall>x. k < x \<and> x < key \<longrightarrow> m x = None)"

fun is_succ :: "(u64 \<rightharpoonup> u64) \<Rightarrow> u64 \<Rightarrow> st_node option \<Rightarrow> bool" where
  "is_succ m key None \<longleftrightarrow> (\<forall>x. key < x \<longrightarrow> m x = None)"
| "is_succ m key (Some (k, v)) \<longleftrightarrow> key < k \<and> m k = Some v \<and> (\<forall>x. key < x \<and> x < k \<longrightarrow> m x = None)"

lemma is_pred_unique:
  assumes "is_pred m key p" "is_pred m key q"
  shows "p = q"
proof (cases p)
  case None
  then show ?thesis using assms by (cases q) auto
next
  case (Some a)
  then obtain x v where p: "p = Some (x, v)" by (cases a) auto
  then obtain y w where q: "q = Some (y, w)" using assms by (cases q) auto
  have "\<not> x < y" "\<not> y < x" using assms p q by auto
  then show ?thesis using assms p q by simp
qed

lemma is_pred_gap:
  assumes "is_pred m k' p" "is_pred m k q" "\<forall>x. k \<le> x \<and> x < k' \<longrightarrow> m x = None" "k < k'"
  shows "p = q"
proof (rule is_pred_unique)
  show "is_pred m k p"
  proof (cases p)
    case None
    then show ?thesis using assms(1,4) by (auto intro: less_trans)
  next
    case (Some a)
    moreover obtain x v where "a = (x, v)" by (cases a)
    moreover from calculation have "\<not> k \<le> x" using assms(1,3) by auto
    ultimately show ?thesis using assms(1,4) by (auto intro: less_trans)
  qed
qed fact

text \<open>
  An ordered map: the contract between the splay tree and its clients. Looking something up may
  change the representation but not the map.
\<close>

locale ordered_map =
  fixes inv :: "'t \<Rightarrow> bool" and kv :: "'t \<Rightarrow> u64 \<rightharpoonup> u64"
    and insert :: "u64 \<Rightarrow> u64 \<Rightarrow> 't \<Rightarrow> 't" and delete :: "u64 \<Rightarrow> 't \<Rightarrow> 't"
    and lookup :: "u64 \<Rightarrow> 't \<Rightarrow> st_node option \<times> 't"
    and predecessor :: "u64 \<Rightarrow> 't \<Rightarrow> st_node option \<times> 't" and successor :: "u64 \<Rightarrow> 't \<Rightarrow> st_node option \<times> 't"
  assumes finite_kv: "finite (dom (kv t))"
    and inv_insert: "inv t \<Longrightarrow> inv (insert k v t)" and kv_insert: "inv t \<Longrightarrow> kv (insert k v t) = (kv t)(k \<mapsto> v)"
    and inv_delete: "inv t \<Longrightarrow> inv (delete k t)" and kv_delete: "inv t \<Longrightarrow> kv (delete k t) = (kv t)(k := None)"
    and inv_lookup: "inv t \<Longrightarrow> inv (snd (lookup k t))" and kv_lookup: "kv (snd (lookup k t)) = kv t"
    and lookup: "inv t \<Longrightarrow> fst (lookup k t) = map_option (Pair k) (kv t k)"
    and inv_pred: "inv t \<Longrightarrow> inv (snd (predecessor k t))" and kv_pred: "kv (snd (predecessor k t)) = kv t"
    and pred: "inv t \<Longrightarrow> is_pred (kv t) k (fst (predecessor k t))"
    and inv_succ: "inv t \<Longrightarrow> inv (snd (successor k t))" and kv_succ: "kv (snd (successor k t)) = kv t"
    and succ: "inv t \<Longrightarrow> is_succ (kv t) k (fst (successor k t))"
begin

lemma lookup_after_insert: "inv t \<Longrightarrow> fst (lookup k (insert k v t)) = Some (k, v)"
  by (simp add: lookup inv_insert kv_insert)

lemma lookup_after_delete: "inv t \<Longrightarrow> fst (lookup k (delete k t)) = None"
  by (simp add: lookup inv_delete kv_delete)

lemma lookup_other:
  "inv t \<Longrightarrow> k \<noteq> k' \<Longrightarrow> fst (lookup k' (insert k v t)) = fst (lookup k' t)"
  "inv t \<Longrightarrow> k \<noteq> k' \<Longrightarrow> fst (lookup k' (delete k t)) = fst (lookup k' t)"
  by (simp_all add: lookup inv_insert kv_insert inv_delete kv_delete)

text \<open>The predecessor of the successor of an absent key is its predecessor: the neighbours are adjacent.\<close>

lemma pred_of_succ:
  assumes t: "inv t" and k: "kv t k = None" and s: "fst (successor k t) = Some (k', v')"
  shows "fst (predecessor k' t) = fst (predecessor k t)"
proof -
  have "k < k'" "\<forall>x. k < x \<and> x < k' \<longrightarrow> kv t x = None" using succ [OF t, of k] s by auto
  then have "\<forall>x. k \<le> x \<and> x < k' \<longrightarrow> kv t x = None" using k by (auto simp: le_less)
  then show ?thesis using is_pred_gap [OF pred [OF t] pred [OF t]] \<open>k < k'\<close> by blast
qed

end


section \<open>The splay tree implements it\<close>

lemma sp_inv_splay [simp]: "sp_inv (splay_tree_splay key sp) = sp_inv sp"
  and sp_map_splay [simp]: "sp_map (splay_tree_splay key sp) = sp_map sp"
  by (simp_all add: sp_inv_def sp_map_def)

lemma sp_inv_insert: "sp_inv sp \<Longrightarrow> sp_inv (splay_tree_insert key val sp)"
  using nodes_insert [of sp key val] by (auto simp: sp_inv_def dest: less_trans)

lemma map_of_insert:
  fixes key :: u64
  assumes "\<forall>x \<in> set ns. fst x < key" "\<forall>x \<in> set ms. key < fst x"
  shows "map_of (ns @ (key, val) # ms) = (map_of (ns @ ms))(key \<mapsto> val)"
    and "map_of (ns @ ms) key = None"
proof -
  have absent: "map_of ns key = None" "map_of ms key = None"
    unfolding map_of_None_iff using assms by (metis less_irrefl)+
  then show "map_of (ns @ ms) key = None" by (simp add: map_add_def)
  show "map_of (ns @ (key, val) # ms) = (map_of (ns @ ms))(key \<mapsto> val)"
    using absent(1) by (auto simp: map_add_def fun_eq_iff split: option.split)
qed

lemma sp_map_insert: "sp_inv sp \<Longrightarrow> sp_map (splay_tree_insert key val sp) = (sp_map sp)(key \<mapsto> val)"
  using nodes_insert [of sp key val] by (auto simp: sp_map_def map_of_insert simp del: map_of_append)

lemma ordered_filter: "ordered ns \<Longrightarrow> ordered (filter P ns)"
  by (induction ns) auto

lemma sp_inv_delete: "sp_inv sp \<Longrightarrow> sp_inv (splay_tree_delete key sp)"
  using nodes_delete [of sp key] by (simp add: sp_inv_def ordered_filter)

lemma map_of_filter_key: "map_of (filter (\<lambda>n. fst n \<noteq> key) ns) = (map_of ns)(key := None)"
  by (induction ns) (auto simp: fun_eq_iff)

lemma sp_map_delete: "sp_inv sp \<Longrightarrow> sp_map (splay_tree_delete key sp) = (sp_map sp)(key := None)"
  using nodes_delete [of sp key] by (simp add: sp_map_def map_of_filter_key)

lemma snd_lookup [simp]: "snd (splay_tree_lookup key sp) = splay_tree_splay key sp"
  and snd_predecessor [simp]: "snd (splay_tree_predecessor key sp) = splay_tree_splay key sp"
  and snd_successor [simp]: "snd (splay_tree_successor key sp) = splay_tree_splay key sp"
  by (auto simp: splay_tree_lookup_def splay_tree_predecessor_def splay_tree_successor_def Let_def split: tree.split)

lemma sp_lookup:
  assumes inv: "sp_inv sp"
  shows "fst (splay_tree_lookup key sp) = map_option (Pair key) (sp_map sp key)"
proof (cases "sp_root sp = Leaf")
  case True
  then show ?thesis by (simp add: splay_tree_lookup_def sp_map_def nodes_def)
next
  case False
  obtain l n r where s: "sp_root (splay_tree_splay key sp) = Node l n r" "neighbour key n (nodes sp)"
    using splay_cases [OF inv False] by metis
  show ?thesis
  proof (cases "fst n = key")
    case True
    then have "sp_map sp key = Some (snd n)"
      using s(2) inv by (auto simp: neighbour_def sp_map_def sp_inv_def map_of_ordered)
    then show ?thesis using s(1) True by (auto simp: splay_tree_lookup_def prod_eq_iff)
  next
    case False
    then have "sp_map sp key = None"
      using s(2) by (auto simp: neighbour_def sp_map_def map_of_None_iff)
    then show ?thesis using s(1) False by (simp add: splay_tree_lookup_def)
  qed
qed

text \<open>The neighbours of a key in a sorted list.\<close>

lemma is_pred_last:
  assumes "ordered (ns @ ms)" "\<forall>x \<in> set ns. fst x < key" "\<forall>x \<in> set ms. key \<le> fst x"
  shows "is_pred (map_of (ns @ ms)) key (if ns = [] then None else Some (last ns))"
proof (cases ns rule: rev_cases)
  case Nil
  then show ?thesis using assms(3) by (auto simp: map_of_None_iff)
next
  case (snoc ns' n)
  have "map_of (ns @ ms) x = None" if "fst n < x" "x < key" for x
    unfolding map_of_None_iff using that assms snoc by auto
  moreover have "map_of (ns @ ms) (fst n) = Some (snd n)"
    using map_of_ordered [OF assms(1)] snoc by simp
  ultimately show ?thesis using snoc assms(2) by (cases n) simp
qed

lemma is_succ_hd:
  assumes "ordered (ns @ ms)" "\<forall>x \<in> set ns. fst x \<le> key" "\<forall>x \<in> set ms. key < fst x"
  shows "is_succ (map_of (ns @ ms)) key (if ms = [] then None else Some (hd ms))"
proof (cases ms)
  case Nil
  then show ?thesis using assms(2) by (auto simp: map_of_None_iff)
next
  case (Cons n ms')
  have "map_of (ns @ ms) x = None" if "key < x" "x < fst n" for x
    unfolding map_of_None_iff using that assms Cons by auto
  moreover have "map_of (ns @ ms) (fst n) = Some (snd n)"
    using map_of_ordered [OF assms(1)] Cons by simp
  ultimately show ?thesis using Cons assms(3) by (cases n) simp
qed

lemma sp_predecessor:
  assumes inv: "sp_inv sp"
  shows "is_pred (sp_map sp) key (fst (splay_tree_predecessor key sp))"
proof (cases "sp_root sp = Leaf")
  case True
  then show ?thesis by (simp add: splay_tree_predecessor_def sp_map_def nodes_def)
next
  case False
  obtain l n r where s: "sp_root (splay_tree_splay key sp) = Node l n r" "nodes sp = inorder l @ n # inorder r"
      "neighbour key n (nodes sp)" "\<forall>x \<in> set (inorder l). fst x < fst n" "\<forall>x \<in> set (inorder r). fst n < fst x"
    using splay_cases [OF inv False] by metis
  have ord: "ordered (nodes sp)" using inv by (simp add: sp_inv_def)
  show ?thesis
  proof (cases "fst n < key")
    case True
    then have "\<forall>x \<in> set (inorder r). key \<le> fst x" "\<forall>x \<in> set (inorder l @ [n]). fst x < key"
      using neighbour_less s by (auto simp: less_imp_le dest: less_trans)
    then show ?thesis
      using is_pred_last [of "inorder l @ [n]" "inorder r" key] ord s(1,2) False True
      by (simp add: splay_tree_predecessor_def sp_map_def del: map_of_append)
  next
    case False': False
    then have "\<forall>x \<in> set (inorder l). fst x < key" "\<forall>x \<in> set (n # inorder r). key \<le> fst x"
      using neighbour_greater [of key n "inorder l" "inorder r"] s(2-5)
      by (auto simp: not_less le_less dest: less_trans)
    then show ?thesis
      using is_pred_last [of "inorder l" "n # inorder r" key] ord s(1,2) False False'
      by (simp add: splay_tree_predecessor_def sp_map_def rightmost_inorder del: map_of_append)
  qed
qed

lemma sp_successor:
  assumes inv: "sp_inv sp"
  shows "is_succ (sp_map sp) key (fst (splay_tree_successor key sp))"
proof (cases "sp_root sp = Leaf")
  case True
  then show ?thesis by (simp add: splay_tree_successor_def sp_map_def nodes_def)
next
  case False
  obtain l n r where s: "sp_root (splay_tree_splay key sp) = Node l n r" "nodes sp = inorder l @ n # inorder r"
      "neighbour key n (nodes sp)" "\<forall>x \<in> set (inorder l). fst x < fst n" "\<forall>x \<in> set (inorder r). fst n < fst x"
    using splay_cases [OF inv False] by metis
  have ord: "ordered (nodes sp)" using inv by (simp add: sp_inv_def)
  show ?thesis
  proof (cases "key < fst n")
    case True
    then have "\<forall>x \<in> set (inorder l). fst x \<le> key" "\<forall>x \<in> set (n # inorder r). key < fst x"
      using neighbour_greater s by (auto simp: less_imp_le dest: less_trans)
    then show ?thesis
      using is_succ_hd [of "inorder l" "n # inorder r" key] ord s(1,2) False True
      by (simp add: splay_tree_successor_def sp_map_def del: map_of_append)
  next
    case False': False
    then have "\<forall>x \<in> set (inorder l @ [n]). fst x \<le> key" "\<forall>x \<in> set (inorder r). key < fst x"
      using neighbour_less [of key n "inorder l" "inorder r"] s(2-5)
      by (auto simp: not_less le_less dest: less_trans)
    then show ?thesis
      using is_succ_hd [of "inorder l @ [n]" "inorder r" key] ord s(1,2) False False'
      by (simp add: splay_tree_successor_def sp_map_def leftmost_inorder del: map_of_append)
  qed
qed

lemma finite_sp_map: "finite (dom (sp_map sp))"
  by (simp add: sp_map_def finite_dom_map_of)

interpretation splay: ordered_map sp_inv sp_map splay_tree_insert splay_tree_delete splay_tree_lookup
  splay_tree_predecessor splay_tree_successor
  by unfold_locales
    (simp_all add: sp_inv_insert sp_map_insert sp_inv_delete sp_map_delete sp_lookup sp_predecessor sp_successor
      finite_sp_map)


section \<open>Sequences of operations\<close>

datatype sp_op = SP_insert u64 u64 | SP_delete u64 | SP_lookup u64 | SP_predecessor u64 | SP_successor u64 | SP_empty

primrec sp_run :: "sp_op \<Rightarrow> splay_tree \<Rightarrow> splay_tree" where
  "sp_run (SP_insert key val) sp = splay_tree_insert key val sp"
| "sp_run (SP_delete key) sp = splay_tree_delete key sp"
| "sp_run (SP_lookup key) sp = snd (splay_tree_lookup key sp)"
| "sp_run (SP_predecessor key) sp = snd (splay_tree_predecessor key sp)"
| "sp_run (SP_successor key) sp = snd (splay_tree_successor key sp)"
| "sp_run SP_empty sp = splay_tree_empty sp"

text \<open>The same operations on maps.\<close>

primrec map_run :: "sp_op \<Rightarrow> (u64 \<rightharpoonup> u64) \<Rightarrow> (u64 \<rightharpoonup> u64)" where
  "map_run (SP_insert key val) m = m(key \<mapsto> val)"
| "map_run (SP_delete key) m = m(key := None)"
| "map_run (SP_lookup key) m = m"
| "map_run (SP_predecessor key) m = m"
| "map_run (SP_successor key) m = m"
| "map_run SP_empty m = Map.empty"

lemma sp_empty [simp]: "sp_inv (splay_tree_empty sp)" "sp_map (splay_tree_empty sp) = Map.empty"
  "sp_inv (splay_tree_create d)" "sp_map (splay_tree_create d) = Map.empty"
  by (simp_all add: sp_inv_def sp_map_def nodes_def splay_tree_empty_def splay_tree_create_def)

lemma sp_run: "sp_inv sp \<Longrightarrow> sp_inv (sp_run op sp) \<and> sp_map (sp_run op sp) = map_run op (sp_map sp)"
  by (cases op) (simp_all add: splay.inv_insert splay.kv_insert splay.inv_delete splay.kv_delete)

lemma sp_runs: "sp_inv sp \<Longrightarrow> sp_inv (fold sp_run ops sp) \<and> sp_map (fold sp_run ops sp) = fold map_run ops (sp_map sp)"
  by (induction ops arbitrary: sp) (simp_all add: sp_run)

text \<open>
  C10. The splay tree is a map. After any sequence of insertions, deletions, queries and clearings of
  a new tree, the tree is sorted and stands for the map the same sequence makes of the empty map.
  A lookup finds the key with its value if the map has it, and the predecessor and successor are
  the nearest keys of the map on either side.
\<close>

theorem splay_tree_is_map:
  "let sp = fold sp_run ops (splay_tree_create d); m = fold map_run ops Map.empty
   in sp_inv sp \<and> sp_map sp = m
      \<and> (\<forall>key. fst (splay_tree_lookup key sp) = map_option (Pair key) (m key)
          \<and> is_pred m key (fst (splay_tree_predecessor key sp))
          \<and> is_succ m key (fst (splay_tree_successor key sp)))"
proof -
  define sp m where "sp = fold sp_run ops (splay_tree_create d)" and "m = fold map_run ops Map.empty"
  have "sp_inv sp \<and> sp_map sp = m"
    using sp_runs [of "splay_tree_create d" ops] by (simp add: sp_def m_def)
  then show ?thesis
    unfolding Let_def sp_def [symmetric] m_def [symmetric]
    using splay.lookup [of sp] splay.pred [of sp] splay.succ [of sp] by simp
qed


section \<open>Released values\<close>

lemma sp_released_release [simp]:
  "sp_released (release v sp) = sp_released sp @ (if sp_delete_value sp then [v] else [])"
  by (simp add: release_def)

lemma destroy_helper_simps [simp]:
  "sp_delete_value (splay_tree_destroy_helper t sp) = sp_delete_value sp"
  "mset (sp_released (splay_tree_destroy_helper t sp)) =
     mset (sp_released sp) + (if sp_delete_value sp then mset (map snd (inorder t)) else {#})"
  by (induction t arbitrary: sp) auto

text \<open>All the values the tree has ever owned: those of its nodes and those it has released.\<close>

definition sp_values :: "splay_tree \<Rightarrow> u64 multiset" where
  "sp_values sp = mset (map snd (nodes sp)) + mset (sp_released sp)"

primrec sp_op_values :: "sp_op \<Rightarrow> u64 multiset" where
  "sp_op_values (SP_insert key val) = {#val#}"
| "sp_op_values (SP_delete key) = {#}"
| "sp_op_values (SP_lookup key) = {#}"
| "sp_op_values (SP_predecessor key) = {#}"
| "sp_op_values (SP_successor key) = {#}"
| "sp_op_values SP_empty = {#}"

lemma splay_root_nodes: "sp_root (splay_tree_splay key sp) = t \<Longrightarrow> inorder (sp_root sp) = inorder t"
  using nodes_splay [of key sp] unfolding nodes_def by simp

lemma sp_values_insert:
  "sp_delete_value sp \<Longrightarrow> sp_values (splay_tree_insert key val sp) = sp_values sp + {#val#}"
  by (cases "sp_root (splay_tree_splay key sp)"; frule splay_root_nodes)
    (auto simp: splay_tree_insert_def sp_values_def nodes_def Let_def)

lemma sp_values_delete: "sp_delete_value sp \<Longrightarrow> sp_values (splay_tree_delete key sp) = sp_values sp"
  by (cases "sp_root (splay_tree_splay key sp)"; frule splay_root_nodes)
    (auto simp: splay_tree_delete_def sp_values_def nodes_def Let_def)

lemma sp_values_empty: "sp_delete_value sp \<Longrightarrow> sp_values (splay_tree_empty sp) = sp_values sp"
  by (simp add: splay_tree_empty_def sp_values_def nodes_def Let_def)

lemma sp_delete_value_run [simp]: "sp_delete_value (sp_run op sp) = sp_delete_value sp"
  by (cases op) (auto simp: splay_tree_insert_def splay_tree_delete_def splay_tree_empty_def Let_def split: tree.split)

lemma sp_delete_value_runs [simp]: "sp_delete_value (fold sp_run ops sp) = sp_delete_value sp"
  by (induction ops arbitrary: sp) simp_all

lemma sp_values_run: "sp_delete_value sp \<Longrightarrow> sp_values (sp_run op sp) = sp_values sp + sp_op_values op"
  by (cases op)
    (simp_all only: sp_run.simps sp_op_values.simps sp_values_insert sp_values_delete sp_values_empty
      snd_lookup snd_predecessor snd_successor add_0_right, simp_all add: sp_values_def)

lemma sp_values_runs:
  "sp_delete_value sp \<Longrightarrow> sp_values (fold sp_run ops sp) = sp_values sp + sum_list (map sp_op_values ops)"
  by (induction ops arbitrary: sp) (simp_all add: sp_values_run)

text \<open>
  C11. Every value is released exactly once. After any sequence of operations on a tree with a function
  to release values, destroying the tree leaves that function called exactly once for every value that has ever
  been inserted: none is leaked and none released twice.
\<close>

theorem splay_tree_releases:
  "mset (splay_tree_destroy (fold sp_run ops (splay_tree_create True))) = sum_list (map sp_op_values ops)"
proof -
  define sp where "sp = fold sp_run ops (splay_tree_create True)"
  have "sp_delete_value sp" by (simp add: sp_def splay_tree_create_def)
  moreover have "sp_values sp = sum_list (map sp_op_values ops)"
    using sp_values_runs [of "splay_tree_create True" ops]
    by (simp add: sp_def sp_values_def splay_tree_create_def nodes_def)
  ultimately show ?thesis
    unfolding sp_def [symmetric] by (simp add: splay_tree_destroy_def sp_values_def nodes_def add.commute)
qed


section \<open>Traversal, least and greatest key\<close>

primrec visit :: "('a \<Rightarrow> 's \<Rightarrow> int \<times> 's) \<Rightarrow> 'a list \<Rightarrow> 's \<Rightarrow> int \<times> 's" where
  "visit fn [] s = (0, s)"
| "visit fn (n # ns) s = (let (v, s) = fn n s in if v \<noteq> 0 then (v, s) else visit fn ns s)"

lemma visit_append:
  "visit fn (ns @ ms) s = (let (v, s) = visit fn ns s in if v \<noteq> 0 then (v, s) else visit fn ms s)"
  by (induction ns arbitrary: s) (auto simp: Let_def split: prod.split)

lemma foreach_helper: "splay_tree_foreach_helper fn t s = visit fn (inorder t) s"
  by (induction t arbitrary: s) (auto simp: visit_append Let_def split: prod.split)

text \<open>
  C12. The traversal visits the nodes in the order of their keys, up to the first one for which the callback
  returns something other than zero; the least and the greatest key are the first and the last node visited.
\<close>

theorem splay_tree_foreach_ordered:
  assumes "sp_inv sp"
  shows "\<exists>ns. ordered ns \<and> map_of ns = sp_map sp \<and> splay_tree_foreach fn sp s = visit fn ns s
    \<and> splay_tree_min sp = (if ns = [] then None else Some (hd ns))
    \<and> splay_tree_max sp = (if ns = [] then None else Some (last ns))"
  using assms
  by (intro exI [of _ "nodes sp"])
    (simp add: sp_inv_def sp_map_def splay_tree_foreach_def foreach_helper splay_tree_min_def splay_tree_max_def
      leftmost_inorder rightmost_inorder nodes_def)

definition sample_tree :: splay_tree where
  "sample_tree = splay_tree_insert 2 20 (splay_tree_insert 3 30 (splay_tree_insert 1 10 (splay_tree_create True)))"

lemma nodes_sample_tree: "nodes sample_tree = [(1, 10), (2, 20), (3, 30)]"
  by code_simp

theorem splay_tree_foreach_ordered_witness:
  "\<exists>ns. ordered ns \<and> map_of ns = sp_map sample_tree
    \<and> splay_tree_foreach (\<lambda>n s. (if fst n = 2 then 1 else 0, s @ [snd n])) sample_tree [] =
      visit (\<lambda>n s. (if fst n = 2 then 1 else 0, s @ [snd n])) ns []
    \<and> splay_tree_min sample_tree = (if ns = [] then None else Some (hd ns))
    \<and> splay_tree_max sample_tree = (if ns = [] then None else Some (last ns))"
proof -
  have "sp_inv sample_tree" by (simp add: sp_inv_def nodes_sample_tree)
  then show ?thesis by (rule splay_tree_foreach_ordered)
qed

end
