(* ===== verification/Interval_Map.thy ===== *)
theory Interval_Map
  imports Main
begin

text \<open>
  Sets of numbers as maps from the start of an interval to its end, the way the interval tree
  represents them, and what the steps of its operations do to the set. Nothing here
  depends on the tree.
\<close>

definition covers :: "('a::linorder \<rightharpoonup> 'a) \<Rightarrow> 'a set" where
  "covers m = {x. \<exists>s e. m s = Some e \<and> s \<le> x \<and> x < e}"

text \<open>The intervals are not empty and do not even touch.\<close>

definition iv_inv :: "('a::linorder \<rightharpoonup> 'a) \<Rightarrow> bool" where
  "iv_inv m \<longleftrightarrow> (\<forall>s e. m s = Some e \<longrightarrow> s < e)
     \<and> (\<forall>s e s' e'. m s = Some e \<longrightarrow> m s' = Some e' \<longrightarrow> s < s' \<longrightarrow> e < s')"

lemma iv_invI:
  assumes "\<And>s e. m s = Some e \<Longrightarrow> s < e"
    and "\<And>s e s' e'. m s = Some e \<Longrightarrow> m s' = Some e' \<Longrightarrow> s < s' \<Longrightarrow> e < s'"
  shows "iv_inv m"
  using assms unfolding iv_inv_def by blast

lemma iv_inv_less: "iv_inv m \<Longrightarrow> m s = Some e \<Longrightarrow> s < e"
  and iv_inv_apart: "iv_inv m \<Longrightarrow> m s = Some e \<Longrightarrow> m s' = Some e' \<Longrightarrow> s < s' \<Longrightarrow> e < s'"
  unfolding iv_inv_def by blast+

lemma covers_empty [simp]: "covers Map.empty = {}"
  and iv_inv_empty [simp]: "iv_inv Map.empty"
  by (simp_all add: covers_def iv_inv_def)

lemma covers_upd: "covers (m(a \<mapsto> b)) = covers (m(a := None)) \<union> {a..<b}"
  unfolding covers_def by (auto split: if_splits)

lemma covers_insert: "m a = Some b \<Longrightarrow> covers m = covers (m(a := None)) \<union> {a..<b}"
  using covers_upd [of m a b] by (simp add: map_upd_triv)

lemma iv_inv_remove: "iv_inv m \<Longrightarrow> iv_inv (m(a := None))"
  unfolding iv_inv_def by (auto split: if_splits)

text \<open>The end of an interval is not covered, nor what precedes its start, down to the next interval.\<close>

lemma end_not_covered:
  assumes "iv_inv m" "m s = Some e"
  shows "e \<notin> covers m"
proof
  assume "e \<in> covers m"
  then obtain s' e' where "m s' = Some e'" "s' \<le> e" "e < e'" unfolding covers_def by blast
  moreover have "s < e" using iv_inv_less assms .
  ultimately show False
    using iv_inv_apart [OF assms(1), of s e s' e'] iv_inv_apart [OF assms(1), of s' e' s e] assms(2)
    by (cases s s' rule: linorder_cases) (auto dest: less_trans)
qed

lemma covers_remove:
  assumes "iv_inv m" "m s = Some e"
  shows "covers (m(s := None)) = covers m - {s..<e}"
proof -
  have "covers (m(s := None)) \<inter> {s..<e} = {}"
  proof (rule ccontr)
    assume "covers (m(s := None)) \<inter> {s..<e} \<noteq> {}"
    then obtain x where x: "x \<in> covers (m(s := None))" "s \<le> x" "x < e" by auto
    then obtain s' e' where "m s' = Some e'" "s' \<noteq> s" "s' \<le> x" "x < e'"
      unfolding covers_def by (auto split: if_splits)
    then show False
      using iv_inv_apart [OF assms(1), of s e s' e'] iv_inv_apart [OF assms(1), of s' e' s e] assms(2) x
      by (cases s s' rule: linorder_cases) auto
  qed
  then show ?thesis using covers_insert [of m s e, OF assms(2)] by blast
qed


section \<open>Adding an interval\<close>

text \<open>The interval from \<open>a\<close> to \<open>b\<close> may reach into its successors; apart from that the invariant holds.\<close>

definition merging :: "('a::linorder \<rightharpoonup> 'a) \<Rightarrow> 'a \<Rightarrow> 'a \<Rightarrow> bool" where
  "merging m a b \<longleftrightarrow> m a = Some b \<and> a < b \<and> iv_inv (m(a := None)) \<and> (\<forall>s e. m s = Some e \<longrightarrow> s < a \<longrightarrow> e < a)"

lemma merging_start:
  assumes "iv_inv m" "a < b" "\<And>s e. m s = Some e \<Longrightarrow> s < a \<Longrightarrow> e < a"
  shows "merging (m(a \<mapsto> b)) a b"
  unfolding merging_def using assms iv_inv_remove [of m a] by auto

lemma merging_step:
  assumes m: "merging m a b" and n: "m n = Some c" "a < n" "n \<le> b"
  shows "merging ((m(a \<mapsto> max b c))(n := None)) a (max b c)"
    and "covers ((m(a \<mapsto> max b c))(n := None)) = covers m"
proof -
  have "n < c" using m n iv_inv_less [of "m(a := None)" n c] by (simp add: merging_def)
  have "(m(n := None))(a := None) = (m(a := None))(n := None)" by auto
  then have "iv_inv ((m(n := None))(a := None))"
    using m iv_inv_remove [of "m(a := None)" n] by (simp add: merging_def)
  then show "merging ((m(a \<mapsto> max b c))(n := None)) a (max b c)"
    using m n unfolding merging_def by (auto simp: fun_upd_twist less_max_iff_disj)
  have "covers m = covers ((m(a := None))(n := None)) \<union> ({a..<b} \<union> {n..<c})"
    using m n covers_insert [of m a b] covers_insert [of "m(a := None)" n c] by (auto simp: merging_def)
  also have "{a..<b} \<union> {n..<c} = {a..<max b c}" using n \<open>n < c\<close> by (auto simp: less_max_iff_disj)
  finally have "covers m = covers ((m(a := None))(n := None)) \<union> {a..<max b c}" .
  then show "covers ((m(a \<mapsto> max b c))(n := None)) = covers m"
    using n covers_upd [of "m(n := None)" a "max b c"] by (simp add: fun_upd_twist)
qed

lemma merging_done:
  assumes m: "merging m a b" and n: "\<And>s e. m s = Some e \<Longrightarrow> a < s \<Longrightarrow> b < s"
  shows "iv_inv m"
proof (rule iv_invI)
  fix s e assume "m s = Some e"
  then show "s < e" using m iv_inv_less [of "m(a := None)" s e] by (cases "s = a") (auto simp: merging_def)
next
  fix s e s' e' assume "m s = Some e" "m s' = Some e'" "s < s'"
  then show "e < s'"
    using m n iv_inv_apart [of "m(a := None)" s e s' e']
    by (cases "s = a"; cases "s' = a") (auto simp: merging_def)
qed


section \<open>Removing an interval\<close>

text \<open>No interval reaches beyond \<open>start\<close> from before it.\<close>

definition cut_at :: "('a::linorder \<rightharpoonup> 'a) \<Rightarrow> 'a \<Rightarrow> bool" where
  "cut_at m start \<longleftrightarrow> (\<forall>s e. m s = Some e \<longrightarrow> s \<le> start \<longrightarrow> e \<le> start)"

lemma cut_gap:
  assumes "cut_at m start" "\<And>x. start < x \<Longrightarrow> x < n \<Longrightarrow> m x = None"
  shows "covers m \<inter> {start..<n} = {}"
proof (rule ccontr)
  assume "covers m \<inter> {start..<n} \<noteq> {}"
  then obtain x s e where "start \<le> x" "x < n" "m s = Some e" "s \<le> x" "x < e" unfolding covers_def by auto
  then show False using assms by (cases "s \<le> start") (fastforce simp: cut_at_def)+
qed

text \<open>Moving the start of an interval forward, and its end back.\<close>

lemma move_start:
  assumes inv: "iv_inv m" and k: "m k = Some v" "k \<le> s" "s < v"
  shows "iv_inv ((m(k := None))(s \<mapsto> v))"
    and "covers ((m(k := None))(s \<mapsto> v)) = covers m - {k..<s}"
    and "m x \<noteq> None \<Longrightarrow> x \<noteq> k \<Longrightarrow> x \<noteq> s \<and> (x < k \<longleftrightarrow> x < s)"
proof -
  have other: "e < k \<or> v < x" if "m x = Some e" "x \<noteq> k" for x e
    using that k iv_inv_apart [OF inv, of x e k v] iv_inv_apart [OF inv, of k v x e] by fastforce
  have less: "x < e" if "m x = Some e" for x e using iv_inv_less inv that .
  show order: "x \<noteq> s \<and> (x < k \<longleftrightarrow> x < s)" if x: "m x \<noteq> None" "x \<noteq> k" for x
  proof -
    obtain e where "m x = Some e" using x by auto
    then show ?thesis using other less k x by fastforce
  qed
  show "iv_inv ((m(k := None))(s \<mapsto> v))"
  proof (rule iv_invI)
    fix a b assume "((m(k := None))(s \<mapsto> v)) a = Some b"
    then show "a < b" using less k by (auto split: if_splits)
  next
    fix a b a' b'
    assume "((m(k := None))(s \<mapsto> v)) a = Some b" "((m(k := None))(s \<mapsto> v)) a' = Some b'" "a < a'"
    then show "b < a'"
      using iv_inv_apart [OF inv, of a b a' b'] other [of a b] other [of a' b'] less [of a' b'] k
      by (auto split: if_splits)
  qed
  have "s \<notin> dom m \<or> s = k" using order by blast
  then have "(m(k := None))(s := None) = m(k := None)" by (auto simp: fun_eq_iff domIff)
  then have "covers ((m(k := None))(s \<mapsto> v)) = (covers m - {k..<v}) \<union> {s..<v}"
    using covers_upd [of "m(k := None)" s v] covers_remove [OF inv k(1)] by simp
  moreover have "{k..<v} \<subseteq> covers m" using covers_insert [of m k v] k by blast
  ultimately show "covers ((m(k := None))(s \<mapsto> v)) = covers m - {k..<s}" using k by fastforce
qed

lemma move_end:
  assumes inv: "iv_inv m" and k: "m k = Some v" "k < e" "e \<le> v"
  shows "iv_inv (m(k \<mapsto> e))" and "covers (m(k \<mapsto> e)) = covers m - {e..<v}"
proof -
  show "iv_inv (m(k \<mapsto> e))"
  proof (rule iv_invI)
    fix a b assume "(m(k \<mapsto> e)) a = Some b"
    then show "a < b" using iv_inv_less [OF inv, of a b] k by (auto split: if_splits)
  next
    fix a b a' b' assume "(m(k \<mapsto> e)) a = Some b" "(m(k \<mapsto> e)) a' = Some b'" "a < a'"
    then show "b < a'"
      using iv_inv_apart [OF inv, of a b a' b'] iv_inv_apart [OF inv, of a v a' b']
        iv_inv_apart [OF inv, of a b a' v] k
      by (auto split: if_splits)
  qed
  have "{k..<v} \<subseteq> covers m" using covers_insert [of m k v] k by blast
  then show "covers (m(k \<mapsto> e)) = covers m - {e..<v}"
    using covers_upd [of m k e] covers_remove [OF inv k(1)] k by fastforce
qed

text \<open>Cutting a piece out of an interval.\<close>

lemma cut_inside:
  assumes inv: "iv_inv m" and p: "m p = Some c" "p < start" "start < end" "end < c"
  shows "iv_inv ((m(end \<mapsto> c))(p \<mapsto> start))"
    and "covers ((m(end \<mapsto> c))(p \<mapsto> start)) = covers m - {start..<end}"
    and "m end = None"
proof -
  have le: "p \<le> end" "start \<le> c" and less: "p < end" using p by auto
  show none: "m end = None" using move_start(3) [OF inv p(1) le(1) p(4), of "end"] less by (cases "m end") auto
  note cut = move_end [OF inv p(1,2) le(2)]
  have eq: "(m(end \<mapsto> c))(p \<mapsto> start) = (m(p \<mapsto> start))(end \<mapsto> c)" using less by auto
  have other: "e < p \<or> c < x" if "m x = Some e" "x \<noteq> p" for x e
    using that p iv_inv_apart [OF inv, of x e p c] iv_inv_apart [OF inv, of p c x e] by fastforce
  show "iv_inv ((m(end \<mapsto> c))(p \<mapsto> start))"
    unfolding eq
  proof (rule iv_invI)
    fix a b assume "((m(p \<mapsto> start))(end \<mapsto> c)) a = Some b"
    then show "a < b" using iv_inv_less [OF cut(1), of a b] p by (auto split: if_splits)
  next
    fix a b a' b'
    assume "((m(p \<mapsto> start))(end \<mapsto> c)) a = Some b" "((m(p \<mapsto> start))(end \<mapsto> c)) a' = Some b'" "a < a'"
    then show "b < a'"
      using iv_inv_apart [OF cut(1), of a b a' b'] other [of a b] other [of a' b'] iv_inv_less [OF inv, of a' b'] p less
      by (auto split: if_splits)
  qed
  have "(m(p \<mapsto> start))(end := None) = m(p \<mapsto> start)" using none less by (auto simp: fun_eq_iff)
  then have "covers ((m(end \<mapsto> c))(p \<mapsto> start)) = (covers m - {start..<c}) \<union> {end..<c}"
    unfolding eq using covers_upd [of "m(p \<mapsto> start)" "end" c] cut(2) by simp
  moreover have "{p..<c} \<subseteq> covers m" using covers_insert [of m p c] p by blast
  moreover have "{end..<c} \<subseteq> {p..<c}" "{start..<c} = {start..<end} \<union> {end..<c}" "{start..<end} \<inter> {end..<c} = {}"
    using p less by auto
  ultimately show "covers ((m(end \<mapsto> c))(p \<mapsto> start)) = covers m - {start..<end}" by blast
qed

end
