(* ===== verification/Interval_Tree.thy ===== *)
theory Interval_Tree
  imports Splay_Tree Interval_Map
begin

text \<open>
  The interval tree of \<^verbatim>\<open>lib/interval-tree\<close>: a set of 64-bit offsets, kept as disjoint intervals
  in a splay tree that maps the start of every interval to its end. The daemon records the parts of a file that
  are up to date, modified or kept in a version file this way.

  The C functions hold pointers to nodes and store into them. A node is named here by its current key: a
  store to the start or the end of a node changes the node with that key in place, without splaying. The loops
  end because the tree is sorted, which their definitions cannot presuppose, so they are partial
  functions, and the theorems show that they return.
\<close>

section \<open>The tree\<close>

record interval_tree =
  it_splay :: splay_tree
  it_preferred_size :: u32
  it_size :: u32
  it_fd :: int
  it_generation :: u32
  it_deleted :: bool

definition interval_tree_create :: "u32 \<Rightarrow> interval_tree" where
  "interval_tree_create preferred_size =
     \<lparr>it_splay = splay_tree_create False, it_preferred_size = preferred_size, it_size = 0, it_fd = - 1,
      it_generation = 0, it_deleted = False\<rparr>"

definition interval_tree_destroy :: "interval_tree \<Rightarrow> u64 list" where
  "interval_tree_destroy tree = splay_tree_destroy (it_splay tree)"

definition interval_tree_empty :: "interval_tree \<Rightarrow> interval_tree" where
  "interval_tree_empty tree =
     (let tree = if sp_root (it_splay tree) \<noteq> Leaf then tree\<lparr>it_deleted := True\<rparr> else tree
      in tree\<lparr>it_size := 0, it_splay := splay_tree_empty (it_splay tree)\<rparr>)"

text \<open>Stores to \<^verbatim>\<open>INTERVAL_START\<close> and \<^verbatim>\<open>INTERVAL_END\<close> of the node with the key \<open>k\<close>.\<close>

definition set_INTERVAL_START :: "u64 \<Rightarrow> u64 \<Rightarrow> interval_tree \<Rightarrow> interval_tree" where
  "set_INTERVAL_START k s tree =
     tree\<lparr>it_splay := (it_splay tree)\<lparr>sp_root := map_tree (\<lambda>n. if fst n = k then (s, snd n) else n) (sp_root (it_splay tree))\<rparr>\<rparr>"

definition set_INTERVAL_END :: "u64 \<Rightarrow> u64 \<Rightarrow> interval_tree \<Rightarrow> interval_tree" where
  "set_INTERVAL_END k e tree =
     tree\<lparr>it_splay := (it_splay tree)\<lparr>sp_root := map_tree (\<lambda>n. if fst n = k then (fst n, e) else n) (sp_root (it_splay tree))\<rparr>\<rparr>"

text \<open>The operations of the splay tree, on the tree that contains it.\<close>

definition it_query :: "(splay_tree \<Rightarrow> 'a \<times> splay_tree) \<Rightarrow> interval_tree \<Rightarrow> 'a \<times> interval_tree" where
  "it_query f tree = (let (x, sp) = f (it_splay tree) in (x, tree\<lparr>it_splay := sp\<rparr>))"

definition it_insert :: "u64 \<Rightarrow> u64 \<Rightarrow> interval_tree \<Rightarrow> interval_tree" where
  "it_insert start end tree =
     tree\<lparr>it_splay := splay_tree_insert start end (it_splay tree), it_size := it_size tree + 1\<rparr>"

definition it_delete :: "u64 \<Rightarrow> interval_tree \<Rightarrow> interval_tree" where
  "it_delete start tree =
     tree\<lparr>it_splay := splay_tree_delete start (it_splay tree), it_size := it_size tree - 1\<rparr>"


section \<open>Insertion\<close>

text \<open>Merge the successors of \<open>node\<close> that the interval covers.\<close>

partial_function (option) merge_successors :: "st_node \<Rightarrow> interval_tree \<Rightarrow> (st_node \<times> interval_tree) option" where
  "merge_successors node tree =
     (let (next, tree) = it_query (splay_tree_successor (fst node)) tree
      in case next of
           None \<Rightarrow> Some (node, tree)
         | Some n \<Rightarrow>
             if fst n \<le> snd node then
               let (node, tree) =
                     if snd node < snd n
                     then ((fst node, snd n), set_INTERVAL_END (fst node) (snd n) tree)
                     else (node, tree)
               in merge_successors node (it_delete (fst n) tree)
             else Some (node, tree))"

declare merge_successors.simps [code]

definition interval_tree_insert :: "u64 \<Rightarrow> u64 \<Rightarrow> interval_tree \<Rightarrow> (st_node \<times> interval_tree) option" where
  "interval_tree_insert start end tree =
     (let (node, tree) = it_query (splay_tree_lookup start) tree
      in case node of
           Some n \<Rightarrow>
             if snd n \<ge> end then Some (n, tree)
             else merge_successors (start, end) (set_INTERVAL_END start end tree)
         | None \<Rightarrow>
             let (prev, tree) = it_query (splay_tree_predecessor start) tree;
                 (next, tree) = it_query (splay_tree_successor start) tree;
                 new = merge_successors (start, end) (it_insert start end tree);
                 extend_next =
                   (case next of
                      None \<Rightarrow> new
                    | Some n \<Rightarrow>
                        if fst n \<le> end then
                          let (n, tree) =
                                if fst n > start then ((start, snd n), set_INTERVAL_START (fst n) start tree) else (n, tree);
                              (n, tree) =
                                if snd n < end then ((fst n, end), set_INTERVAL_END (fst n) end tree) else (n, tree)
                          in merge_successors n tree
                        else new)
             in case prev of
                  None \<Rightarrow> extend_next
                | Some p \<Rightarrow>
                    if snd p \<ge> start then
                      let (p, tree) =
                            if snd p < end then ((fst p, end), set_INTERVAL_END (fst p) end tree) else (p, tree)
                      in merge_successors p tree
                    else extend_next)"

definition interval_tree_lookup :: "u64 \<Rightarrow> interval_tree \<Rightarrow> st_node option \<times> interval_tree" where
  "interval_tree_lookup val tree =
     (let (node, tree) = it_query (splay_tree_lookup val) tree
      in if node \<noteq> None then (node, tree)
         else
           let (node, tree) = it_query (splay_tree_predecessor val) tree
           in case node of
                Some n \<Rightarrow> if snd n > val then (node, tree) else it_query (splay_tree_successor val) tree
              | None \<Rightarrow> it_query (splay_tree_successor val) tree)"


section \<open>Deletion\<close>

text \<open>Delete the remaining intervals that intersect the one to be deleted.\<close>

partial_function (option) delete_rest :: "u64 \<Rightarrow> u64 \<Rightarrow> interval_tree \<Rightarrow> interval_tree option" where
  "delete_rest start end tree =
     (let (next, tree) = it_query (splay_tree_successor start) tree
      in case next of
           None \<Rightarrow> Some tree
         | Some n \<Rightarrow>
             if fst n \<ge> end then Some tree
             else
               let tree = tree\<lparr>it_deleted := True\<rparr>
               in if snd n \<le> end then delete_rest start end (it_delete (fst n) tree)
                  else Some (set_INTERVAL_START (fst n) end tree))"

declare delete_rest.simps [code]

definition interval_tree_delete :: "u64 \<Rightarrow> u64 \<Rightarrow> interval_tree \<Rightarrow> interval_tree option" where
  "interval_tree_delete start end tree =
     (let (node, tree) = it_query (splay_tree_lookup start) tree
      in case node of
           Some n \<Rightarrow>
             let tree = tree\<lparr>it_deleted := True\<rparr>
             in if snd n > end then Some (set_INTERVAL_START start end tree)
                else delete_rest start end (it_delete start tree)
         | None \<Rightarrow>
             let (prev, tree) = it_query (splay_tree_predecessor start) tree
             in case prev of
                  None \<Rightarrow> delete_rest start end tree
                | Some p \<Rightarrow>
                    if start < snd p then
                      let tree = tree\<lparr>it_deleted := True\<rparr>
                      in if snd p > end
                         then Some (set_INTERVAL_END (fst p) start (it_insert end (snd p) tree))
                         else delete_rest start end (set_INTERVAL_END (fst p) start tree)
                    else delete_rest start end tree)"


section \<open>Other operations\<close>

text \<open>
  The callbacks of \<open>splay_tree_foreach\<close> have the first tree as their state; it is \<^const>\<open>None\<close> once a loop has
  not returned.
\<close>

definition interval_tree_add_1 :: "st_node \<Rightarrow> interval_tree option \<Rightarrow> int \<times> interval_tree option" where
  "interval_tree_add_1 node tree =
     (0, Option.bind tree (\<lambda>t. map_option snd (interval_tree_insert (fst node) (snd node) t)))"

definition interval_tree_add :: "interval_tree \<Rightarrow> interval_tree \<Rightarrow> interval_tree option" where
  "interval_tree_add tree1 tree2 = snd (splay_tree_foreach interval_tree_add_1 (it_splay tree2) (Some tree1))"

definition interval_tree_sub_1 :: "st_node \<Rightarrow> interval_tree option \<Rightarrow> int \<times> interval_tree option" where
  "interval_tree_sub_1 node tree =
     (let tree = Option.bind tree (interval_tree_delete (fst node) (snd node))
      in (case tree of Some t \<Rightarrow> if sp_root (it_splay t) = Leaf then 1 else 0 | None \<Rightarrow> 1, tree))"

definition interval_tree_sub :: "interval_tree \<Rightarrow> interval_tree \<Rightarrow> interval_tree option" where
  "interval_tree_sub tree1 tree2 = snd (splay_tree_foreach interval_tree_sub_1 (it_splay tree2) (Some tree1))"

definition interval_tree_min :: "interval_tree \<Rightarrow> st_node option" where
  "interval_tree_min tree = splay_tree_min (it_splay tree)"

definition interval_tree_max :: "interval_tree \<Rightarrow> st_node option" where
  "interval_tree_max tree = splay_tree_max (it_splay tree)"

definition interval_tree_predecessor :: "u64 \<Rightarrow> interval_tree \<Rightarrow> st_node option \<times> interval_tree" where
  "interval_tree_predecessor key tree = it_query (splay_tree_predecessor key) tree"

definition interval_tree_successor :: "u64 \<Rightarrow> interval_tree \<Rightarrow> st_node option \<times> interval_tree" where
  "interval_tree_successor key tree = it_query (splay_tree_successor key) tree"

definition interval_tree_covered :: "u64 \<Rightarrow> u64 \<Rightarrow> interval_tree \<Rightarrow> bool \<times> interval_tree" where
  "interval_tree_covered start end tree =
     (let (node, tree) = it_query (splay_tree_lookup start) tree
      in case node of
           Some n \<Rightarrow> (end \<le> snd n, tree)
         | None \<Rightarrow>
             let (node, tree) = it_query (splay_tree_predecessor start) tree
             in case node of
                  None \<Rightarrow> (False, tree)
                | Some n \<Rightarrow> (end \<le> snd n, tree))"


section \<open>The tree as a map\<close>

definition it_sorted :: "interval_tree \<Rightarrow> bool" where
  "it_sorted tree \<longleftrightarrow> sp_inv (it_splay tree) \<and> \<not> sp_delete_value (it_splay tree)"

definition it_map :: "interval_tree \<Rightarrow> u64 \<rightharpoonup> u64" where
  "it_map tree = sp_map (it_splay tree)"

definition it_count :: "interval_tree \<Rightarrow> bool" where
  "it_count tree \<longleftrightarrow> it_size tree = of_nat (card (dom (it_map tree)))"

definition it_splayed :: "u64 \<Rightarrow> interval_tree \<Rightarrow> interval_tree" where
  "it_splayed k tree = tree\<lparr>it_splay := splay_tree_splay k (it_splay tree)\<rparr>"

lemma it_splayed [simp]:
  "it_map (it_splayed k tree) = it_map tree" "it_sorted (it_splayed k tree) = it_sorted tree"
  "it_size (it_splayed k tree) = it_size tree" "it_deleted (it_splayed k tree) = it_deleted tree"
  "nodes (it_splay (it_splayed k tree)) = nodes (it_splay tree)"
  by (simp_all add: it_splayed_def it_map_def it_sorted_def)

lemma it_deleted_simps [simp]:
  "it_map (tree\<lparr>it_deleted := d\<rparr>) = it_map tree" "it_sorted (tree\<lparr>it_deleted := d\<rparr>) = it_sorted tree"
  by (simp_all add: it_map_def it_sorted_def)

lemma it_query_lookup:
  "it_sorted tree \<Longrightarrow> it_query (splay_tree_lookup k) tree = (map_option (Pair k) (it_map tree k), it_splayed k tree)"
  using splay.lookup [of "it_splay tree" k]
  by (simp add: it_query_def it_map_def it_sorted_def it_splayed_def split: prod.split)
    (metis fst_conv snd_conv snd_lookup)

lemma it_query_predecessor:
  "it_sorted tree \<Longrightarrow> \<exists>p. it_query (splay_tree_predecessor k) tree = (p, it_splayed k tree) \<and> is_pred (it_map tree) k p"
  using splay.pred [of "it_splay tree" k] snd_predecessor [of k "it_splay tree"]
  by (cases "splay_tree_predecessor k (it_splay tree)")
    (simp add: it_query_def it_map_def it_sorted_def it_splayed_def)

lemma it_query_successor:
  "it_sorted tree \<Longrightarrow> \<exists>p. it_query (splay_tree_successor k) tree = (p, it_splayed k tree) \<and> is_succ (it_map tree) k p"
  using splay.succ [of "it_splay tree" k] snd_successor [of k "it_splay tree"]
  by (cases "splay_tree_successor k (it_splay tree)")
    (simp add: it_query_def it_map_def it_sorted_def it_splayed_def)

lemma delete_value_insert_delete [simp]:
  "sp_delete_value (splay_tree_insert k v sp) = sp_delete_value sp"
  "sp_delete_value (splay_tree_delete k sp) = sp_delete_value sp"
  using sp_delete_value_run [of "SP_insert k v" sp] sp_delete_value_run [of "SP_delete k" sp] by simp_all

lemma finite_it_map [simp]: "finite (dom (it_map tree))"
  by (simp add: it_map_def finite_sp_map)

lemma it_insert:
  assumes "it_sorted tree"
  shows "it_sorted (it_insert s e tree)" and "it_map (it_insert s e tree) = (it_map tree)(s \<mapsto> e)"
    and "it_count tree \<Longrightarrow> it_map tree s = None \<Longrightarrow> it_count (it_insert s e tree)"
proof -
  show "it_sorted (it_insert s e tree)" and map: "it_map (it_insert s e tree) = (it_map tree)(s \<mapsto> e)"
    using assms by (simp_all add: it_insert_def it_sorted_def it_map_def splay.inv_insert splay.kv_insert)
  show "it_count (it_insert s e tree)" if "it_count tree" "it_map tree s = None"
    using that unfolding it_count_def map by (simp add: domIff it_insert_def)
qed

lemma it_delete:
  assumes "it_sorted tree"
  shows "it_sorted (it_delete s tree)" and "it_map (it_delete s tree) = (it_map tree)(s := None)"
    and "it_count tree \<Longrightarrow> it_map tree s \<noteq> None \<Longrightarrow> it_count (it_delete s tree)"
proof -
  show "it_sorted (it_delete s tree)" and map: "it_map (it_delete s tree) = (it_map tree)(s := None)"
    using assms by (simp_all add: it_delete_def it_sorted_def it_map_def splay.inv_delete splay.kv_delete)
  show "it_count (it_delete s tree)" if "it_count tree" "it_map tree s \<noteq> None"
  proof -
    have "s \<in> dom (it_map tree)" using that by auto
    then have "0 < card (dom (it_map tree))" by (auto simp: card_gt_0_iff)
    then show ?thesis
      using that \<open>s \<in> dom (it_map tree)\<close> unfolding it_count_def map
      by (simp add: it_delete_def of_nat_diff)
  qed
qed


section \<open>Stores to nodes\<close>

lemma inorder_map_tree [simp]: "inorder (map_tree f t) = map f (inorder t)"
  by (induction t) auto

lemma map_of_set_value:
  "map_of (map (\<lambda>n. if fst n = k then (fst n, e) else n) ns) = (if map_of ns k = None then map_of ns else (map_of ns)(k \<mapsto> e))"
  by (induction ns) (auto simp: fun_eq_iff)

lemma set_INTERVAL_END:
  assumes "it_sorted tree" "it_map tree k = Some v"
  shows "it_sorted (set_INTERVAL_END k e tree)" and "it_map (set_INTERVAL_END k e tree) = (it_map tree)(k \<mapsto> e)"
    and "it_count tree \<Longrightarrow> it_count (set_INTERVAL_END k e tree)"
proof -
  have "fst \<circ> (\<lambda>n. if fst n = k then (fst n, e) else n) = fst" by auto
  then show "it_sorted (set_INTERVAL_END k e tree)"
    using assms(1) by (simp add: it_sorted_def sp_inv_def nodes_def ordered_def set_INTERVAL_END_def)
  show map: "it_map (set_INTERVAL_END k e tree) = (it_map tree)(k \<mapsto> e)"
    using assms(2) by (simp add: it_map_def sp_map_def nodes_def set_INTERVAL_END_def map_of_set_value)
  show "it_count (set_INTERVAL_END k e tree)" if "it_count tree"
    using that assms(2) unfolding it_count_def map by (simp add: set_INTERVAL_END_def domI insert_absorb)
qed

text \<open>A new start must keep the order of the nodes.\<close>

lemma set_INTERVAL_START:
  assumes sorted: "it_sorted tree" and k: "it_map tree k = Some v"
    and s: "\<And>x. it_map tree x \<noteq> None \<Longrightarrow> x \<noteq> k \<Longrightarrow> x \<noteq> s \<and> (x < k \<longleftrightarrow> x < s)"
  shows "it_sorted (set_INTERVAL_START k s tree)"
    and "it_map (set_INTERVAL_START k s tree) = ((it_map tree)(k := None))(s \<mapsto> v)"
    and "it_count tree \<Longrightarrow> it_count (set_INTERVAL_START k s tree)"
proof -
  let ?f = "\<lambda>n. if fst n = k then (s, snd n) else n"
  have ord: "ordered (nodes (it_splay tree))" using sorted by (simp add: it_sorted_def sp_inv_def)
  have "(k, v) \<in> set (nodes (it_splay tree))"
    using k map_of_ordered [OF ord] by (simp add: it_map_def sp_map_def)
  then obtain xs ys where split: "nodes (it_splay tree) = xs @ (k, v) # ys" by (auto dest: split_list)
  have less: "\<forall>n \<in> set xs. fst n < k" "\<forall>n \<in> set ys. k < fst n" and ord': "ordered xs" "ordered ys"
    using ord split by auto
  have old: "it_map tree = (map_of (xs @ ys))(k \<mapsto> v)" "map_of (xs @ ys) k = None"
    using map_of_insert [OF less] split by (simp_all add: it_map_def sp_map_def del: map_of_append)
  have dom: "it_map tree (fst n) \<noteq> None" if "n \<in> set xs \<union> set ys" for n
  proof -
    have "n \<in> set (nodes (it_splay tree))" using that split by auto
    then have "map_of (nodes (it_splay tree)) (fst n) \<noteq> None" unfolding map_of_None_iff by blast
    then show ?thesis by (simp add: it_map_def sp_map_def)
  qed
  have xs: "\<forall>n \<in> set xs. fst n \<noteq> k" and ys: "\<forall>n \<in> set ys. fst n \<noteq> k" using less by (metis less_irrefl)+
  then have less': "\<forall>n \<in> set xs. fst n < s" "\<forall>n \<in> set ys. s < fst n"
    using s dom less by (metis UnI1, metis UnI2 linorder_less_linear less_asym)
  have "map ?f xs = xs" "map ?f ys = ys" using xs ys by (auto intro!: map_idI)
  then have nodes: "nodes (it_splay (set_INTERVAL_START k s tree)) = xs @ (s, v) # ys"
    using split by (simp add: set_INTERVAL_START_def nodes_def)
  show "it_sorted (set_INTERVAL_START k s tree)"
  proof -
    have "fst n < fst m" if "n \<in> set xs" "m \<in> set ys" for n m using less' that by (meson less_trans)
    then show ?thesis
      using sorted ord' less' by (simp add: it_sorted_def sp_inv_def nodes) (simp add: set_INTERVAL_START_def)
  qed
  show map: "it_map (set_INTERVAL_START k s tree) = ((it_map tree)(k := None))(s \<mapsto> v)"
    using old map_of_insert(1) [OF less', of v] by (simp add: it_map_def sp_map_def nodes fun_upd_idem del: map_of_append)
  show "it_count (set_INTERVAL_START k s tree)" if "it_count tree"
  proof -
    have "s \<notin> dom (map_of (xs @ ys))" "k \<notin> dom (map_of (xs @ ys))"
      using map_of_insert(2) [OF less'] old(2) by (simp_all add: domIff del: map_of_append)
    moreover have "it_map (set_INTERVAL_START k s tree) = (map_of (xs @ ys))(s \<mapsto> v)"
      using map old by (simp add: fun_upd_idem)
    ultimately show ?thesis
      using that old(1) by (simp add: it_count_def set_INTERVAL_START_def finite_dom_map_of del: map_of_append)
  qed
qed


section \<open>Correctness of insertion\<close>

definition it_inv :: "interval_tree \<Rightarrow> bool" where
  "it_inv tree \<longleftrightarrow> it_sorted tree \<and> iv_inv (it_map tree) \<and> it_count tree"

text \<open>The set of offsets.\<close>

definition offsets :: "interval_tree \<Rightarrow> u64 set" where
  "offsets tree = covers (it_map tree)"

lemma it_count_splayed [simp]: "it_count (it_splayed k tree) = it_count tree"
  by (simp add: it_count_def)

lemma it_count_deleted [simp]: "it_count (tree\<lparr>it_deleted := d\<rparr>) = it_count tree"
  by (simp add: it_count_def)

lemma merge_successors:
  assumes "it_sorted tree" "it_count tree" "merging (it_map tree) a b"
  shows "\<exists>e tree'. merge_successors (a, b) tree = Some ((a, e), tree') \<and> it_inv tree'
    \<and> offsets tree' = offsets tree \<and> it_map tree' a = Some e"
  using assms
proof (induction "card (dom (it_map tree))" arbitrary: b tree rule: less_induct)
  case less
  note t = less.prems
  obtain nx where q: "it_query (splay_tree_successor a) tree = (nx, it_splayed a tree)"
    and succ: "is_succ (it_map tree) a nx" using it_query_successor [OF t(1)] by blast
  have stop: "?case" if gap: "\<And>s e. it_map tree s = Some e \<Longrightarrow> a < s \<Longrightarrow> b < s"
    and eq: "merge_successors (a, b) tree = Some ((a, b), it_splayed a tree)"
    using merging_done [OF t(3) gap] t eq by (auto simp: it_inv_def offsets_def merging_def)
  show ?case
  proof (cases nx)
    case None
    then have "merge_successors (a, b) tree = Some ((a, b), it_splayed a tree)"
      using q by (subst merge_successors.simps) simp
    then show ?thesis using stop succ None by fastforce
  next
    case (Some n)
    then obtain s e where n: "nx = Some (s, e)" by (cases n) simp
    then have s: "a < s" "it_map tree s = Some e" "\<And>x. a < x \<Longrightarrow> x < s \<Longrightarrow> it_map tree x = None" using succ by auto
    show ?thesis
    proof (cases "s \<le> b")
      case False
      then have "merge_successors (a, b) tree = Some ((a, b), it_splayed a tree)"
        using q n by (subst merge_successors.simps) simp
      moreover have "b < x" if "it_map tree x = Some y" "a < x" for x y
        using s(3) [of x] that False by fastforce
      ultimately show ?thesis using stop by blast
    next
      case True
      let ?tree = "if b < e then set_INTERVAL_END a e (it_splayed a tree) else it_splayed a tree"
      have a: "it_map tree a = Some b" using t(3) by (simp add: merging_def)
      have tree: "it_sorted ?tree" "it_count ?tree" "it_map ?tree = (it_map tree)(a \<mapsto> max b e)"
        using t a set_INTERVAL_END [of "it_splayed a tree" a b e] by (auto simp: max_def map_upd_triv)
      let ?tree' = "it_delete s ?tree"
      have step: "merge_successors (a, b) tree = merge_successors (a, max b e) ?tree'"
        using q n True by (subst merge_successors.simps) (auto simp: max_def)
      have map: "it_map ?tree' = ((it_map tree)(a \<mapsto> max b e))(s := None)"
        using it_delete(2) [OF tree(1), of s] tree(3) by simp
      have "it_map ?tree s \<noteq> None" using tree(3) s by simp
      then have "it_sorted ?tree'" "it_count ?tree'" using it_delete [OF tree(1)] tree(2) by blast+
      moreover have "merging (it_map ?tree') a (max b e)" "offsets ?tree' = offsets tree"
        using merging_step [OF t(3) s(2,1) True] map by (simp_all add: offsets_def)
      moreover have "card (dom (it_map ?tree')) < card (dom (it_map tree))"
      proof (rule psubset_card_mono)
        show "dom (it_map ?tree') \<subset> dom (it_map tree)" using s a unfolding map by auto
      qed simp
      ultimately show ?thesis using less.hyps [of ?tree' "max b e"] step by simp
    qed
  qed
qed

text \<open>An insertion that extends the interval at \<open>a\<close> to \<open>b\<close> and then merges.\<close>

lemma insert_merging:
  assumes "it_sorted tree" "it_count tree" "it_map tree = m(a \<mapsto> b)" "iv_inv m" "a < b"
    "\<And>s e. m s = Some e \<Longrightarrow> s < a \<Longrightarrow> e < a"
  shows "\<exists>e tree'. merge_successors (a, b) tree = Some ((a, e), tree') \<and> it_inv tree'
    \<and> offsets tree' = covers (m(a := None)) \<union> {a..<b}"
proof -
  have "merging (it_map tree) a b" using merging_start [OF assms(4-6)] assms(3) by simp
  moreover have "offsets tree = covers (m(a := None)) \<union> {a..<b}" by (simp add: offsets_def assms(3) covers_upd)
  ultimately show ?thesis using merge_successors [OF assms(1,2)] by fastforce
qed

text \<open>The three ways an insertion at a start that is not in the tree begins.\<close>

lemma insert_extends_prev:
  assumes t: "it_inv tree" and se: "start < end" and p: "is_pred (it_map tree) start (Some (p, c))" "start \<le> c"
  shows "\<exists>node tree'. merge_successors (p, max c end) (if c < end then set_INTERVAL_END p end tree else tree) = Some (node, tree')
    \<and> it_inv tree' \<and> offsets tree' = offsets tree \<union> {start..<end}"
proof -
  let ?m = "it_map tree" and ?tree = "if c < end then set_INTERVAL_END p end tree else tree"
  have m: "iv_inv ?m" "?m p = Some c" "p < start" using t p by (auto simp: it_inv_def)
  then have "p < max c end" using p(2) se by (auto simp: less_max_iff_disj)
  moreover have "it_sorted ?tree" "it_count ?tree" "it_map ?tree = ?m(p \<mapsto> max c end)"
    using t m set_INTERVAL_END [of tree p c "end"] by (auto simp: it_inv_def max_def map_upd_triv)
  ultimately obtain e tree' where "merge_successors (p, max c end) ?tree = Some ((p, e), tree')" "it_inv tree'"
      "offsets tree' = covers (?m(p := None)) \<union> {p..<max c end}"
    using insert_merging [of ?tree ?m p "max c end"] m iv_inv_apart [OF m(1)] by blast
  moreover have "{p..<max c end} = {p..<c} \<union> {start..<end}" using p(2) m(3) by (auto simp: less_max_iff_disj)
  ultimately show ?thesis using covers_insert [of ?m p c, OF m(2)] by (auto simp: offsets_def)
qed

lemma insert_extends_next:
  assumes t: "it_inv tree" and se: "start < end" and absent: "it_map tree start = None"
    and n: "is_succ (it_map tree) start (Some (n, c))" "n \<le> end"
    and p: "\<And>s e. it_map tree s = Some e \<Longrightarrow> s < start \<Longrightarrow> e < start"
  defines "tree1 \<equiv> set_INTERVAL_START n start tree"
  shows "\<exists>node tree'. merge_successors (start, max c end) (if c < end then set_INTERVAL_END start end tree1 else tree1)
      = Some (node, tree') \<and> it_inv tree' \<and> offsets tree' = offsets tree \<union> {start..<end}"
proof -
  let ?m = "it_map tree" and ?tree = "if c < end then set_INTERVAL_END start end tree1 else tree1"
  have m: "iv_inv ?m" "?m n = Some c" "start < n" "n < c" using t n iv_inv_less by (auto simp: it_inv_def)
  have gap: "x \<noteq> start \<and> (x < n \<longleftrightarrow> x < start)" if "?m x \<noteq> None" "x \<noteq> n" for x
    using that n absent by (cases x start rule: linorder_cases) (auto dest: less_trans)
  have 1: "it_sorted tree1" "it_count tree1" "it_map tree1 = (?m(n := None))(start \<mapsto> c)"
    unfolding tree1_def using set_INTERVAL_START [OF _ m(2) gap] t by (auto simp: it_inv_def)
  have "it_map tree1 start = Some c" using 1(3) by simp
  then have "it_sorted ?tree" "it_count ?tree" "it_map ?tree = (?m(n := None))(start \<mapsto> max c end)"
    using 1 set_INTERVAL_END [OF 1(1), of start c "end"] by (auto simp: max_def)
  moreover have p': "e < start" if "(?m(n := None)) s = Some e" "s < start" for s e
    using that p by (simp split: if_splits)
  moreover have start: "start < max c end" using se by (simp add: less_max_iff_disj)
  ultimately obtain e tree' where "merge_successors (start, max c end) ?tree = Some ((start, e), tree')" "it_inv tree'"
      "offsets tree' = covers ((?m(n := None))(start := None)) \<union> {start..<max c end}"
    using insert_merging [of ?tree "?m(n := None)" start "max c end"] iv_inv_remove [OF m(1), of n] p' start by blast
  moreover have "(?m(n := None))(start := None) = ?m(n := None)" using absent by (auto simp: fun_eq_iff)
  moreover have "{start..<max c end} = {n..<c} \<union> {start..<end}" using n(2) m(3,4) se by (auto simp: less_max_iff_disj)
  ultimately show ?thesis using covers_insert [of ?m n c, OF m(2)] by (auto simp: offsets_def)
qed

lemma insert_new:
  assumes t: "it_inv tree" and se: "start < end" and absent: "it_map tree start = None"
    and p: "\<And>s e. it_map tree s = Some e \<Longrightarrow> s < start \<Longrightarrow> e < start"
  shows "\<exists>node tree'. merge_successors (start, end) (it_insert start end tree) = Some (node, tree')
    \<and> it_inv tree' \<and> offsets tree' = offsets tree \<union> {start..<end}"
proof -
  have "(it_map tree)(start := None) = it_map tree" using absent by (auto simp: fun_eq_iff)
  then show ?thesis
    using insert_merging [OF _ _ it_insert(2) _ se p] it_insert [of tree start "end"] t absent
    by (fastforce simp: it_inv_def offsets_def)
qed

lemma is_pred_ends:
  assumes inv: "iv_inv m" and pred: "is_pred m start prev" and c: "\<And>p c. prev = Some (p, c) \<Longrightarrow> P c"
    and P: "\<And>x. x < start \<Longrightarrow> P x" and s: "m s = Some e" "s < start"
  shows "P e"
proof (cases prev)
  case None
  then show ?thesis using pred s by simp
next
  case (Some n)
  then obtain p c' where p: "prev = Some (p, c')" by (cases n) simp
  then have m: "m p = Some c'" "p < start" "\<not> (p < s \<and> s < start)" using pred s by auto
  then consider "s = p" | "s < p" using s(2) by fastforce
  then show ?thesis
  proof cases
    case 1
    then show ?thesis using m s c [OF p] by simp
  next
    case 2
    then have "e < p" using iv_inv_apart [OF inv s(1) m(1)] by simp
    then show ?thesis using m(2) P less_trans by blast
  qed
qed

lemma it_inv_splayed [simp]: "it_inv (it_splayed k tree) = it_inv tree" "offsets (it_splayed k tree) = offsets tree"
  by (simp_all add: it_inv_def offsets_def)

lemma insert_present:
  assumes t: "it_inv tree" and se: "start < end" and Some: "it_map tree start = Some c"
  shows "\<exists>node tree'. interval_tree_insert start end tree = Some (node, tree')
    \<and> it_inv tree' \<and> offsets tree' = offsets tree \<union> {start..<end}"
proof -
  let ?m = "it_map tree" and ?tree = "it_splayed start tree"
  have sorted: "it_sorted tree" and inv: "iv_inv ?m" and count: "it_count tree" using t by (auto simp: it_inv_def)
  note lookup = it_query_lookup [OF sorted, of start]
  show ?thesis
  proof (cases "end \<le> c")
    case True
    then have eq: "interval_tree_insert start end tree = Some ((start, c), ?tree)"
      using lookup Some by (simp add: interval_tree_insert_def)
    have "{start..<c} \<subseteq> offsets tree"
      using covers_insert [of ?m start c, OF Some] unfolding offsets_def by blast
    moreover have "{start..<end} \<subseteq> {start..<c}" using True by auto
    ultimately have "offsets tree \<union> {start..<end} = offsets tree" by blast
    then show ?thesis using t eq by simp
  next
    case False
    then have eq: "interval_tree_insert start end tree = merge_successors (start, end) (set_INTERVAL_END start end ?tree)"
      using lookup Some by (simp add: interval_tree_insert_def)
    have sub: "{start..<c} \<subseteq> {start..<end}" using False by auto
    have ends: "e < start" if "?m s = Some e" "s < start" for s e using iv_inv_apart [OF inv that(1) Some that(2)] .
    have 1: "it_sorted (set_INTERVAL_END start end ?tree)" "it_count (set_INTERVAL_END start end ?tree)"
        "it_map (set_INTERVAL_END start end ?tree) = ?m(start \<mapsto> end)"
      using set_INTERVAL_END [of ?tree start c "end"] sorted count Some by simp_all
    obtain e tree' where "merge_successors (start, end) (set_INTERVAL_END start end ?tree) = Some ((start, e), tree')"
        "it_inv tree'" "offsets tree' = covers (?m(start := None)) \<union> {start..<end}"
      using insert_merging [OF 1 inv se] ends by blast
    moreover have "covers (?m(start := None)) \<union> {start..<end} = offsets tree \<union> {start..<end}"
      using covers_insert [of ?m start c, OF Some] sub unfolding offsets_def by blast
    ultimately show ?thesis using eq by simp
  qed
qed

lemma insert_absent:
  assumes t: "it_inv tree" and se: "start < end" and None: "it_map tree start = None"
  shows "\<exists>node tree'. interval_tree_insert start end tree = Some (node, tree')
    \<and> it_inv tree' \<and> offsets tree' = offsets tree \<union> {start..<end}"
proof -
  let ?m = "it_map tree" and ?tree = "it_splayed start tree"
  have sorted: "it_sorted tree" and inv: "iv_inv ?m" and count: "it_count tree" using t by (auto simp: it_inv_def)
  note lookup = it_query_lookup [OF sorted, of start]
  let ?t = "it_splayed start (it_splayed start ?tree)"
  obtain prev where prev: "it_query (splay_tree_predecessor start) ?tree = (prev, it_splayed start ?tree)" "is_pred ?m start prev"
    using it_query_predecessor [of ?tree start] sorted by auto
  obtain nx where nx: "it_query (splay_tree_successor start) (it_splayed start ?tree) = (nx, ?t)" "is_succ ?m start nx"
    using it_query_successor [of "it_splayed start ?tree" start] sorted by auto
  have t': "it_inv ?t" "it_map ?t = ?m" "offsets ?t = offsets tree" using t by simp_all
  show ?thesis
  proof (cases "\<exists>p c. prev = Some (p, c) \<and> start \<le> c")
    case True
    then obtain p c where p: "prev = Some (p, c)" "start \<le> c" by blast
    then have "interval_tree_insert start end tree =
        merge_successors (p, max c end) (if c < end then set_INTERVAL_END p end ?t else ?t)"
      using lookup None prev(1) nx(1) by (auto simp: interval_tree_insert_def max_def)
    then show ?thesis using insert_extends_prev [OF t'(1) se, of p c] prev(2) p t' by simp
  next
    case False
    then have ends: "e < start" if "?m s = Some e" "s < start" for s e
      using is_pred_ends [OF inv prev(2) _ _ that, of "\<lambda>x. x < start"] by fastforce
    show ?thesis
    proof (cases "\<exists>n c. nx = Some (n, c) \<and> n \<le> end")
      case True
      then obtain n c where n: "nx = Some (n, c)" "n \<le> end" by blast
      moreover have "start < n" using nx(2) n by simp
      ultimately have "interval_tree_insert start end tree =
          merge_successors (start, max c end)
            (if c < end then set_INTERVAL_END start end (set_INTERVAL_START n start ?t) else set_INTERVAL_START n start ?t)"
        using lookup None prev(1) nx(1) False
        by (auto simp: interval_tree_insert_def Let_def max_def split: option.split)
      then show ?thesis using insert_extends_next [OF t'(1) se, of n c] nx(2) n t' None ends by simp
    next
      case False': False
      then have "interval_tree_insert start end tree = merge_successors (start, end) (it_insert start end ?t)"
        using lookup None prev(1) nx(1) False
        by (auto simp: interval_tree_insert_def Let_def split: option.split)
      then show ?thesis using insert_new [OF t'(1) se] t' None ends by simp
    qed
  qed
qed

lemma interval_tree_insert:
  assumes "it_inv tree" "start < end"
  shows "\<exists>node tree'. interval_tree_insert start end tree = Some (node, tree')
    \<and> it_inv tree' \<and> offsets tree' = offsets tree \<union> {start..<end}"
  using insert_present [OF assms] insert_absent [OF assms] by (cases "it_map tree start") blast+


section \<open>Correctness of deletion\<close>

lemma delete_rest:
  assumes "it_inv tree" "cut_at (it_map tree) start" "start < end"
  shows "\<exists>tree'. delete_rest start end tree = Some tree' \<and> it_inv tree' \<and> offsets tree' = offsets tree - {start..<end}"
  using assms
proof (induction "card (dom (it_map tree))" arbitrary: tree rule: less_induct)
  case less
  let ?m = "it_map tree"
  have t: "it_sorted tree" "iv_inv ?m" "it_count tree" using less.prems(1) by (auto simp: it_inv_def)
  obtain nx where q: "it_query (splay_tree_successor start) tree = (nx, it_splayed start tree)"
    and succ: "is_succ ?m start nx" using it_query_successor [OF t(1)] by blast
  show ?case
  proof (cases "\<exists>n c. nx = Some (n, c) \<and> n < end")
    case False
    then have "delete_rest start end tree = Some (it_splayed start tree)"
      using q by (subst delete_rest.simps) (auto split: option.split)
    moreover have "?m x = None" if "start < x" "x < end" for x
      using that succ False by (cases nx) (auto dest: less_trans)
    then have "offsets tree \<inter> {start..<end} = {}" using cut_gap [OF less.prems(2)] by (auto simp: offsets_def)
    ultimately show ?thesis using less.prems(1) by auto
  next
    case True
    then obtain n c where n: "nx = Some (n, c)" "n < end" by blast
    then have m: "start < n" "?m n = Some c" "\<And>x. start < x \<Longrightarrow> x < n \<Longrightarrow> ?m x = None" using succ by auto
    have before: "offsets tree \<inter> {start..<n} = {}" using cut_gap [OF less.prems(2) m(3)] by (simp add: offsets_def)
    let ?tree = "(it_splayed start tree)\<lparr>it_deleted := True\<rparr>"
    have tree: "it_sorted ?tree" "it_count ?tree" "it_map ?tree = ?m" using t by simp_all
    show ?thesis
    proof (cases "c \<le> end")
      case True
      let ?tree' = "it_delete n ?tree"
      have step: "delete_rest start end tree = delete_rest start end ?tree'"
        using q n True by (subst delete_rest.simps) auto
      have map: "it_map ?tree' = ?m(n := None)" using it_delete(2) [OF tree(1)] tree(3) by simp
      have "it_inv ?tree'"
        using it_delete [OF tree(1), of n] tree m(2) map iv_inv_remove [OF t(2)] by (simp add: it_inv_def)
      moreover have "cut_at (it_map ?tree') start" using less.prems(2) map by (simp add: cut_at_def)
      moreover have "card (dom (it_map ?tree')) < card (dom ?m)"
        using m(2) map by (intro psubset_card_mono) auto
      moreover have "offsets ?tree' = offsets tree - {n..<c}"
        using covers_remove [OF t(2) m(2)] map by (simp add: offsets_def)
      moreover have "{n..<c} \<subseteq> {start..<end}" using m(1) True by auto
      ultimately show ?thesis using less.hyps [of ?tree'] less.prems(3) step by auto
    next
      case False
      then have c: "n \<le> end" "end < c" using n(2) by auto
      note move = move_start [OF t(2) m(2) c]
      have "delete_rest start end tree = Some (set_INTERVAL_START n end ?tree)"
        using q n False by (subst delete_rest.simps) auto
      moreover have "it_map (set_INTERVAL_START n end ?tree) = (?m(n := None))(end \<mapsto> c)"
          "it_sorted (set_INTERVAL_START n end ?tree)" "it_count (set_INTERVAL_START n end ?tree)"
        using set_INTERVAL_START [OF tree(1), of n c "end"] tree m(2) move(3) by auto
      ultimately show ?thesis
        using move(1,2) before n m(1) by (auto simp: it_inv_def offsets_def)
    qed
  qed
qed

lemma delete_present:
  assumes t: "it_inv tree" and se: "start < end" and c: "it_map tree start = Some c"
  shows "\<exists>tree'. interval_tree_delete start end tree = Some tree' \<and> it_inv tree' \<and> offsets tree' = offsets tree - {start..<end}"
proof -
  let ?m = "it_map tree" and ?tree = "(it_splayed start tree)\<lparr>it_deleted := True\<rparr>"
  have tree: "it_sorted ?tree" "it_count ?tree" "it_map ?tree = ?m" and inv: "iv_inv ?m"
    using t by (auto simp: it_inv_def)
  have lookup: "it_query (splay_tree_lookup start) tree = (Some (start, c), it_splayed start tree)"
    using it_query_lookup [of tree start] t c by (simp add: it_inv_def)
  show ?thesis
  proof (cases "end < c")
    case True
    then have less: "start \<le> end" "end < c" using se by auto
    note move = move_start [OF inv c less]
    have "interval_tree_delete start end tree = Some (set_INTERVAL_START start end ?tree)"
      using lookup True by (simp add: interval_tree_delete_def)
    then show ?thesis
      using set_INTERVAL_START [OF tree(1), of start c "end"] tree c move by (simp add: it_inv_def offsets_def)
  next
    case False
    let ?tree' = "it_delete start ?tree"
    have eq: "interval_tree_delete start end tree = delete_rest start end ?tree'"
      using lookup False by (simp add: interval_tree_delete_def)
    have map: "it_map ?tree' = ?m(start := None)" using it_delete(2) [OF tree(1)] tree(3) by simp
    have inv': "it_inv ?tree'"
      using it_delete [OF tree(1), of start] tree c map iv_inv_remove [OF inv] by (simp add: it_inv_def)
    have "cut_at (it_map ?tree') start"
      unfolding cut_at_def map using iv_inv_apart [OF inv _ c] by (auto simp: le_less less_imp_le split: if_splits)
    then obtain tree' where "delete_rest start end ?tree' = Some tree'" "it_inv tree'"
        "offsets tree' = offsets ?tree' - {start..<end}"
      using delete_rest [OF inv' _ se] by blast
    moreover have "offsets ?tree' = offsets tree - {start..<c}"
      using covers_remove [OF inv c] map by (simp add: offsets_def)
    moreover have "{start..<c} \<subseteq> {start..<end}" using False by auto
    ultimately have "offsets tree' = offsets tree - {start..<end}" by blast
    then show ?thesis using eq \<open>delete_rest start end ?tree' = Some tree'\<close> \<open>it_inv tree'\<close> by simp
  qed
qed

lemma delete_reaching:
  assumes t: "it_inv tree" and se: "start < end" and p: "it_map tree p = Some c" "p < start" "start < c"
  shows "c > end \<Longrightarrow> it_inv (set_INTERVAL_END p start (it_insert end c tree))
      \<and> offsets (set_INTERVAL_END p start (it_insert end c tree)) = offsets tree - {start..<end}"
    and "c \<le> end \<Longrightarrow> \<exists>tree'. delete_rest start end (set_INTERVAL_END p start tree) = Some tree'
      \<and> it_inv tree' \<and> offsets tree' = offsets tree - {start..<end}"
proof -
  let ?m = "it_map tree"
  have inv: "iv_inv ?m" and tree: "it_sorted tree" "it_count tree" using t by (auto simp: it_inv_def)
  have less: "p < start" "start \<le> c" using p by auto
  note move = move_end [OF inv p(1) less]
  show "\<exists>tree'. delete_rest start end (set_INTERVAL_END p start tree) = Some tree'
      \<and> it_inv tree' \<and> offsets tree' = offsets tree - {start..<end}" if "c \<le> end"
  proof -
    let ?tree' = "set_INTERVAL_END p start tree"
    have map: "it_map ?tree' = ?m(p \<mapsto> start)" "it_inv ?tree'"
      using set_INTERVAL_END [OF tree(1) p(1), of start] tree move(1) by (auto simp: it_inv_def)
    have "e \<le> start" if "?m s = Some e" "s \<le> start" "s \<noteq> p" for s e
    proof (cases "s < p")
      case True
      then have "e < p" using iv_inv_apart [OF inv that(1) p(1)] by simp
      then show ?thesis using p(2) by auto
    next
      case False
      then have "c < s" using iv_inv_apart [OF inv p(1) that(1)] that(3) by auto
      then show ?thesis using p(3) that(2) by auto
    qed
    then have "cut_at (it_map ?tree') start" unfolding cut_at_def map by auto
    then obtain tree' where "delete_rest start end ?tree' = Some tree'" "it_inv tree'"
        "offsets tree' = offsets ?tree' - {start..<end}"
      using delete_rest [OF map(2) _ se] by blast
    moreover have "offsets ?tree' = offsets tree - {start..<c}" using move(2) map by (simp add: offsets_def)
    moreover have "{start..<c} \<subseteq> {start..<end}" using that by auto
    ultimately have "offsets tree' = offsets tree - {start..<end}" by blast
    then show ?thesis using \<open>delete_rest start end ?tree' = Some tree'\<close> \<open>it_inv tree'\<close> by simp
  qed
  show "it_inv (set_INTERVAL_END p start (it_insert end c tree))
      \<and> offsets (set_INTERVAL_END p start (it_insert end c tree)) = offsets tree - {start..<end}" if "end < c"
  proof -
    note cut = cut_inside [OF inv p(1,2) se that]
    let ?tree' = "it_insert end c tree"
    have "it_sorted ?tree'" "it_map ?tree' = ?m(end \<mapsto> c)" "it_count ?tree'"
      using it_insert [OF tree(1), of "end" c] tree(2) cut(3) by auto
    moreover have "it_map ?tree' p = Some c" using calculation(2) p se by simp
    ultimately show ?thesis
      using set_INTERVAL_END [of ?tree' p c start] cut by (simp add: it_inv_def offsets_def)
  qed
qed

lemma it_inv_deleted [simp]:
  "it_inv (tree\<lparr>it_deleted := d\<rparr>) = it_inv tree" "offsets (tree\<lparr>it_deleted := d\<rparr>) = offsets tree"
  by (simp_all add: it_inv_def offsets_def)

lemma delete_absent:
  assumes t: "it_inv tree" and se: "start < end" and absent: "it_map tree start = None"
  shows "\<exists>tree'. interval_tree_delete start end tree = Some tree' \<and> it_inv tree' \<and> offsets tree' = offsets tree - {start..<end}"
proof -
  let ?m = "it_map tree" and ?t = "it_splayed start (it_splayed start tree)"
  have sorted: "it_sorted tree" and inv: "iv_inv ?m" using t by (auto simp: it_inv_def)
  have lookup: "it_query (splay_tree_lookup start) tree = (None, it_splayed start tree)"
    using it_query_lookup [OF sorted, of start] absent by simp
  obtain prev where prev: "it_query (splay_tree_predecessor start) (it_splayed start tree) = (prev, ?t)" "is_pred ?m start prev"
    using it_query_predecessor [of "it_splayed start tree" start] sorted by auto
  show ?thesis
  proof (cases "\<exists>p c. prev = Some (p, c) \<and> start < c")
    case True
    then obtain p c where p: "prev = Some (p, c)" "start < c" by blast
    let ?t' = "?t\<lparr>it_deleted := True\<rparr>"
    have "interval_tree_delete start end tree =
        (if c > end then Some (set_INTERVAL_END p start (it_insert end c ?t'))
         else delete_rest start end (set_INTERVAL_END p start ?t'))"
      using lookup prev(1) p by (simp add: interval_tree_delete_def)
    then show ?thesis
      using delete_reaching [of ?t' start "end" p c] t se prev(2) p by (auto simp: not_less)
  next
    case False
    have "interval_tree_delete start end tree = delete_rest start end ?t"
      using lookup prev(1) False by (auto simp: interval_tree_delete_def split: option.split)
    moreover have "e \<le> start" if "?m s = Some e" "s \<le> start" for s e
    proof -
      have "s < start" using that absent by (cases "s = start") auto
      moreover have "c \<le> start" if "prev = Some (p, c)" for p c using that False by auto
      ultimately show ?thesis
        using is_pred_ends [OF inv prev(2), of "\<lambda>x. x \<le> start" s e] that(1) by (simp add: less_imp_le)
    qed
    then have "cut_at (it_map ?t) start" by (simp add: cut_at_def)
    ultimately show ?thesis using delete_rest [of ?t start "end"] t se by simp
  qed
qed

lemma interval_tree_delete:
  assumes "it_inv tree" "start < end"
  shows "\<exists>tree'. interval_tree_delete start end tree = Some tree' \<and> it_inv tree' \<and> offsets tree' = offsets tree - {start..<end}"
  using delete_present [OF assms] delete_absent [OF assms] by (cases "it_map tree start") blast+


section \<open>Queries\<close>

lemma offsets_member: "x \<in> offsets tree \<longleftrightarrow> (\<exists>s e. it_map tree s = Some e \<and> s \<le> x \<and> x < e)"
  by (simp add: offsets_def covers_def)

lemma covered_nearest:
  assumes inv: "iv_inv m" and n: "m s = Some e" "s \<le> start" and gap: "\<And>x. s < x \<Longrightarrow> x \<le> start \<Longrightarrow> m x = None"
    and se: "start < end"
  shows "{start..<end} \<subseteq> covers m \<longleftrightarrow> end \<le> e"
proof
  assume cov: "{start..<end} \<subseteq> covers m"
  then have "start \<in> covers m" using se by auto
  then obtain s' e' where s': "m s' = Some e'" "s' \<le> start" "start < e'" unfolding covers_def by blast
  then have "\<not> s < s'" using gap [of s'] by auto
  moreover have "\<not> s' < s" using iv_inv_apart [OF inv s'(1) n(1)] s' n(2) by auto
  ultimately have "s' = s" by simp
  then have "start < e" using s' n by simp
  moreover have "e \<notin> covers m" using end_not_covered [OF inv n(1)] .
  ultimately have "e \<notin> {start..<end}" "start \<le> e" using cov by auto
  then show "end \<le> e" by simp
next
  assume "end \<le> e"
  then have "{start..<end} \<subseteq> {s..<e}" using n(2) by auto
  then show "{start..<end} \<subseteq> covers m" using covers_insert [of m s e, OF n(1)] by blast
qed

lemma interval_tree_covered:
  assumes t: "it_inv tree" and se: "start < end"
  shows "\<exists>tree'. interval_tree_covered start end tree = ({start..<end} \<subseteq> offsets tree, tree')
    \<and> it_inv tree' \<and> offsets tree' = offsets tree"
proof -
  let ?m = "it_map tree"
  have sorted: "it_sorted tree" and inv: "iv_inv ?m" using t by (auto simp: it_inv_def)
  note lookup = it_query_lookup [OF sorted, of start]
  show ?thesis
  proof (cases "?m start")
    case (Some c)
    have "{start..<end} \<subseteq> covers ?m \<longleftrightarrow> end \<le> c" using covered_nearest [OF inv Some _ _ se] by auto
    then show ?thesis using lookup Some t by (simp add: interval_tree_covered_def offsets_def)
  next
    case None
    let ?t = "it_splayed start (it_splayed start tree)"
    obtain prev where prev: "it_query (splay_tree_predecessor start) (it_splayed start tree) = (prev, ?t)" "is_pred ?m start prev"
      using it_query_predecessor [of "it_splayed start tree" start] sorted by auto
    show ?thesis
    proof (cases prev)
      case None': None
      then have "start \<notin> covers ?m" using prev(2) None by (auto simp: covers_def le_less)
      then have "\<not> {start..<end} \<subseteq> covers ?m" using se by auto
      then show ?thesis
        using lookup None prev(1) None' t by (simp add: interval_tree_covered_def offsets_def)
    next
      case (Some n)
      then obtain p c where p: "prev = Some (p, c)" by (cases n) simp
      then have "?m p = Some c" "p \<le> start" "\<And>x. p < x \<Longrightarrow> x \<le> start \<Longrightarrow> ?m x = None"
        using prev(2) None by (auto simp: le_less)
      then have "{start..<end} \<subseteq> covers ?m \<longleftrightarrow> end \<le> c" using covered_nearest [OF inv _ _ _ se] by blast
      then show ?thesis
        using lookup None prev(1) p t by (simp add: interval_tree_covered_def offsets_def)
    qed
  qed
qed

text \<open>The first interval that ends after an offset.\<close>

definition first_after :: "interval_tree \<Rightarrow> u64 \<Rightarrow> st_node option \<Rightarrow> bool" where
  "first_after tree x r \<longleftrightarrow>
     (case r of
        None \<Rightarrow> \<forall>s e. it_map tree s = Some e \<longrightarrow> e \<le> x
      | Some (s, e) \<Rightarrow> it_map tree s = Some e \<and> x < e \<and> (\<forall>s' e'. it_map tree s' = Some e' \<longrightarrow> s' < s \<longrightarrow> e' \<le> x))"

lemma interval_tree_lookup:
  assumes t: "it_inv tree"
  shows "\<exists>r tree'. interval_tree_lookup x tree = (r, tree') \<and> first_after tree x r \<and> it_inv tree' \<and> offsets tree' = offsets tree"
proof -
  let ?m = "it_map tree"
  have sorted: "it_sorted tree" and inv: "iv_inv ?m" using t by (auto simp: it_inv_def)
  note lookup = it_query_lookup [OF sorted, of x]
  show ?thesis
  proof (cases "?m x")
    case (Some c)
    then have "first_after tree x (Some (x, c))"
      using iv_inv_less [OF inv] iv_inv_apart [OF inv _ Some] by (auto simp: first_after_def less_imp_le)
    then show ?thesis using lookup Some t by (simp add: interval_tree_lookup_def)
  next
    case None
    let ?t = "it_splayed x (it_splayed x tree)"
    obtain prev where prev: "it_query (splay_tree_predecessor x) (it_splayed x tree) = (prev, ?t)" "is_pred ?m x prev"
      using it_query_predecessor [of "it_splayed x tree" x] sorted by auto
    obtain nx where nx: "it_query (splay_tree_successor x) ?t = (nx, it_splayed x ?t)" "is_succ ?m x nx"
      using it_query_successor [of ?t x] sorted by auto
    show ?thesis
    proof (cases "\<exists>p c. prev = Some (p, c) \<and> x < c")
      case True
      then obtain p c where p: "prev = Some (p, c)" "x < c" by blast
      then have "?m p = Some c" "p < x" using prev(2) by auto
      moreover have "e \<le> x" if "?m s = Some e" "s < p" for s e
        using iv_inv_apart [OF inv that(1) \<open>?m p = Some c\<close> that(2)] \<open>p < x\<close> by auto
      ultimately have "first_after tree x prev" using p by (auto simp: first_after_def)
      then show ?thesis using lookup None prev(1) p t by (simp add: interval_tree_lookup_def)
    next
      case False
      then have "c \<le> x" if "prev = Some (p, c)" for p c using that by auto
      then have before: "e \<le> x" if "?m s = Some e" "s < x" for s e
        using is_pred_ends [OF inv prev(2), of "\<lambda>y. y \<le> x" s e] that by (simp add: less_imp_le)
      have between: "e \<le> x" if "?m s = Some e" "\<not> x < s" for s e
        using before [of s e] that None by (cases "s = x") auto
      have "interval_tree_lookup x tree = (nx, it_splayed x ?t)"
        using lookup None prev(1) nx(1) False by (auto simp: interval_tree_lookup_def split: option.split)
      moreover have "first_after tree x nx"
      proof (cases nx)
        case None
        then have "\<not> x < s" if "?m s = Some e" for s e using nx(2) that by auto
        then show ?thesis using None between by (simp add: first_after_def)
      next
        case (Some n)
        then obtain s e where n: "nx = Some (s, e)" by (cases n) simp
        then have m: "?m s = Some e" "x < s" using nx(2) by auto
        moreover have "x < e" using less_trans [OF m(2) iv_inv_less [OF inv m(1)]] .
        moreover have "e' \<le> x" if "?m s' = Some e'" "s' < s" for s' e'
          using that between [of s' e'] nx(2) n by (cases "x < s'") auto
        ultimately show ?thesis using n by (simp add: first_after_def)
      qed
      ultimately show ?thesis using t by simp
    qed
  qed
qed


section \<open>Sequences of operations\<close>

datatype it_op = IT_insert u64 u64 | IT_delete u64 u64 | IT_covered u64 u64 | IT_lookup u64 | IT_empty

primrec it_run :: "it_op \<Rightarrow> interval_tree \<Rightarrow> interval_tree option" where
  "it_run (IT_insert start end) tree = map_option snd (interval_tree_insert start end tree)"
| "it_run (IT_delete start end) tree = interval_tree_delete start end tree"
| "it_run (IT_covered start end) tree = Some (snd (interval_tree_covered start end tree))"
| "it_run (IT_lookup x) tree = Some (snd (interval_tree_lookup x tree))"
| "it_run IT_empty tree = Some (interval_tree_empty tree)"

definition it_runs :: "it_op list \<Rightarrow> interval_tree \<Rightarrow> interval_tree option" where
  "it_runs ops tree = fold (\<lambda>op t. Option.bind t (it_run op)) ops (Some tree)"

primrec set_run :: "it_op \<Rightarrow> u64 set \<Rightarrow> u64 set" where
  "set_run (IT_insert start end) A = A \<union> {start..<end}"
| "set_run (IT_delete start end) A = A - {start..<end}"
| "set_run (IT_covered start end) A = A"
| "set_run (IT_lookup x) A = A"
| "set_run IT_empty A = {}"

text \<open>The intervals are not empty.\<close>

primrec it_op_ok :: "it_op \<Rightarrow> bool" where
  "it_op_ok (IT_insert start end) = (start < end)"
| "it_op_ok (IT_delete start end) = (start < end)"
| "it_op_ok (IT_covered start end) = (start < end)"
| "it_op_ok (IT_lookup x) = True"
| "it_op_ok IT_empty = True"

lemma delete_value_empty [simp]: "sp_delete_value (splay_tree_empty sp) = sp_delete_value sp"
  by (simp add: splay_tree_empty_def)

lemma it_inv_empty [simp]:
  "it_sorted tree \<Longrightarrow> it_inv (interval_tree_empty tree)" "offsets (interval_tree_empty tree) = {}"
  by (simp_all add: it_inv_def it_sorted_def it_map_def it_count_def offsets_def interval_tree_empty_def Let_def)

lemma it_inv_create [simp]: "it_inv (interval_tree_create n)" "offsets (interval_tree_create n) = {}"
  by (simp_all add: it_inv_def it_sorted_def it_map_def it_count_def offsets_def interval_tree_create_def)
    (simp add: splay_tree_create_def)

lemma it_run:
  assumes "it_inv tree" "it_op_ok op"
  shows "\<exists>tree'. it_run op tree = Some tree' \<and> it_inv tree' \<and> offsets tree' = set_run op (offsets tree)"
proof (cases op)
  case (IT_insert start e)
  then obtain node tree' where "interval_tree_insert start e tree = Some (node, tree')" "it_inv tree'"
      "offsets tree' = offsets tree \<union> {start..<e}"
    using interval_tree_insert [OF assms(1), of start e] assms(2) by (simp only: it_op_ok.simps) blast
  then show ?thesis using IT_insert by simp
next
  case (IT_delete start e)
  then show ?thesis using interval_tree_delete [OF assms(1), of start e] assms(2) by simp
next
  case (IT_covered start e)
  then have "start < e" using assms(2) by simp
  from interval_tree_covered [OF assms(1) this]
  show ?thesis unfolding IT_covered it_run.simps set_run.simps by (elim exE conjE) simp
next
  case (IT_lookup x)
  from interval_tree_lookup [OF assms(1), of x]
  show ?thesis unfolding IT_lookup it_run.simps set_run.simps by (elim exE conjE) simp
next
  case IT_empty
  then show ?thesis using assms(1) by (simp add: it_inv_def [of tree])
qed

lemma it_runs:
  "it_inv tree \<Longrightarrow> list_all it_op_ok ops \<Longrightarrow>
   \<exists>tree'. it_runs ops tree = Some tree' \<and> it_inv tree' \<and> offsets tree' = fold set_run ops (offsets tree)"
proof (induction ops arbitrary: tree)
  case (Cons op ops)
  then obtain t where t: "it_run op tree = Some t" "it_inv t" "offsets t = set_run op (offsets tree)"
    using it_run [of tree op] by auto
  moreover have "it_runs (op # ops) tree = it_runs ops t" using t(1) by (simp add: it_runs_def)
  ultimately show ?case using Cons.IH [OF t(2)] Cons.prems(2) by simp
qed (simp add: it_runs_def)

text \<open>
  C17. The interval tree is a set of offsets. Any sequence of insertions, deletions, queries and clearings with intervals
  that are not empty returns, on a new tree; all the intervals it keeps are disjoint and do not touch, the
  field \<^verbatim>\<open>size\<close> is their number modulo \<open>2 ^ 32\<close>, and the offsets they contain are those the same sequence of unions
  and differences makes. \<^verbatim>\<open>interval_tree_covered\<close> decides whether an interval is a subset of this set.
\<close>

theorem interval_tree_is_set:
  assumes "list_all it_op_ok ops"
  shows "\<exists>tree. it_runs ops (interval_tree_create n) = Some tree \<and> it_inv tree
    \<and> offsets tree = fold set_run ops {}
    \<and> (\<forall>start end. start < end \<longrightarrow> fst (interval_tree_covered start end tree) = ({start..<end} \<subseteq> fold set_run ops {}))"
proof -
  obtain tree where t: "it_runs ops (interval_tree_create n) = Some tree" "it_inv tree" "offsets tree = fold set_run ops {}"
    using it_runs [of "interval_tree_create n" ops] assms by auto
  moreover have "fst (interval_tree_covered start end tree) = ({start..<end} \<subseteq> fold set_run ops {})"
    if "start < end" for start "end"
    using interval_tree_covered [OF t(2) that] t(3) by (metis fst_conv)
  ultimately show ?thesis by blast
qed

definition it_sample :: "it_op list" where
  "it_sample = [IT_insert 10 20, IT_insert 30 40, IT_insert 15 30, IT_delete 12 14, IT_covered 20 35, IT_insert 50 60]"

theorem interval_tree_is_set_witness:
  "\<exists>tree. it_runs it_sample (interval_tree_create 6) = Some tree \<and> it_inv tree
    \<and> offsets tree = fold set_run it_sample {}
    \<and> (\<forall>start end. start < end \<longrightarrow> fst (interval_tree_covered start end tree) = ({start..<end} \<subseteq> fold set_run it_sample {}))"
  by (rule interval_tree_is_set) (simp add: it_sample_def)


section \<open>Adding and subtracting trees\<close>

definition node_offsets :: "st_node list \<Rightarrow> u64 set" where
  "node_offsets ns = (\<Union>n \<in> set ns. {fst n..<snd n})"

lemma node_offsets_simps [simp]:
  "node_offsets [] = {}" "node_offsets (n # ns) = {fst n..<snd n} \<union> node_offsets ns"
  "node_offsets (ns @ ms) = node_offsets ns \<union> node_offsets ms"
  by (simp_all add: node_offsets_def)

text \<open>The intervals of a tree, in order.\<close>

definition it_nodes :: "interval_tree \<Rightarrow> st_node list" where
  "it_nodes tree = nodes (it_splay tree)"

lemma it_nodes:
  assumes "it_inv tree"
  shows "ordered (it_nodes tree)" and "map_of (it_nodes tree) = it_map tree"
    and "offsets tree = node_offsets (it_nodes tree)" and "\<forall>n \<in> set (it_nodes tree). fst n < snd n"
proof -
  show ord: "ordered (it_nodes tree)" and map: "map_of (it_nodes tree) = it_map tree"
    using assms by (simp_all add: it_inv_def it_sorted_def it_nodes_def sp_inv_def it_map_def sp_map_def)
  have iff: "it_map tree s = Some e \<longleftrightarrow> (s, e) \<in> set (it_nodes tree)" for s e
    using map_of_ordered [OF ord] map by simp
  then show "\<forall>n \<in> set (it_nodes tree). fst n < snd n"
    using iv_inv_less [of "it_map tree"] assms by (auto simp: it_inv_def)
  show "offsets tree = node_offsets (it_nodes tree)"
    unfolding set_eq_iff offsets_member node_offsets_def using iff by fastforce
qed

lemma add_nodes:
  assumes "it_inv tree" "\<forall>n \<in> set ns. fst n < snd n"
  shows "\<exists>tree'. visit interval_tree_add_1 ns (Some tree) = (0, Some tree') \<and> it_inv tree'
    \<and> offsets tree' = offsets tree \<union> node_offsets ns"
  using assms
proof (induction ns arbitrary: tree)
  case (Cons n ns)
  then have "fst n < snd n" by simp
  from interval_tree_insert [OF Cons.prems(1) this] obtain node t
    where t: "interval_tree_insert (fst n) (snd n) tree = Some (node, t)" "it_inv t" "offsets t = offsets tree \<union> {fst n..<snd n}"
    by (elim exE conjE)
  obtain t' where t': "visit interval_tree_add_1 ns (Some t) = (0, Some t')" "it_inv t'" "offsets t' = offsets t \<union> node_offsets ns"
    using Cons.IH [OF t(2)] Cons.prems(2) by auto
  show ?case using t t' by (simp add: interval_tree_add_1_def [of n] Un_assoc)
qed simp

lemma sub_nodes:
  assumes "it_inv tree" "\<forall>n \<in> set ns. fst n < snd n"
  shows "\<exists>r tree'. visit interval_tree_sub_1 ns (Some tree) = (r, Some tree') \<and> it_inv tree'
    \<and> offsets tree' = offsets tree - node_offsets ns"
  using assms
proof (induction ns arbitrary: tree)
  case (Cons n ns)
  then have "fst n < snd n" by simp
  from interval_tree_delete [OF Cons.prems(1) this] obtain t
    where t: "interval_tree_delete (fst n) (snd n) tree = Some t" "it_inv t" "offsets t = offsets tree - {fst n..<snd n}"
    by (elim exE conjE)
  show ?case
  proof (cases "sp_root (it_splay t) = Leaf")
    case True
    then have "offsets t = {}" by (simp add: offsets_def it_map_def sp_map_def nodes_def)
    then show ?thesis using t True by (auto simp: interval_tree_sub_1_def [of n])
  next
    case False
    obtain r t' where t': "visit interval_tree_sub_1 ns (Some t) = (r, Some t')" "it_inv t'" "offsets t' = offsets t - node_offsets ns"
      using Cons.IH [OF t(2)] Cons.prems(2) by auto
    show ?thesis using t t' False by (simp add: interval_tree_sub_1_def [of n] Diff_eq Int_assoc)
  qed
qed simp

text \<open>
  C23. Adding a tree to another makes the union of their sets, and subtracting it makes their
  difference, although subtraction stops as soon as nothing is left.
\<close>

theorem interval_tree_add_sub:
  assumes "it_inv tree1" "it_inv tree2"
  shows "(\<exists>tree'. interval_tree_add tree1 tree2 = Some tree' \<and> it_inv tree' \<and> offsets tree' = offsets tree1 \<union> offsets tree2)
    \<and> (\<exists>tree'. interval_tree_sub tree1 tree2 = Some tree' \<and> it_inv tree' \<and> offsets tree' = offsets tree1 - offsets tree2)"
proof -
  have visit: "splay_tree_foreach fn (it_splay tree2) (Some tree1) = visit fn (it_nodes tree2) (Some tree1)" for fn
    by (simp add: splay_tree_foreach_def foreach_helper it_nodes_def nodes_def)
  obtain t where "visit interval_tree_add_1 (it_nodes tree2) (Some tree1) = (0, Some t)" "it_inv t"
      "offsets t = offsets tree1 \<union> offsets tree2"
    using add_nodes [OF assms(1) it_nodes(4) [OF assms(2)]] it_nodes(3) [OF assms(2)] by auto
  moreover obtain r t' where "visit interval_tree_sub_1 (it_nodes tree2) (Some tree1) = (r, Some t')" "it_inv t'"
      "offsets t' = offsets tree1 - offsets tree2"
    using sub_nodes [OF assms(1) it_nodes(4) [OF assms(2)]] it_nodes(3) [OF assms(2)] by auto
  ultimately show ?thesis by (simp add: interval_tree_add_def interval_tree_sub_def visit)
qed

text \<open>Two trees for the witnesses.\<close>

definition tree_of :: "it_op list \<Rightarrow> interval_tree" where
  "tree_of ops = (case it_runs ops (interval_tree_create 6) of Some tree \<Rightarrow> tree | None \<Rightarrow> interval_tree_create 6)"

lemma it_inv_tree_of:
  assumes "list_all it_op_ok ops"
  shows "it_inv (tree_of ops)" and "offsets (tree_of ops) = fold set_run ops {}"
proof -
  obtain t where "it_runs ops (interval_tree_create 6) = Some t" "it_inv t"
      "offsets t = fold set_run ops (offsets (interval_tree_create 6))"
    using it_runs [OF it_inv_create(1) assms] by blast
  then show "it_inv (tree_of ops)" "offsets (tree_of ops) = fold set_run ops {}" by (simp_all add: tree_of_def)
qed

theorem interval_tree_add_sub_witness:
  "(\<exists>tree'. interval_tree_add (tree_of it_sample) (tree_of [IT_insert 10 60]) = Some tree' \<and> it_inv tree'
      \<and> offsets tree' = offsets (tree_of it_sample) \<union> offsets (tree_of [IT_insert 10 60]))
    \<and> (\<exists>tree'. interval_tree_sub (tree_of it_sample) (tree_of [IT_insert 10 60]) = Some tree' \<and> it_inv tree'
      \<and> offsets tree' = offsets (tree_of it_sample) - offsets (tree_of [IT_insert 10 60]))"
  by (rule interval_tree_add_sub) (simp_all add: it_inv_tree_of it_sample_def)

text \<open>
  C24. Looking an offset up finds the interval that contains it, or else the first interval after it.
\<close>

theorem interval_tree_lookup_first:
  assumes "it_inv tree"
  shows "first_after tree x (fst (interval_tree_lookup x tree)) \<and> it_inv (snd (interval_tree_lookup x tree))
    \<and> offsets (snd (interval_tree_lookup x tree)) = offsets tree
    \<and> (x \<in> offsets tree \<longleftrightarrow> (\<exists>s e. fst (interval_tree_lookup x tree) = Some (s, e) \<and> s \<le> x))"
proof -
  obtain r tree' where r: "interval_tree_lookup x tree = (r, tree')" "first_after tree x r" "it_inv tree'" "offsets tree' = offsets tree"
    using interval_tree_lookup [OF assms, of x] by blast
  have "x \<in> offsets tree \<longleftrightarrow> (\<exists>s e. r = Some (s, e) \<and> s \<le> x)"
  proof
    assume "x \<in> offsets tree"
    then obtain s e where s: "it_map tree s = Some e" "s \<le> x" "\<not> e \<le> x" by (auto simp: offsets_member not_le)
    then have "r \<noteq> None" using r(2) by (cases r) (auto simp: first_after_def)
    then obtain s' e' where r': "r = Some (s', e')" by auto
    then have "\<not> s < s'" using s r(2) by (auto simp: first_after_def)
    then have "s' \<le> x" using s(2) by simp
    then show "\<exists>s e. r = Some (s, e) \<and> s \<le> x" using r' by blast
  next
    assume "\<exists>s e. r = Some (s, e) \<and> s \<le> x"
    then obtain s e where "it_map tree s = Some e" "s \<le> x" "x < e" using r(2) by (auto simp: first_after_def)
    then show "x \<in> offsets tree" unfolding offsets_member by blast
  qed
  then show ?thesis using r by simp
qed

theorem interval_tree_lookup_first_witness:
  "first_after (tree_of it_sample) 45 (fst (interval_tree_lookup 45 (tree_of it_sample)))
    \<and> it_inv (snd (interval_tree_lookup 45 (tree_of it_sample)))
    \<and> offsets (snd (interval_tree_lookup 45 (tree_of it_sample))) = offsets (tree_of it_sample)
    \<and> (45 \<in> offsets (tree_of it_sample) \<longleftrightarrow>
        (\<exists>s e. fst (interval_tree_lookup 45 (tree_of it_sample)) = Some (s, e) \<and> s \<le> 45))"
  by (rule interval_tree_lookup_first) (simp add: it_inv_tree_of it_sample_def)

end
