(* ===== verification/Varray.thy ===== *)
theory Varray
  imports Zfs_Prelude
begin

text \<open>
  The variable-sized arrays of \<^verbatim>\<open>lib/varray\<close>. The memory block is a list with one entry for every element
  that fits into it; an entry that has not been written is \<^const>\<open>None\<close>. The block has as many bytes as the
  unsigned product of the size and the number of elements says, which wraps around. An access beyond
  the block sets \<open>va_fault\<close>, whose effect in C is undefined.

  The theorem shows that the array is a stack as long as the sizes do not overflow.
\<close>

record 'a varray =
  va_nelem :: u32
  va_nused :: u32
  va_size :: u32
  va_array :: "'a option list"
  va_fault :: bool

text \<open>How many elements of \<open>sz\<close> bytes fit into a block of \<open>sz * nelem\<close> bytes.\<close>

definition va_fits :: "u32 \<Rightarrow> u32 \<Rightarrow> nat" where
  "va_fits sz nelem = unat (sz * nelem) div unat sz"

definition varray_create :: "u32 \<Rightarrow> u32 \<Rightarrow> 'a varray" where
  "varray_create sz nelem =
     \<lparr>va_nelem = nelem, va_nused = 0, va_size = sz, va_array = replicate (va_fits sz nelem) None, va_fault = False\<rparr>"

definition varray_destroy :: "'a varray \<Rightarrow> 'a varray" where
  "varray_destroy va = va\<lparr>va_array := [], va_nelem := 0, va_nused := 0, va_size := 0\<rparr>"

definition varray_grow :: "u32 \<Rightarrow> 'a varray \<Rightarrow> 'a varray" where
  "varray_grow nelem va =
     (let n = va_fits (va_size va) nelem
      in va\<lparr>va_array := take n (va_array va) @ replicate (n - length (va_array va)) None, va_nelem := nelem\<rparr>)"

definition VARRAY_USED :: "'a varray \<Rightarrow> u32" where
  "VARRAY_USED va = va_nused va"

text \<open>A store to an element.\<close>

definition va_store :: "nat \<Rightarrow> 'a \<Rightarrow> 'a varray \<Rightarrow> 'a varray" where
  "va_store i x va =
     (if i < length (va_array va) then va\<lparr>va_array := (va_array va)[i := Some x]\<rparr> else va\<lparr>va_fault := True\<rparr>)"

definition VARRAY_EMPTY_PUSH :: "'a varray \<Rightarrow> 'a varray" where
  "VARRAY_EMPTY_PUSH va =
     (let va = if va_nused va \<ge> va_nelem va then varray_grow (2 * va_nelem va) va else va
      in va\<lparr>va_nused := va_nused va + 1\<rparr>)"

definition VARRAY_PUSH :: "'a \<Rightarrow> 'a varray \<Rightarrow> 'a varray" where
  "VARRAY_PUSH x va =
     (let va = if va_nused va \<ge> va_nelem va then varray_grow (2 * va_nelem va) va else va;
          va' = va_store (unat (va_nused va)) x va
      in va'\<lparr>va_nused := va_nused va + 1\<rparr>)"

definition VARRAY_POP :: "'a varray \<Rightarrow> 'a varray" where
  "VARRAY_POP va = va\<lparr>va_nused := va_nused va - 1\<rparr>"

text \<open>\<open>VARRAY_TOP\<close> and \<open>VARRAY_ACCESS\<close> stand on either side of an assignment.\<close>

definition VARRAY_ACCESS :: "'a varray \<Rightarrow> u32 \<Rightarrow> 'a option" where
  "VARRAY_ACCESS va n = (if unat n < length (va_array va) then va_array va ! unat n else None)"

definition VARRAY_TOP :: "'a varray \<Rightarrow> 'a option" where
  "VARRAY_TOP va = VARRAY_ACCESS va (va_nused va - 1)"

definition set_VARRAY_TOP :: "'a \<Rightarrow> 'a varray \<Rightarrow> 'a varray" where
  "set_VARRAY_TOP x va = va_store (unat (va_nused va - 1)) x va"

definition VARRAY_CLEAR :: "'a varray \<Rightarrow> 'a varray" where
  "VARRAY_CLEAR va = va\<lparr>va_nused := 0\<rparr>"


section \<open>The array as a list\<close>

definition va_ok :: "'a varray \<Rightarrow> bool" where
  "va_ok va \<longleftrightarrow> \<not> va_fault va \<and> 0 < unat (va_size va) \<and> 0 < unat (va_nelem va)
     \<and> length (va_array va) = unat (va_nelem va) \<and> va_nused va \<le> va_nelem va"

definition va_list :: "'a varray \<Rightarrow> 'a option list" where
  "va_list va = take (unat (va_nused va)) (va_array va)"

text \<open>There is room for \<open>n\<close> more elements before a size overflows.\<close>

definition va_room :: "nat \<Rightarrow> 'a varray \<Rightarrow> bool" where
  "va_room n va \<longleftrightarrow> 2 * unat (va_size va) * (unat (va_nused va) + n) < 2 ^ 32"

lemma va_fits:
  assumes "0 < unat sz" "unat sz * unat nelem < 2 ^ 32"
  shows "va_fits sz nelem = unat nelem"
  using assms by (simp add: va_fits_def unat_word_ariths)

lemma length_va_list [simp]: "va_ok va \<Longrightarrow> length (va_list va) = unat (VARRAY_USED va)"
  by (simp add: va_ok_def va_list_def VARRAY_USED_def word_le_nat_alt)

lemma varray_create:
  assumes "0 < unat sz" "0 < unat nelem" "unat sz * unat nelem < 2 ^ 32"
  shows "va_ok (varray_create sz nelem)" and "va_list (varray_create sz nelem) = []"
  using assms by (simp_all add: varray_create_def va_ok_def va_list_def va_fits)

text \<open>Both kinds of push begin like this.\<close>

definition va_reserve :: "'a varray \<Rightarrow> 'a varray" where
  "va_reserve va = (if va_nused va \<ge> va_nelem va then varray_grow (2 * va_nelem va) va else va)"

lemma va_reserve:
  assumes ok: "va_ok va" and room: "va_room 1 va"
  shows "va_ok (va_reserve va)" and "va_list (va_reserve va) = va_list va"
    and "va_nused (va_reserve va) = va_nused va" and "va_nused va < va_nelem (va_reserve va)"
    and "va_size (va_reserve va) = va_size va"
proof -
  show simps: "va_nused (va_reserve va) = va_nused va" "va_size (va_reserve va) = va_size va"
    by (simp_all add: va_reserve_def varray_grow_def Let_def)
  have "va_ok (va_reserve va) \<and> va_list (va_reserve va) = va_list va \<and> va_nused va < va_nelem (va_reserve va)"
  proof (cases "va_nused va \<ge> va_nelem va")
    case False
    then show ?thesis using ok by (simp add: va_reserve_def)
  next
    case True
    then have full: "va_nused va = va_nelem va" using ok by (simp add: va_ok_def)
    have le: "1 * (2 * unat (va_nelem va)) \<le> unat (va_size va) * (2 * unat (va_nelem va))"
      using ok by (intro mult_right_mono) (simp_all add: va_ok_def)
    have fit: "unat (va_size va) * (2 * unat (va_nelem va)) < 2 ^ 32"
      using room full by (simp add: va_room_def algebra_simps)
    then have "2 * unat (va_nelem va) < 2 ^ 32" using le by linarith
    then have double: "unat (2 * va_nelem va) = 2 * unat (va_nelem va)"
      by (simp add: unat_word_ariths)
    then have "va_fits (va_size va) (2 * va_nelem va) = 2 * unat (va_nelem va)"
      using ok fit by (subst va_fits) (simp_all add: va_ok_def)
    then show ?thesis
      using ok True full double
      by (auto simp: va_reserve_def varray_grow_def va_ok_def va_list_def word_le_nat_alt word_less_nat_alt)
  qed
  then show "va_ok (va_reserve va)" "va_list (va_reserve va) = va_list va" "va_nused va < va_nelem (va_reserve va)"
    by simp_all
qed

lemma va_append:
  assumes ok: "va_ok va" and less: "va_nused va < va_nelem va"
  shows "va_ok ((va_store (unat (va_nused va)) x va)\<lparr>va_nused := va_nused va + 1\<rparr>)"
    and "va_list ((va_store (unat (va_nused va)) x va)\<lparr>va_nused := va_nused va + 1\<rparr>) = va_list va @ [Some x]"
proof -
  have n: "unat (va_nused va) < unat (va_nelem va)" using less by (simp add: word_less_nat_alt)
  then have "unat (va_nused va) + 1 < 2 ^ 32"
    using unsigned_less [of "va_nelem va", where ?'a = nat] by simp
  then have "unat (va_nused va + 1) = unat (va_nused va) + 1" by (simp add: unat_word_ariths)
  then show "va_ok ((va_store (unat (va_nused va)) x va)\<lparr>va_nused := va_nused va + 1\<rparr>)"
    and "va_list ((va_store (unat (va_nused va)) x va)\<lparr>va_nused := va_nused va + 1\<rparr>) = va_list va @ [Some x]"
    using ok n by (simp_all add: va_ok_def va_list_def va_store_def word_le_nat_alt take_Suc_conv_app_nth)
qed

lemma VARRAY_PUSH:
  assumes "va_ok va" "va_room 1 va"
  shows "va_ok (VARRAY_PUSH x va)" and "va_list (VARRAY_PUSH x va) = va_list va @ [Some x]"
proof -
  have "VARRAY_PUSH x va = (let va = va_reserve va in (va_store (unat (va_nused va)) x va)\<lparr>va_nused := va_nused va + 1\<rparr>)"
    by (simp add: VARRAY_PUSH_def va_reserve_def)
  then show "va_ok (VARRAY_PUSH x va)" "va_list (VARRAY_PUSH x va) = va_list va @ [Some x]"
    using va_append [of "va_reserve va" x] va_reserve [OF assms] by (simp_all add: Let_def)
qed

text \<open>An empty push followed by a store to the top element is a push.\<close>

lemma set_VARRAY_TOP_push: "set_VARRAY_TOP x (VARRAY_EMPTY_PUSH va) = VARRAY_PUSH x va"
  by (simp add: set_VARRAY_TOP_def VARRAY_EMPTY_PUSH_def VARRAY_PUSH_def va_store_def Let_def)

lemma va_push_used:
  assumes "va_ok va" "va_room 1 va"
  shows "unat (va_nused (VARRAY_PUSH x va)) = unat (va_nused va) + 1" and "va_size (VARRAY_PUSH x va) = va_size va"
proof -
  have "length (va_list (VARRAY_PUSH x va)) = length (va_list va) + 1" by (simp add: VARRAY_PUSH [OF assms])
  then show "unat (va_nused (VARRAY_PUSH x va)) = unat (va_nused va) + 1"
    using VARRAY_PUSH(1) [OF assms] assms(1) by (simp add: VARRAY_USED_def)
  show "va_size (VARRAY_PUSH x va) = va_size va"
    by (simp add: VARRAY_PUSH_def va_store_def varray_grow_def Let_def)
qed

lemma va_room_mono: "va_room n va \<Longrightarrow> m \<le> n \<Longrightarrow> va_room m va"
  unfolding va_room_def by (meson add_left_mono le_less_trans mult_le_mono2)

lemma va_room_push: "va_ok va \<Longrightarrow> va_room (Suc n) va \<Longrightarrow> va_room n (VARRAY_PUSH x va)"
  using va_room_mono [of "Suc n" va 1] by (auto simp: va_push_used va_room_def)

lemma VARRAY_POP:
  assumes ok: "va_ok va" and ne: "va_list va \<noteq> []"
  shows "va_ok (VARRAY_POP va)" and "va_list (VARRAY_POP va) = butlast (va_list va)"
proof -
  have "0 < length (va_list va)" using ne by simp
  then have "0 < unat (va_nused va)" using ok by (simp add: VARRAY_USED_def)
  then have n: "unat (va_nused va - 1) = unat (va_nused va) - 1"
    by (simp add: unat_minus_one unat_gt_0)
  then show "va_ok (VARRAY_POP va)" using ok by (auto simp: va_ok_def VARRAY_POP_def word_le_nat_alt)
  show "va_list (VARRAY_POP va) = butlast (va_list va)"
    using n ok by (simp add: va_list_def VARRAY_POP_def butlast_take va_ok_def word_le_nat_alt)
qed

lemma VARRAY_CLEAR:
  "va_ok va \<Longrightarrow> va_ok (VARRAY_CLEAR va)" "va_list (VARRAY_CLEAR va) = []"
  by (simp_all add: va_ok_def VARRAY_CLEAR_def va_list_def)

lemma VARRAY_ACCESS:
  "va_ok va \<Longrightarrow> n < VARRAY_USED va \<Longrightarrow> VARRAY_ACCESS va n = va_list va ! unat n"
  by (simp add: VARRAY_ACCESS_def va_list_def va_ok_def VARRAY_USED_def word_le_nat_alt word_less_nat_alt)

lemma VARRAY_TOP:
  assumes "va_ok va" "va_list va \<noteq> []"
  shows "VARRAY_TOP va = last (va_list va)"
proof -
  have "0 < length (va_list va)" using assms(2) by simp
  then have "0 < unat (va_nused va)" using assms by (simp add: VARRAY_USED_def)
  then have n: "unat (va_nused va - 1) = unat (va_nused va) - 1"
    by (simp add: unat_minus_one unat_gt_0)
  then show ?thesis
    using assms VARRAY_ACCESS [of va "va_nused va - 1"] \<open>0 < unat (va_nused va)\<close>
    by (simp add: VARRAY_TOP_def VARRAY_USED_def last_conv_nth word_less_nat_alt)
qed


section \<open>Sequences of operations\<close>

datatype 'a va_op = VA_push 'a | VA_pop | VA_clear

primrec va_run :: "'a va_op \<Rightarrow> 'a varray \<Rightarrow> 'a varray" where
  "va_run (VA_push x) va = VARRAY_PUSH x va"
| "va_run VA_pop va = VARRAY_POP va"
| "va_run VA_clear va = VARRAY_CLEAR va"

primrec list_run :: "'a va_op \<Rightarrow> 'a list \<Rightarrow> 'a list" where
  "list_run (VA_push x) xs = xs @ [x]"
| "list_run VA_pop xs = butlast xs"
| "list_run VA_clear xs = []"

text \<open>Nothing is popped off an empty array, and the array never has more than \<open>b\<close> elements.\<close>

fun va_valid :: "nat \<Rightarrow> 'a va_op list \<Rightarrow> 'a list \<Rightarrow> bool" where
  "va_valid b [] xs \<longleftrightarrow> True"
| "va_valid b (op # ops) xs \<longleftrightarrow>
     (case op of VA_push x \<Rightarrow> length xs < b | VA_pop \<Rightarrow> xs \<noteq> [] | VA_clear \<Rightarrow> True) \<and> va_valid b ops (list_run op xs)"

lemma va_size_run [simp]: "va_size (va_run op va) = va_size va"
  by (cases op) (simp_all add: VARRAY_PUSH_def VARRAY_POP_def VARRAY_CLEAR_def va_store_def varray_grow_def Let_def)

lemma va_step:
  assumes ok: "va_ok va" and xs: "va_list va = map Some xs" and valid: "va_valid b (op # ops) xs"
    and b: "2 * unat (va_size va) * b < 2 ^ 32"
  shows "va_ok (va_run op va) \<and> va_list (va_run op va) = map Some (list_run op xs)"
proof (cases op)
  case (VA_push x)
  have "unat (va_nused va) = length xs" using length_va_list [OF ok] xs by (simp add: VARRAY_USED_def)
  then have "unat (va_nused va) + 1 \<le> b" using valid VA_push by simp
  then have "2 * unat (va_size va) * (unat (va_nused va) + 1) < 2 ^ 32"
    using b by (meson le_less_trans mult_le_mono2)
  then have "va_room 1 va" by (simp only: va_room_def)
  then show ?thesis using VARRAY_PUSH [OF ok] xs VA_push by simp
next
  case VA_pop
  then show ?thesis using VARRAY_POP [OF ok] xs valid by (simp add: map_butlast)
next
  case VA_clear
  then show ?thesis using ok by (simp add: VARRAY_CLEAR)
qed

lemma va_steps:
  assumes "va_ok va" "va_list va = map Some xs" "va_valid b ops xs" "2 * unat (va_size va) * b < 2 ^ 32"
  shows "va_ok (fold va_run ops va) \<and> va_list (fold va_run ops va) = map Some (fold list_run ops xs)"
  using assms
proof (induction ops arbitrary: va xs)
  case (Cons op ops)
  have "va_ok (va_run op va) \<and> va_list (va_run op va) = map Some (list_run op xs)"
    using va_step [OF Cons.prems] .
  then show ?case using Cons.IH [of "va_run op va" "list_run op xs"] Cons.prems by simp
qed simp

text \<open>
  C13. A variable-sized array is a list. Let a new array have room for at least one element, and let a
  sequence of pushes, pops and clearings keep it at most \<open>b\<close> elements long without popping an empty array,
  where \<open>2 * b\<close> elements have less than \<open>2 ^ 32\<close> bytes. Then no access leaves the memory block, however often it is
  reallocated, and the array holds the elements of the list the same sequence makes, in order.
\<close>

theorem varray_is_list:
  assumes "0 < unat sz" "0 < unat nelem" "unat sz * unat nelem < 2 ^ 32"
    and "va_valid b ops []" "2 * unat sz * b < 2 ^ 32"
  shows "let va = fold va_run ops (varray_create sz nelem); xs = fold list_run ops []
    in \<not> va_fault va \<and> unat (VARRAY_USED va) = length xs
       \<and> (\<forall>n < VARRAY_USED va. VARRAY_ACCESS va n = Some (xs ! unat n))
       \<and> (xs \<noteq> [] \<longrightarrow> VARRAY_TOP va = Some (last xs))"
proof -
  define va xs where "va = fold va_run ops (varray_create sz nelem)" and "xs = fold list_run ops []"
  have "va_ok va \<and> va_list va = map Some xs"
    unfolding va_def xs_def using assms varray_create [OF assms(1-3)]
    by (intro va_steps [of _ "[]" b]) (simp_all add: varray_create_def)
  moreover have "unat (VARRAY_USED va) = length xs"
    using calculation length_va_list [of va] by simp
  moreover have "VARRAY_ACCESS va n = Some (xs ! unat n)" if "n < VARRAY_USED va" for n
    using that calculation VARRAY_ACCESS [of va n] by (simp add: word_less_nat_alt)
  moreover have "xs \<noteq> [] \<longrightarrow> VARRAY_TOP va = Some (last xs)"
    using calculation VARRAY_TOP [of va] by (simp add: last_map)
  ultimately show ?thesis
    unfolding Let_def va_def [symmetric] xs_def [symmetric] by (simp add: va_ok_def)
qed

definition va_sample :: "nat va_op list" where
  "va_sample = [VA_push 1, VA_push 2, VA_pop, VA_push 3, VA_push 4, VA_push 5]"

theorem varray_is_list_witness:
  "let va = fold va_run va_sample (varray_create 16 1); xs = fold list_run va_sample []
    in \<not> va_fault va \<and> unat (VARRAY_USED va) = length xs
       \<and> (\<forall>n < VARRAY_USED va. VARRAY_ACCESS va n = Some (xs ! unat n))
       \<and> (xs \<noteq> [] \<longrightarrow> VARRAY_TOP va = Some (last xs))"
  by (rule varray_is_list [of _ _ 4]) (simp_all add: va_sample_def)

end
