(* ===== verification/Zfs_Util.thy ===== *)
theory Zfs_Util
  imports Zfs_Prelude
begin

text \<open>
  Reading and writing files, \<^verbatim>\<open>lib/util/util.c\<close>. An open file is its content, the position in
  it, the variable \<^verbatim>\<open>errno\<close> of the thread that uses it and what the kernel will do with the next
  calls: a list of events, after which every call transfers all it can. A call of \<^verbatim>\<open>read\<close> or
  \<^verbatim>\<open>write\<close> transfers any number of bytes from one up to the number asked for, or is interrupted by a
  signal, or fails. At the end of the file \<^verbatim>\<open>read\<close> returns zero and leaves \<^verbatim>\<open>errno\<close> alone.

  The loops that repeat these calls need not end, so they are partial functions whose value is
  \<^const>\<open>None\<close> when the loop runs forever. The counters of the loops are 32-bit words, as in the code, while lengths, which have the
  type \<^verbatim>\<open>size_t\<close>, are natural numbers: a counter wraps around before it reaches a length of \<open>2 ^ 32\<close> or more.
\<close>

section \<open>System calls\<close>

datatype io_event = Transfer nat | Interrupt | Fail int

record open_file =
  content :: "u8 list"
  pos :: nat
  errno :: int
  events :: "io_event list"

definition EINTR :: int where "EINTR = 4"

definition next_event :: "open_file \<Rightarrow> io_event option" where
  "next_event f = (case events f of [] \<Rightarrow> None | e # es \<Rightarrow> Some e)"

text \<open>The number of bytes a call for \<open>len\<close> bytes is allowed to transfer.\<close>

definition allowed :: "nat \<Rightarrow> open_file \<Rightarrow> nat" where
  "allowed len f = (case next_event f of Some (Transfer k) \<Rightarrow> min len (Suc k) | _ \<Rightarrow> len)"

definition sys_read :: "nat \<Rightarrow> open_file \<Rightarrow> int \<times> u8 list \<times> open_file" where
  "sys_read len f =
     (let f' = f\<lparr>events := tl (events f)\<rparr>
      in case next_event f of
           Some Interrupt \<Rightarrow> (- 1, [], f'\<lparr>errno := EINTR\<rparr>)
         | Some (Fail e) \<Rightarrow> (- 1, [], f'\<lparr>errno := e\<rparr>)
         | _ \<Rightarrow> let data = slice (pos f) (allowed len f) (content f)
                 in (int (length data), data, f'\<lparr>pos := pos f + length data\<rparr>))"

text \<open>Writing beyond the end of the file fills the gap with zeros.\<close>

definition overwrite :: "nat \<Rightarrow> u8 list \<Rightarrow> u8 list \<Rightarrow> u8 list" where
  "overwrite p data bs = blit p data (bs @ replicate (p - length bs) 0)"

definition sys_write :: "u8 list \<Rightarrow> open_file \<Rightarrow> int \<times> open_file" where
  "sys_write buf f =
     (let f' = f\<lparr>events := tl (events f)\<rparr>
      in case next_event f of
           Some Interrupt \<Rightarrow> (- 1, f'\<lparr>errno := EINTR\<rparr>)
         | Some (Fail e) \<Rightarrow> (- 1, f'\<lparr>errno := e\<rparr>)
         | _ \<Rightarrow> let data = take (allowed (length buf) f) buf
                 in (int (length data), f'\<lparr>content := overwrite (pos f) data (content f), pos := pos f + length data\<rparr>))"


section \<open>Full reads and writes\<close>

text \<open>\<open>buf\<close> is the part of the buffer that has been stored to; the data of a call go to the position \<open>total_read\<close>.\<close>

partial_function (option) read_loop :: "nat \<Rightarrow> u32 \<Rightarrow> u8 list \<Rightarrow> open_file \<Rightarrow> (u8 list option \<times> open_file) option" where
  "read_loop len total_read buf f =
     (if unat total_read < len then
        let (r, data, f) = sys_read (len - unat total_read) f
        in if r \<le> 0 then if errno f = EINTR then read_loop len total_read buf f else Some (None, f)
           else read_loop len (total_read + of_int r) (blit (unat total_read) data buf) f
      else Some (Some buf, f))"

declare read_loop.simps [code]

definition full_read :: "nat \<Rightarrow> open_file \<Rightarrow> (u8 list option \<times> open_file) option" where
  "full_read len f = read_loop len 0 [] f"

partial_function (option) write_loop :: "u8 list \<Rightarrow> u32 \<Rightarrow> open_file \<Rightarrow> (bool \<times> open_file) option" where
  "write_loop buf total_written f =
     (if unat total_written < length buf then
        let (w, f) = sys_write (drop (unat total_written) buf) f
        in if w \<le> 0 then if errno f = EINTR then write_loop buf total_written f else Some (False, f)
           else write_loop buf (total_written + of_int w) f
      else Some (True, f))"

declare write_loop.simps [code]

definition full_write :: "u8 list \<Rightarrow> open_file \<Rightarrow> (bool \<times> open_file) option" where
  "full_write buf f = write_loop buf 0 f"

text \<open>\<open>p\<close> is the memory from the pointer on; reading past its end is \<^const>\<open>None\<close>.\<close>

fun bytecmp :: "u8 list \<Rightarrow> int \<Rightarrow> nat \<Rightarrow> bool option" where
  "bytecmp p byte 0 = Some True"
| "bytecmp [] byte (Suc len) = None"
| "bytecmp (s # p) byte (Suc len) = (if uint s \<noteq> byte AND 255 then Some False else bytecmp p byte len)"


section \<open>Correctness\<close>

text \<open>The kernel reports no other error than an interrupt.\<close>

definition no_fail :: "open_file \<Rightarrow> bool" where
  "no_fail f \<longleftrightarrow> (\<forall>e. Fail e \<notin> set (events f))"

lemma in_set_tl: "x \<in> set (tl xs) \<Longrightarrow> x \<in> set xs"
  by (cases xs) auto

lemma next_event_cases:
  "no_fail f \<Longrightarrow> next_event f = Some Interrupt \<or> next_event f = None \<or> (\<exists>k. next_event f = Some (Transfer k))"
  by (cases "events f"; cases "hd (events f)") (auto simp: no_fail_def next_event_def)

lemma slice_append_slice: "slice p m xs @ slice (p + m) n xs = slice p (m + n) xs"
  by (simp add: slice_def take_add add.commute)

text \<open>Only the state of the kernel has changed.\<close>

definition kernel_step :: "open_file \<Rightarrow> open_file \<Rightarrow> bool" where
  "kernel_step f f' \<longleftrightarrow> (\<exists>err es. f' = f\<lparr>errno := err, events := es\<rparr> \<and> set es \<subseteq> set (events f))"

lemma kernel_step_refl [simp]: "kernel_step f f"
  unfolding kernel_step_def by (intro exI [of _ "errno f"] exI [of _ "events f"]) simp

lemma kernel_step_pos: "kernel_step (f\<lparr>events := tl (events f)\<rparr>) f' \<Longrightarrow> kernel_step f f'"
  unfolding kernel_step_def by (auto dest: in_set_tl)

lemma kernel_step_simps:
  "kernel_step f f' \<Longrightarrow> pos f' = pos f \<and> content f' = content f \<and> (no_fail f \<longrightarrow> no_fail f')"
  by (auto simp: kernel_step_def no_fail_def)

lemma blit_end: "blit (length xs) ys xs = xs @ ys"
  by (simp add: blit_def)

lemma read_loop_complete:
  assumes "no_fail f" "length buf + m = len" "pos f + m \<le> length (content f)" "len < 2 ^ 32"
  shows "\<exists>f'. read_loop len (of_nat (length buf)) buf f = Some (Some (buf @ slice (pos f) m (content f)), f')
    \<and> kernel_step (f\<lparr>pos := pos f + m\<rparr>) f'"
  using assms
proof (induction "length (events f) + m" arbitrary: buf m f rule: less_induct)
  case less
  have total: "unat (of_nat (length buf) :: u32) = length buf" using less.prems(2,4) by (simp add: unat_of_nat)
  show ?case
  proof (cases "m = 0")
    case True
    then show ?thesis using less.prems(2) total by (subst read_loop.simps) (simp add: slice_def)
  next
    case False
    consider "next_event f = Some Interrupt" | "next_event f = None \<or> (\<exists>k. next_event f = Some (Transfer k))"
      using next_event_cases [OF less.prems(1)] by blast
    then show ?thesis
    proof cases
      case 1
      then obtain es where es: "events f = Interrupt # es" by (auto simp: next_event_def split: list.splits)
      let ?g = "f\<lparr>events := es, errno := EINTR\<rparr>"
      have "read_loop len (of_nat (length buf)) buf f = read_loop len (of_nat (length buf)) buf ?g"
        using False 1 es total less.prems(2) by (subst read_loop.simps) (auto simp: sys_read_def)
      moreover have "no_fail ?g" using less.prems(1) es by (simp add: no_fail_def)
      then obtain f' where "read_loop len (of_nat (length buf)) buf ?g = Some (Some (buf @ slice (pos f) m (content f)), f')"
          "kernel_step (?g\<lparr>pos := pos f + m\<rparr>) f'"
        using less.hyps [of ?g m buf] less.prems es by auto
      moreover from this have "kernel_step (f\<lparr>pos := pos f + m\<rparr>) f'" using es by (auto simp: kernel_step_def)
      ultimately show ?thesis by simp
    next
      case 2
      let ?n = "allowed m f"
      let ?data = "slice (pos f) ?n (content f)" and ?g = "f\<lparr>events := tl (events f), pos := pos f + ?n\<rparr>"
      have n: "0 < ?n" "?n \<le> m" using False 2 by (auto simp: allowed_def)
      then have data: "length ?data = ?n" using less.prems(3) by (simp add: length_slice)
      have step: "read_loop len (of_nat (length buf)) buf f = read_loop len (of_nat (length (buf @ ?data))) (buf @ ?data) ?g"
        using False 2 n data total less.prems(2) by (subst read_loop.simps) (auto simp: sys_read_def Let_def blit_end)
      have dec: "length (events ?g) + (m - ?n) < length (events f) + m" using n by simp
      have "no_fail ?g" using less.prems(1) by (auto simp: no_fail_def dest: in_set_tl)
      then obtain f' where f': "read_loop len (of_nat (length (buf @ ?data))) (buf @ ?data) ?g =
          Some (Some ((buf @ ?data) @ slice (pos f + ?n) (m - ?n) (content f)), f')"
          "kernel_step (f\<lparr>events := tl (events f), pos := pos f + m\<rparr>) f'"
        using less.hyps [OF dec, of "buf @ ?data"] less.prems n data by auto
      then have "kernel_step (f\<lparr>pos := pos f + m\<rparr>) f'" by (auto simp: kernel_step_def dest: in_set_tl)
      then show ?thesis
        using step f'(1) n slice_append_slice [of "pos f" ?n "content f" "m - ?n"] by simp
    qed
  qed
qed

lemma overwrite_append:
  assumes "p \<le> length bs"
  shows "overwrite (p + length xs) ys (overwrite p xs bs) = overwrite p (xs @ ys) bs"
  using assms by (simp add: overwrite_def blit_def min_def ac_simps)

lemma length_overwrite: "p \<le> length bs \<Longrightarrow> p + length xs \<le> length (overwrite p xs bs)"
  by (simp add: overwrite_def blit_def)

lemma sys_write_transfer:
  assumes "next_event f = None \<or> (\<exists>k. next_event f = Some (Transfer k))" "allowed (length buf) f \<le> length buf"
  shows "sys_write buf f = (int (allowed (length buf) f),
    f\<lparr>events := tl (events f), content := overwrite (pos f) (take (allowed (length buf) f) buf) (content f),
      pos := pos f + allowed (length buf) f\<rparr>)"
  using assms by (auto simp: sys_write_def Let_def)

lemma write_loop_complete:
  assumes "no_fail f" "n + m = length buf" "pos f \<le> length (content f)" "length buf < 2 ^ 32"
  shows "\<exists>f'. write_loop buf (of_nat n) f = Some (True, f')
    \<and> kernel_step (f\<lparr>content := overwrite (pos f) (drop n buf) (content f), pos := pos f + m\<rparr>) f'"
  using assms
proof (induction "length (events f) + m" arbitrary: n m f rule: less_induct)
  case less
  have total: "unat (of_nat n :: u32) = n" using less.prems(2,4) by (simp add: unat_of_nat)
  show ?case
  proof (cases "m = 0")
    case True
    then show ?thesis using less.prems total by (subst write_loop.simps) (simp add: overwrite_def)
  next
    case False
    consider "next_event f = Some Interrupt" | "next_event f = None \<or> (\<exists>k. next_event f = Some (Transfer k))"
      using next_event_cases [OF less.prems(1)] by blast
    then show ?thesis
    proof cases
      case 1
      then obtain es where es: "events f = Interrupt # es" by (auto simp: next_event_def split: list.splits)
      let ?g = "f\<lparr>events := es, errno := EINTR\<rparr>"
      have "write_loop buf (of_nat n) f = write_loop buf (of_nat n) ?g"
        using False 1 es total less.prems(2) by (subst write_loop.simps) (auto simp: sys_write_def)
      moreover have "no_fail ?g" using less.prems(1) es by (simp add: no_fail_def)
      then obtain f' where "write_loop buf (of_nat n) ?g = Some (True, f')"
          "kernel_step (?g\<lparr>content := overwrite (pos f) (drop n buf) (content f), pos := pos f + m\<rparr>) f'"
        using less.hyps [of ?g m n] less.prems es by auto
      moreover from this
      have "kernel_step (f\<lparr>content := overwrite (pos f) (drop n buf) (content f), pos := pos f + m\<rparr>) f'"
        using es by (auto simp: kernel_step_def)
      ultimately show ?thesis by simp
    next
      case 2
      let ?k = "allowed m f"
      let ?data = "take ?k (drop n buf)"
      let ?g = "f\<lparr>events := tl (events f), content := overwrite (pos f) ?data (content f), pos := pos f + ?k\<rparr>"
      have k: "0 < ?k" "?k \<le> m" using False 2 by (auto simp: allowed_def)
      then have data: "length ?data = ?k" using less.prems(2) by auto
      have m: "length (drop n buf) = m" using less.prems(2) by simp
      have "sys_write (drop n buf) f = (int ?k, ?g)" using sys_write_transfer [OF 2, of "drop n buf"] k m by simp
      then have step: "write_loop buf (of_nat n) f = write_loop buf (of_nat (n + ?k)) ?g"
        using False k total less.prems(2) by (subst write_loop.simps) simp
      have dec: "length (events ?g) + (m - ?k) < length (events f) + m" using k by simp
      have ow: "overwrite (pos f + ?k) (drop (n + ?k) buf) (overwrite (pos f) ?data (content f)) =
          overwrite (pos f) (drop n buf) (content f)"
        using overwrite_append [OF less.prems(3), of ?data "drop ?k (drop n buf)"]
        unfolding data append_take_drop_id by (simp add: add.commute)
      have "no_fail ?g" using less.prems(1) by (auto simp: no_fail_def dest: in_set_tl)
      moreover have "pos ?g \<le> length (content ?g)"
        using length_overwrite [OF less.prems(3), of ?data] data by simp
      ultimately obtain f' where f': "write_loop buf (of_nat (n + ?k)) ?g = Some (True, f')"
          "kernel_step (?g\<lparr>content := overwrite (pos f) (drop n buf) (content f), pos := pos f + m\<rparr>) f'"
        using less.hyps [OF dec, of "n + ?k"] less.prems(2,4) k ow by auto
      then have "kernel_step (f\<lparr>content := overwrite (pos f) (drop n buf) (content f), pos := pos f + m\<rparr>) f'"
        by (auto simp: kernel_step_def dest: in_set_tl)
      then show ?thesis using step f'(1) by simp
    qed
  qed
qed

lemma full_read_complete:
  assumes "no_fail f" "pos f + len \<le> length (content f)" "len < 2 ^ 32"
  shows "\<exists>f'. full_read len f = Some (Some (slice (pos f) len (content f)), f')
    \<and> pos f' = pos f + len \<and> content f' = content f \<and> no_fail f'"
proof -
  obtain f' where "full_read len f = Some (Some (slice (pos f) len (content f)), f')"
      "kernel_step (f\<lparr>pos := pos f + len\<rparr>) f'"
    using read_loop_complete [OF assms(1), of "[]" len len] assms(2,3) by (auto simp: full_read_def)
  then show ?thesis using kernel_step_simps [of _ f'] assms(1) by (fastforce simp: no_fail_def)
qed

lemma full_write_complete:
  assumes "no_fail f" "pos f \<le> length (content f)" "length buf < 2 ^ 32"
  shows "\<exists>f'. full_write buf f = Some (True, f')
    \<and> pos f' = pos f + length buf \<and> content f' = overwrite (pos f) buf (content f) \<and> no_fail f'"
proof -
  obtain f' where "full_write buf f = Some (True, f')"
      "kernel_step (f\<lparr>content := overwrite (pos f) buf (content f), pos := pos f + length buf\<rparr>) f'"
    using write_loop_complete [OF assms(1), of 0 "length buf" buf] assms(2,3) by (auto simp: full_write_def)
  then show ?thesis using kernel_step_simps [of _ f'] assms(1) by (fastforce simp: no_fail_def)
qed

text \<open>
  C14. Short transfers and interrupts do not matter. As long as the kernel reports no other error and fewer than \<open>2 ^ 32\<close> bytes
  are asked for, a full read of bytes that are all in the file ends and returns them, and a full write at a position inside the file or at its end
  ends and stores the whole buffer.
\<close>

theorem full_transfer:
  assumes "no_fail f" "pos f + len \<le> length (content f)" "len < 2 ^ 32" "length buf < 2 ^ 32"
  shows "(\<exists>f'. full_read len f = Some (Some (slice (pos f) len (content f)), f')
        \<and> pos f' = pos f + len \<and> content f' = content f)
    \<and> (\<exists>f'. full_write buf f = Some (True, f')
        \<and> pos f' = pos f + length buf \<and> content f' = overwrite (pos f) buf (content f))"
  using full_read_complete [OF assms(1-3)] full_write_complete [of f buf] assms by fastforce

definition sample_file :: open_file where
  "sample_file = \<lparr>content = [10, 20, 30, 40, 50], pos = 1, errno = 0,
     events = [Interrupt, Transfer 0, Interrupt, Interrupt, Transfer 1]\<rparr>"

theorem full_transfer_witness:
  "(\<exists>f'. full_read 4 sample_file = Some (Some (slice (pos sample_file) 4 (content sample_file)), f')
        \<and> pos f' = pos sample_file + 4 \<and> content f' = content sample_file)
    \<and> (\<exists>f'. full_write [1, 2, 3, 4, 5, 6] sample_file = Some (True, f')
        \<and> pos f' = pos sample_file + length [1 :: u8, 2, 3, 4, 5, 6]
        \<and> content f' = overwrite (pos sample_file) [1, 2, 3, 4, 5, 6] (content sample_file))"
  by (rule full_transfer) (simp_all add: sample_file_def no_fail_def)


section \<open>A read that reports success has read everything\<close>

lemma sys_read_data:
  assumes "sys_read n f = (r, data, f')"
  shows "r \<le> 0 \<longleftrightarrow> data = []"
    and "length data \<le> n" and "data = slice (pos f) (length data) (content f)"
    and "content f' = content f" and "pos f' = pos f + length data"
proof -
  have "take (length xs) xs = xs" for xs :: "u8 list" by simp
  then have slice: "slice p (length (slice p k xs)) xs = slice p k xs" for p k and xs :: "u8 list"
    by (auto simp: slice_def min_def)
  have "allowed n f \<le> n" by (auto simp: allowed_def split: option.splits io_event.splits)
  then have "length (slice (pos f) (allowed n f) (content f)) \<le> n" by (simp add: slice_def)
  then show "r \<le> 0 \<longleftrightarrow> data = []" "length data \<le> n" "data = slice (pos f) (length data) (content f)"
      "content f' = content f" "pos f' = pos f + length data"
    using assms
    by (auto simp: sys_read_def Let_def slice slice_def [of _ 0] split: option.splits io_event.splits)
qed

text \<open>The result of a call that transfers something.\<close>

lemma sys_read_result: "sys_read n f = (r, data, f') \<Longrightarrow> \<not> r \<le> 0 \<Longrightarrow> r = int (length data) \<and> errno f' = errno f"
  by (auto simp: sys_read_def Let_def split: option.splits io_event.splits)

text \<open>The counter never reaches a length of \<open>2 ^ 32\<close> or more.\<close>

lemma read_loop_large:
  assumes "read_loop len cnt buf f = Some y"
  shows "2 ^ 32 \<le> len \<longrightarrow> fst y = None"
proof (rule read_loop.raw_induct [OF _ assms], goal_cases)
  case (1 loop len cnt buf f y)
  have "unat cnt < 2 ^ 32" using unsigned_less [of cnt, where ?'a = nat] by simp
  then show ?case using 1 by (cases "sys_read (len - unat cnt) f") (auto split: if_splits)
qed

text \<open>Below that the counter is the number of bytes that are stored.\<close>

lemma read_loop_sound:
  assumes "read_loop len cnt buf f = Some y"
  shows "len < 2 ^ 32 \<longrightarrow> unat cnt = length buf \<longrightarrow> length buf \<le> len \<longrightarrow>
    (\<forall>bs. fst y = Some bs \<longrightarrow> length bs = len \<and> bs = buf @ slice (pos f) (len - length buf) (content f))"
proof (rule read_loop.raw_induct [OF _ assms], goal_cases)
  case (1 loop len cnt buf f y)
  note IH = 1(1) and step = 1(2)
  obtain r data g where read: "sys_read (len - unat cnt) f = (r, data, g)" by (cases "sys_read (len - unat cnt) f")
  note sys = sys_read_data [OF read]
  show ?case
  proof (intro impI)
    assume len: "len < 2 ^ 32" and t: "unat cnt = length buf" "length buf \<le> len"
    consider "\<not> length buf < len" | "length buf < len" "r \<le> 0" "errno g = EINTR" | "length buf < len" "r \<le> 0" "errno g \<noteq> EINTR"
      | "length buf < len" "\<not> r \<le> 0" by blast
    then show "\<forall>bs. fst y = Some bs \<longrightarrow> length bs = len \<and> bs = buf @ slice (pos f) (len - length buf) (content f)"
    proof cases
      case 2
      then have "loop len cnt buf g = Some y" using step read t by simp
      moreover have "content g = content f" "pos g = pos f" using sys 2 by auto
      ultimately show ?thesis using IH [of len cnt buf g y] len t by simp
    next
      case 4
      have r: "r = int (length data)" using sys_read_result [OF read] 4 by simp
      have data: "length data \<le> len - length buf" using sys(2) t by simp
      have loop: "loop len (cnt + of_int r) (buf @ data) g = Some y" using step read t 4 by (simp add: blit_end)
      have "unat (cnt + of_int r) = length (buf @ data)"
        using t data len 4(1) by (simp add: r unat_word_ariths unat_of_nat)
      moreover have "length (buf @ data) \<le> len" using data t(2) by simp
      ultimately have y: "\<forall>bs. fst y = Some bs \<longrightarrow> length bs = len
          \<and> bs = (buf @ data) @ slice (pos g) (len - length (buf @ data)) (content g)"
        using IH [OF loop] len by blast
      have "data @ slice (pos g) (len - length (buf @ data)) (content g) = slice (pos f) (len - length buf) (content f)"
        using slice_append_slice [of "pos f" "length data" "content f" "len - length (buf @ data)"] data 4(1)
        unfolding sys(4,5) sys(3) [symmetric] by (simp add: le_diff_conv2)
      then show ?thesis using y by simp
    qed (use step read t in \<open>auto simp: slice_def\<close>)
  qed
qed

lemma read_loop_content:
  assumes "read_loop len cnt buf f = Some y"
  shows "content (snd y) = content f"
proof (rule read_loop.raw_induct [OF _ assms], goal_cases)
  case (1 loop len cnt buf f y)
  obtain r data g where read: "sys_read (len - unat cnt) f = (r, data, g)" by (cases "sys_read (len - unat cnt) f")
  have "content g = content f" by (rule sys_read_data(4) [OF read])
  then show ?case using 1 read by (auto split: if_splits)
qed

lemma full_read_returns:
  assumes "full_read len f = Some (Some bs, f')"
  shows "length bs = len" "bs = slice (pos f) len (content f)" "content f' = content f"
proof -
  note loop = assms [unfolded full_read_def]
  show "length bs = len" "bs = slice (pos f) len (content f)" "content f' = content f"
    using read_loop_large [OF loop] read_loop_sound [OF loop] read_loop_content [OF loop] by auto
qed

text \<open>
  C15. Whatever the kernel does, a full read that reports success returns exactly the bytes of the file at its position,
  all of the length that was asked for.
\<close>

theorem full_read_sound:
  assumes "full_read len f = Some (Some bs, f')"
  shows "length bs = len \<and> bs = slice (pos f) len (content f) \<and> content f' = content f"
  using full_read_returns [OF assms] by blast

theorem full_read_sound_witness:
  "\<exists>bs. (\<exists>f'. full_read 2 (sample_file\<lparr>events := [Interrupt, Transfer 0]\<rparr>) = Some (Some bs, f')
      \<and> length bs = 2 \<and> bs = slice 1 2 (content sample_file) \<and> content f' = content sample_file)"
proof -
  let ?f = "sample_file\<lparr>events := [Interrupt, Transfer 0]\<rparr>"
  have "no_fail ?f" by (simp add: no_fail_def sample_file_def)
  then obtain f' where "full_read 2 ?f = Some (Some (slice (pos ?f) 2 (content ?f)), f')"
    using full_read_complete [of ?f 2] by (auto simp: sample_file_def)
  then show ?thesis using full_read_sound [of 2 ?f] by (fastforce simp: sample_file_def)
qed

text \<open>
  An interrupt has come, or will come before the end of the file: the transfers \<open>ks\<close> until then leave the
  position inside the file.
\<close>

definition interrupted :: "open_file \<Rightarrow> bool" where
  "interrupted f \<longleftrightarrow> errno f = EINTR \<or>
     (\<exists>ks es. events f = map Transfer ks @ Interrupt # es \<and> pos f + sum_list (map Suc ks) \<le> length (content f))"

lemma sys_read_interrupted:
  assumes read: "sys_read n f = (r, data, g)" and n: "0 < n" and f: "no_fail f" "interrupted f"
  shows "no_fail g" "interrupted g" "r \<le> 0 \<Longrightarrow> errno g = EINTR"
proof -
  have g: "events g = tl (events f)" "content g = content f" "pos g = pos f + length data" "length data \<le> allowed n f"
    using read by (auto simp: sys_read_def Let_def slice_def split: option.splits io_event.splits)
  show "no_fail g" using f(1) g(1) by (auto simp: no_fail_def dest: in_set_tl)
  have "interrupted g \<and> (r \<le> 0 \<longrightarrow> errno g = EINTR)"
  proof (cases "errno f = EINTR \<or> next_event f = Some Interrupt")
    case True
    then have "errno g = EINTR"
      using read next_event_cases [OF f(1)] by (auto simp: sys_read_def Let_def split: option.splits io_event.splits)
    then show ?thesis by (simp add: interrupted_def)
  next
    case False
    then obtain ks' es where ev': "events f = map Transfer ks' @ Interrupt # es" "pos f + sum_list (map Suc ks') \<le> length (content f)"
      using f(2) by (auto simp: interrupted_def)
    then obtain k ks where "ks' = k # ks" using False by (cases ks') (auto simp: next_event_def)
    then have ev: "events f = Transfer k # map Transfer ks @ Interrupt # es" "pos f + (Suc k + sum_list (map Suc ks)) \<le> length (content f)"
      using ev' by simp_all
    then have k: "next_event f = Some (Transfer k)" "allowed n f = min n (Suc k)" by (simp_all add: next_event_def allowed_def)
    then have d: "data = slice (pos f) (min n (Suc k)) (content f)" "r = int (length data)"
      using read by (auto simp: sys_read_def Let_def)
    have "0 < length data" using d(1) n ev(2) by (simp add: slice_def)
    moreover have "events g = map Transfer ks @ Interrupt # es" "pos g + sum_list (map Suc ks) \<le> length (content g)"
      using ev g k(2) by auto
    ultimately show ?thesis using d(2) unfolding interrupted_def by auto
  qed
  then show "interrupted g" "r \<le> 0 \<Longrightarrow> errno g = EINTR" by blast+
qed

lemma read_loop_no_failure:
  assumes "read_loop len cnt buf f = Some y"
  shows "no_fail f \<longrightarrow> interrupted f \<longrightarrow> fst y \<noteq> None"
proof (rule read_loop.raw_induct [OF _ assms], goal_cases)
  case (1 loop len cnt buf f y)
  obtain r data g where read: "sys_read (len - unat cnt) f = (r, data, g)" by (cases "sys_read (len - unat cnt) f")
  show ?case
  proof (intro impI)
    assume f: "no_fail f" "interrupted f"
    show "fst y \<noteq> None"
    proof (cases "unat cnt < len")
      case True
      then have "0 < len - unat cnt" by simp
      note g = sys_read_interrupted [OF read this f]
      then show ?thesis using 1 read True by (auto split: if_splits)
    qed (use 1 in auto)
  qed
qed

text \<open>
  C16. A signal can make a full read hang. Let a full read ask for more bytes than there are up to the end of the file, and let one of its
  calls be interrupted before the end of the file is reached. When a later call finds the end of the file,
  \<^verbatim>\<open>errno\<close> still has the value the interrupt left there: the loop takes the end of the file for an interrupt and
  repeats the call forever.
\<close>

theorem full_read_hangs:
  assumes "length (content f) < pos f + len" and "\<forall>e. Fail e \<notin> set (events f)"
    and "events f = map Transfer ks @ Interrupt # es" and "pos f + sum_list (map Suc ks) \<le> length (content f)"
  shows "full_read len f = None"
proof (rule ccontr)
  assume "full_read len f \<noteq> None"
  then obtain z f' where z: "full_read len f = Some (z, f')" by auto
  have "no_fail f" "interrupted f" using assms by (auto simp: no_fail_def interrupted_def)
  then obtain bs where "z = Some bs" using read_loop_no_failure [OF z [unfolded full_read_def]] by auto
  then have "length (slice (pos f) len (content f)) = len" using full_read_returns z by metis
  then show False using assms(1,4) by (auto simp: slice_def)
qed

theorem full_read_hangs_witness:
  "full_read 16 \<lparr>content = [1, 2, 3], pos = 0, errno = 0, events = [Transfer 1, Interrupt]\<rparr> = None"
  by (rule full_read_hangs [where ks = "[1]" and es = "[]"]) simp_all


section \<open>Comparing with a byte\<close>

lemma bytecmp_correct:
  "length p = len \<Longrightarrow> bytecmp p byte len = Some (\<forall>b \<in> set p. uint b = byte mod 256)"
proof (induction p byte len rule: bytecmp.induct)
  case (3 s p byte len)
  moreover have "byte AND 255 = byte mod 256"
    using take_bit_eq_mask [of 8 byte] by (simp add: take_bit_eq_mod mask_eq_exp_minus_1)
  ultimately show ?case by auto
qed auto

end
