(* ===== verification/Interval_Array.thy ===== *)
theory Interval_Array
  imports Interval_Tree Varray Zfs_Util
begin

text \<open>
  The operations of the interval tree that make arrays of intervals, the intersection and the complement, and those that
  save the tree to a file and load it. The arrays are those of \<^verbatim>\<open>lib/varray\<close>, the files those of
  \<^verbatim>\<open>lib/util\<close>.
\<close>

section \<open>Intersection\<close>

record interval =
  iv_start :: u64
  iv_end :: u64

definition MAX_u64 :: "u64 \<Rightarrow> u64 \<Rightarrow> u64" where "MAX_u64 x y = (if x > y then x else y)"
definition MIN_u64 :: "u64 \<Rightarrow> u64 \<Rightarrow> u64" where "MIN_u64 x y = (if x < y then x else y)"

definition sizeof_interval :: u32 where "sizeof_interval = 16"

definition push_interval :: "u64 \<Rightarrow> u64 \<Rightarrow> interval varray \<Rightarrow> interval varray" where
  "push_interval start end dest = set_VARRAY_TOP \<lparr>iv_start = start, iv_end = end\<rparr> (VARRAY_EMPTY_PUSH dest)"

partial_function (option) intersection_loop ::
  "u64 \<Rightarrow> u64 \<Rightarrow> st_node option \<Rightarrow> interval_tree \<Rightarrow> interval varray \<Rightarrow> (interval_tree \<times> interval varray) option" where
  "intersection_loop start end node tree dest =
     (case node of
        None \<Rightarrow> Some (tree, dest)
      | Some n \<Rightarrow>
          if fst n < end then
            let dest = push_interval (MAX_u64 start (fst n)) (MIN_u64 end (snd n)) dest;
                (node, tree) = it_query (splay_tree_successor (fst n)) tree
            in intersection_loop start end node tree dest
          else Some (tree, dest))"

declare intersection_loop.simps [code]

definition interval_tree_intersection_1 ::
  "u64 \<Rightarrow> u64 \<Rightarrow> interval_tree \<Rightarrow> interval varray \<Rightarrow> (interval_tree \<times> interval varray) option" where
  "interval_tree_intersection_1 start end tree dest =
     (let (node, tree) = it_query (splay_tree_lookup start) tree;
          (node, tree) =
            if node = None then
              let (node, tree) = it_query (splay_tree_predecessor start) tree
              in if node = None \<or> snd (the node) \<le> start
                 then it_query (splay_tree_successor start) tree else (node, tree)
            else (node, tree);
          (node, tree) = if node = None then it_query (splay_tree_successor start) tree else (node, tree)
      in intersection_loop start end node tree dest)"

definition interval_tree_intersection ::
  "u64 \<Rightarrow> u64 \<Rightarrow> interval_tree \<Rightarrow> (interval_tree \<times> interval varray) option" where
  "interval_tree_intersection start end tree =
     interval_tree_intersection_1 start end tree (varray_create sizeof_interval 4)"

text \<open>The loop over the array of intervals \<open>src\<close> from the index \<open>i\<close> on.\<close>

function each_interval ::
  "(u64 \<Rightarrow> u64 \<Rightarrow> interval_tree \<Rightarrow> interval varray \<Rightarrow> (interval_tree \<times> interval varray) option) \<Rightarrow>
   interval varray \<Rightarrow> u32 \<Rightarrow> interval_tree \<Rightarrow> interval varray \<Rightarrow> (interval_tree \<times> interval varray) option" where
  "each_interval f src i tree dest =
     (if i < VARRAY_USED src then
        Option.bind (VARRAY_ACCESS src i)
          (\<lambda>x. Option.bind (f (iv_start x) (iv_end x) tree dest)
             (\<lambda>(tree, dest). each_interval f src (i + 1) tree dest))
      else Some (tree, dest))"
  by auto
termination
proof (relation "measure (\<lambda>(f, src, i, tree, dest). unat (VARRAY_USED src) - unat i)", goal_cases)
  case (2 f src i tree dest x1 x2 x y)
  then have less: "unat i < unat (VARRAY_USED src)" by (simp add: word_less_nat_alt)
  then have "unat i + 1 < 2 ^ 32" using unsigned_less [of "VARRAY_USED src", where ?'a = nat] by simp
  then have "unat (i + 1) = unat i + 1" by (simp add: unat_word_ariths)
  then show ?case using less by simp
qed simp

definition interval_tree_intersection_varray ::
  "interval_tree \<Rightarrow> interval varray \<Rightarrow> (interval_tree \<times> interval varray) option" where
  "interval_tree_intersection_varray tree src =
     each_interval interval_tree_intersection_1 src 0 tree (varray_create sizeof_interval 16)"


section \<open>Complement\<close>

partial_function (option) complement_loop ::
  "u64 \<Rightarrow> u64 \<Rightarrow> st_node option \<Rightarrow> interval_tree \<Rightarrow> interval varray \<Rightarrow> (interval_tree \<times> interval varray) option" where
  "complement_loop last_end end node tree dest =
     (if last_end < end then
        case node of
          Some n \<Rightarrow>
            let dest = push_interval last_end (fst n) dest;
                (node, tree) = it_query (splay_tree_successor (fst n)) tree
            in complement_loop (snd n) end node tree dest
        | None \<Rightarrow> Some (tree, push_interval last_end end dest)
      else Some (tree, dest))"

declare complement_loop.simps [code]

definition interval_tree_complement_1 ::
  "u64 \<Rightarrow> u64 \<Rightarrow> interval_tree \<Rightarrow> interval varray \<Rightarrow> (interval_tree \<times> interval varray) option" where
  "interval_tree_complement_1 start end tree dest =
     (let (node, tree) = it_query (splay_tree_lookup start) tree;
          (last_end, tree) =
            (case node of
               Some n \<Rightarrow> (snd n, tree)
             | None \<Rightarrow>
                 let (node, tree) = it_query (splay_tree_predecessor start) tree
                 in (case node of Some n \<Rightarrow> if snd n > start then snd n else start | None \<Rightarrow> start, tree));
          (node, tree) = it_query (splay_tree_successor start) tree
      in complement_loop last_end end node tree dest)"

definition interval_tree_complement ::
  "u64 \<Rightarrow> u64 \<Rightarrow> interval_tree \<Rightarrow> (interval_tree \<times> interval varray) option" where
  "interval_tree_complement start end tree =
     interval_tree_complement_1 start end tree (varray_create sizeof_interval 4)"

definition interval_tree_complement_varray ::
  "interval_tree \<Rightarrow> interval varray \<Rightarrow> (interval_tree \<times> interval varray) option" where
  "interval_tree_complement_varray tree src =
     each_interval interval_tree_complement_1 src 0 tree (varray_create sizeof_interval 16)"


section \<open>Files\<close>

definition INTERVAL_COUNT :: nat where "INTERVAL_COUNT = 1024"

text \<open>The intervals in memory: two little-endian numbers each.\<close>

definition interval_bytes :: "interval \<Rightarrow> u8 list" where
  "interval_bytes x = le_bytes 8 (iv_start x) @ le_bytes 8 (iv_end x)"

definition bytes_interval :: "u8 list \<Rightarrow> interval" where
  "bytes_interval bs = \<lparr>iv_start = le_word (take 8 bs), iv_end = le_word (take 8 (drop 8 bs))\<rparr>"

fun bytes_intervals :: "nat \<Rightarrow> u8 list \<Rightarrow> interval list" where
  "bytes_intervals 0 bs = []"
| "bytes_intervals (Suc n) bs = bytes_interval bs # bytes_intervals n (drop 16 bs)"

fun insert_intervals :: "interval list \<Rightarrow> interval_tree \<Rightarrow> interval_tree option" where
  "insert_intervals [] tree = Some tree"
| "insert_intervals (x # xs) tree =
     Option.bind (interval_tree_insert (iv_start x) (iv_end x) tree) (\<lambda>(node, tree). insert_intervals xs tree)"

function interval_tree_read :: "interval_tree \<Rightarrow> open_file \<Rightarrow> u64 \<Rightarrow> (bool \<times> interval_tree \<times> open_file) option" where
  "interval_tree_read tree f n =
     (if n > 0 then
        let block = if n > of_nat INTERVAL_COUNT then of_nat INTERVAL_COUNT else n
        in Option.bind (full_read (unat block * 16) f)
             (\<lambda>(r, f). case r of
                None \<Rightarrow> Some (False, tree, f)
              | Some bs \<Rightarrow>
                  Option.bind (insert_intervals (bytes_intervals (unat block) bs) tree)
                    (\<lambda>tree. interval_tree_read tree f (n - block)))
      else Some (True, tree, f))"
  by auto
termination
proof (relation "measure (\<lambda>(tree, f, n). unat n)", goal_cases)
  case (2 tree f n block x y bs tree')
  then have "0 < block" "block \<le> n" by (auto simp: INTERVAL_COUNT_def)
  then show ?case by (simp add: word_less_nat_alt word_le_nat_alt unat_sub)
qed simp

text \<open>\<open>d\<close> is the part of the buffer that is in use.\<close>

fun interval_tree_write_1 :: "st_tree \<Rightarrow> open_file \<Rightarrow> interval list \<Rightarrow> (bool \<times> open_file \<times> interval list) option" where
  "interval_tree_write_1 Leaf f d = Some (True, f, d)"
| "interval_tree_write_1 (Node l n r) f d =
     Option.bind (interval_tree_write_1 l f d)
       (\<lambda>(ok, f, d).
          if \<not> ok then Some (False, f, d)
          else
            let d = d @ [\<lparr>iv_start = fst n, iv_end = snd n\<rparr>]
            in if length d = INTERVAL_COUNT then
                 Option.bind (full_write (concat (map interval_bytes d)) f)
                   (\<lambda>(ok, f). if \<not> ok then Some (False, f, d) else interval_tree_write_1 r f [])
               else interval_tree_write_1 r f d)"

definition interval_tree_write :: "interval_tree \<Rightarrow> open_file \<Rightarrow> (bool \<times> open_file) option" where
  "interval_tree_write tree f =
     (if sp_root (it_splay tree) = Leaf then Some (True, f)
      else
        Option.bind (interval_tree_write_1 (sp_root (it_splay tree)) f [])
          (\<lambda>(ok, f, d).
             if \<not> ok then Some (False, f)
             else if length d > 0 then full_write (concat (map interval_bytes d)) f
             else Some (True, f)))"


section \<open>Walking through the intervals\<close>

definition first :: "'a list \<Rightarrow> 'a option" where
  "first xs = (case xs of [] \<Rightarrow> None | x # xs \<Rightarrow> Some x)"

lemma first_simps [simp]: "first [] = None" "first (x # xs) = Some x"
  by (simp_all add: first_def)

lemma first_eq: "first xs = (if xs = [] then None else Some (hd xs))"
  by (cases xs) simp_all

lemma is_succ_unique:
  assumes "is_succ m key p" "is_succ m key q"
  shows "p = q"
proof (cases p)
  case None
  then show ?thesis using assms by (cases q) auto
next
  case (Some a)
  then obtain x v where p: "p = Some (x, v)" by (cases a) auto
  then obtain y w where q: "q = Some (y, w)" using assms by (cases q) auto
  have "\<not> x < y" "\<not> y < x" using assms p q by auto
  then show ?thesis using assms p q by simp
qed

lemma ordered_split:
  "ordered ns \<Longrightarrow> ns = filter (\<lambda>n. fst n \<le> k) ns @ filter (\<lambda>n. k < fst n) ns"
proof (induction ns)
  case (Cons n ns)
  show ?case
  proof (cases "fst n \<le> k")
    case True
    then show ?thesis using Cons by (auto simp: not_less)
  next
    case False
    then have "k < fst m" if "m \<in> set ns" for m using Cons.prems that by (auto dest: less_trans)
    then have "filter (\<lambda>n. fst n \<le> k) ns = []" "filter (\<lambda>n. k < fst n) ns = ns"
      by (auto simp: filter_empty_conv filter_id_conv not_le)
    then show ?thesis using False by simp
  qed
qed simp

lemma it_query_succ:
  assumes "it_inv tree"
  shows "it_query (splay_tree_successor k) tree = (first (filter (\<lambda>n. k < fst n) (it_nodes tree)), it_splayed k tree)"
proof -
  let ?ms = "filter (\<lambda>n. k < fst n) (it_nodes tree)"
  have ord: "ordered (it_nodes tree)" and map: "map_of (it_nodes tree) = it_map tree" using it_nodes [OF assms] by auto
  obtain p where p: "it_query (splay_tree_successor k) tree = (p, it_splayed k tree)" "is_succ (it_map tree) k p"
    using it_query_successor [of tree k] assms by (auto simp: it_inv_def)
  have "is_succ (it_map tree) k (first ?ms)"
    using is_succ_hd [of "filter (\<lambda>n. fst n \<le> k) (it_nodes tree)" ?ms k] ord map
    unfolding ordered_split [OF ord, of k, symmetric] by (simp add: first_eq)
  then show ?thesis using p is_succ_unique by blast
qed

lemma it_nodes_splayed [simp]: "it_nodes (it_splayed k tree) = it_nodes tree"
  by (simp add: it_nodes_def)

text \<open>The nodes from a given one on, and what comes after the first of them.\<close>

lemma next_node:
  assumes "ordered ns" "filter (\<lambda>n. k < fst n) ns = n # ms"
  shows "filter (\<lambda>m. fst n < fst m) ns = ms"
proof -
  have n: "k < fst n" using assms(2) by (metis (mono_tags, lifting) filter_eq_ConsD)
  have ord: "ordered (n # ms)" using ordered_filter [OF assms(1), of "\<lambda>n. k < fst n"] assms(2) by simp
  have "filter (\<lambda>m. fst n < fst m) ns = filter (\<lambda>m. fst n < fst m) (filter (\<lambda>m. k < fst m) ns)"
    using n by (auto simp: intro!: filter_cong dest: less_trans)
  also have "\<dots> = filter (\<lambda>m. fst n < fst m) (n # ms)" using assms(2) by simp
  also have "\<dots> = ms" using ord by (simp add: filter_id_conv)
  finally show ?thesis .
qed

lemma takeWhile_ordered: "ordered ns \<Longrightarrow> takeWhile (\<lambda>n. fst n < b) ns = filter (\<lambda>n. fst n < b) ns"
proof (induction ns)
  case (Cons n ns)
  have "filter (\<lambda>n. fst n < b) ns = []" if "\<not> fst n < b"
    using Cons.prems that by (auto simp: filter_empty_conv dest: less_trans)
  then show ?case using Cons by auto
qed simp


section \<open>Correctness of the intersection\<close>

definition intervals_of :: "interval varray \<Rightarrow> st_node list" where
  "intervals_of va = map (\<lambda>x. (iv_start (the x), iv_end (the x))) (va_list va)"

text \<open>An array that has room for \<open>n\<close> more intervals.\<close>

definition iv_array :: "nat \<Rightarrow> interval varray \<Rightarrow> bool" where
  "iv_array n va \<longleftrightarrow> va_ok va \<and> va_size va = sizeof_interval \<and> va_room n va \<and> None \<notin> set (va_list va)"

lemma push_interval:
  assumes "iv_array (Suc n) dest"
  shows "iv_array n (push_interval s e dest)"
    and "intervals_of (push_interval s e dest) = intervals_of dest @ [(s, e)]"
proof -
  have ok: "va_ok dest" "va_room 1 dest" using assms va_room_mono [of "Suc n" dest 1] by (auto simp: iv_array_def)
  have push: "push_interval s e dest = VARRAY_PUSH \<lparr>iv_start = s, iv_end = e\<rparr> dest"
    by (simp add: push_interval_def set_VARRAY_TOP_push)
  show "iv_array n (push_interval s e dest)"
    using assms ok VARRAY_PUSH [OF ok] va_push_used(2) [OF ok] va_room_push [of dest n]
    by (auto simp: push iv_array_def)
  show "intervals_of (push_interval s e dest) = intervals_of dest @ [(s, e)]"
    by (simp add: push intervals_of_def VARRAY_PUSH [OF ok])
qed

lemma iv_array_create:
  assumes "n < 2 ^ 27" "nelem = 4 \<or> nelem = 16"
  shows "iv_array n (varray_create sizeof_interval nelem)" and "intervals_of (varray_create sizeof_interval nelem) = []"
proof -
  have "va_ok (varray_create sizeof_interval nelem :: interval varray)" "va_list (varray_create sizeof_interval nelem :: interval varray) = []"
    using assms(2) by (auto intro!: varray_create simp: sizeof_interval_def)
  then show "iv_array n (varray_create sizeof_interval nelem)" "intervals_of (varray_create sizeof_interval nelem) = []"
    using assms(1) by (simp_all add: iv_array_def va_room_def intervals_of_def) (simp_all add: varray_create_def sizeof_interval_def)
qed

text \<open>\<open>ns\<close> are the nodes of the tree from its first one on.\<close>

definition chain :: "st_node list \<Rightarrow> interval_tree \<Rightarrow> bool" where
  "chain ns tree \<longleftrightarrow> (\<forall>n ms. ns = n # ms \<longrightarrow> filter (\<lambda>m. fst n < fst m) (it_nodes tree) = ms)"

lemma chain_succ: "it_inv tree \<Longrightarrow> chain (filter (\<lambda>n. k < fst n) (it_nodes tree)) tree"
  unfolding chain_def by (intro allI impI) (rule next_node [OF it_nodes(1)])

definition same_tree :: "interval_tree \<Rightarrow> interval_tree \<Rightarrow> bool" where
  "same_tree tree tree' \<longleftrightarrow> it_inv tree' \<and> it_nodes tree' = it_nodes tree"

lemma same_tree_splayed [simp]: "same_tree tree (it_splayed k tree') = same_tree tree tree'"
  "same_tree (it_splayed k tree) tree' = same_tree tree tree'" "same_tree tree tree = it_inv tree"
  by (simp_all add: same_tree_def)

lemma chain_splayed [simp]: "chain ns (it_splayed k tree) = chain ns tree"
  by (simp add: chain_def)

lemma chain_same_tree: "same_tree tree tree' \<Longrightarrow> chain ns tree' = chain ns tree"
  by (simp add: chain_def same_tree_def)

lemma chain_Cons:
  assumes "it_inv tree" "chain (n # ns) tree"
  shows "it_query (splay_tree_successor (fst n)) tree = (first ns, it_splayed (fst n) tree)" and "chain ns tree"
proof -
  have "filter (\<lambda>m. fst n < fst m) (it_nodes tree) = ns" using assms(2) by (simp add: chain_def)
  then show "it_query (splay_tree_successor (fst n)) tree = (first ns, it_splayed (fst n) tree)" "chain ns tree"
    using it_query_succ [OF assms(1), of "fst n"] chain_succ [OF assms(1), of "fst n"] by simp_all
qed

definition clip :: "u64 \<Rightarrow> u64 \<Rightarrow> st_node \<Rightarrow> st_node" where
  "clip start end n = (max start (fst n), min end (snd n))"

lemma MAX_MIN [simp]: "MAX_u64 = max" "MIN_u64 = min"
  by (auto simp: MAX_u64_def MIN_u64_def max_def min_def fun_eq_iff)

lemma intersection_loop:
  assumes "it_inv tree" "chain ns tree" "iv_array (length (takeWhile (\<lambda>n. fst n < end) ns) + k) dest"
  shows "\<exists>tree' dest'. intersection_loop start end (first ns) tree dest = Some (tree', dest') \<and> same_tree tree tree'
    \<and> iv_array k dest' \<and> intervals_of dest' = intervals_of dest @ map (clip start end) (takeWhile (\<lambda>n. fst n < end) ns)"
  using assms
proof (induction ns arbitrary: tree dest)
  case Nil
  then show ?case by (subst intersection_loop.simps) (simp add: same_tree_def)
next
  case (Cons n ns)
  show ?case
  proof (cases "fst n < end")
    case False
    then show ?thesis using Cons.prems by (subst intersection_loop.simps) (simp add: same_tree_def)
  next
    case True
    let ?dest = "push_interval (max start (fst n)) (min end (snd n)) dest"
    have eq: "intersection_loop start end (first (n # ns)) tree dest =
        intersection_loop start end (first ns) (it_splayed (fst n) tree) ?dest"
      using True chain_Cons(1) [OF Cons.prems(1,2)] by (subst intersection_loop.simps) simp
    have "iv_array (Suc (length (takeWhile (\<lambda>n. fst n < end) ns) + k)) dest" using Cons.prems(3) True by simp
    note push = push_interval [OF this, of "max start (fst n)" "min end (snd n)"]
    show ?thesis
      using Cons.IH [of "it_splayed (fst n) tree" ?dest] Cons.prems(1) chain_Cons(2) [OF Cons.prems(1,2)] push True
      unfolding eq by (simp add: clip_def)
  qed
qed

text \<open>The first node of the intersection, found by the same steps as in \<open>interval_tree_lookup\<close>.\<close>

lemma first_after_chain:
  assumes t: "it_inv tree" and r: "first_after tree start r"
  shows "r = first (filter (\<lambda>n. start < snd n) (it_nodes tree))"
    and "chain (filter (\<lambda>n. start < snd n) (it_nodes tree)) tree"
proof -
  let ?ns = "filter (\<lambda>n. start < snd n) (it_nodes tree)"
  have iff: "it_map tree s = Some e \<longleftrightarrow> (s, e) \<in> set (it_nodes tree)" for s e
    using map_of_ordered [OF it_nodes(1) [OF t]] it_nodes(2) [OF t] by simp
  have inv: "iv_inv (it_map tree)" using t by (simp add: it_inv_def)
  have ord: "ordered (it_nodes tree)" using it_nodes(1) [OF t] .
  have up: "start < snd m" if "n \<in> set ?ns" "m \<in> set (it_nodes tree)" "fst n < fst m" for n m
  proof -
    have "it_map tree (fst n) = Some (snd n)" "it_map tree (fst m) = Some (snd m)" using that iff by simp_all
    then have "snd n < fst m" "fst m < snd m" using iv_inv_apart [OF inv _ _ that(3)] iv_inv_less [OF inv] by blast+
    moreover have "start < snd n" using that(1) by simp
    ultimately show ?thesis by (meson less_trans)
  qed
  show "chain ?ns tree"
    unfolding chain_def
  proof (intro allI impI)
    fix n ms assume ns: "?ns = n # ms"
    then have n: "n \<in> set ?ns" by simp
    have "ordered (n # ms)" using ordered_filter [OF ord, of "\<lambda>n. start < snd n"] ns by simp
    then have "ms = filter (\<lambda>m. fst n < fst m) ?ns" using ns by (simp add: filter_id_conv)
    also have "\<dots> = filter (\<lambda>m. fst n < fst m) (it_nodes tree)" using up [OF n] by (auto intro!: filter_cong)
    finally show "filter (\<lambda>m. fst n < fst m) (it_nodes tree) = ms" by simp
  qed
  show "r = first ?ns"
  proof (cases r)
    case None
    then have "\<forall>n \<in> set (it_nodes tree). \<not> start < snd n" using r iff by (fastforce simp: first_after_def)
    then show ?thesis using None by (simp add: filter_False)
  next
    case (Some n)
    then have n: "n \<in> set ?ns" "\<forall>m \<in> set (it_nodes tree). fst m < fst n \<longrightarrow> snd m \<le> start"
      using r iff by (auto simp: first_after_def)
    then obtain m ms where ns: "?ns = m # ms" by (cases ?ns) auto
    have "ordered (m # ms)" using ordered_filter [OF ord, of "\<lambda>n. start < snd n"] ns by simp
    moreover have "m \<in> set ?ns" using ns by simp
    then have "\<not> fst m < fst n" using n(2) by auto
    moreover have "n = m \<or> n \<in> set ms" using n(1) ns by simp
    ultimately have "n = m" by auto
    then show ?thesis using Some ns by simp
  qed
qed

lemma intersection_1_start:
  assumes t: "it_inv tree"
  shows "\<exists>tree'. interval_tree_intersection_1 start end tree dest =
    intersection_loop start end (fst (interval_tree_lookup start tree)) tree' dest \<and> same_tree tree tree'"
proof -
  let ?t1 = "it_splayed start tree" and ?t2 = "it_splayed start (it_splayed start tree)"
  have sorted: "it_sorted tree" using t by (simp add: it_inv_def)
  note lookup = it_query_lookup [OF sorted, of start]
  obtain prev where prev: "it_query (splay_tree_predecessor start) ?t1 = (prev, ?t2)"
    using it_query_predecessor [of ?t1 start] sorted by auto
  obtain nx where nx: "it_query (splay_tree_successor start) ?t2 = (nx, it_splayed start ?t2)"
      "it_query (splay_tree_successor start) (it_splayed start ?t2) = (nx, it_splayed start (it_splayed start ?t2))"
    using it_query_succ [of ?t2 start] it_query_succ [of "it_splayed start ?t2" start] t by simp
  show ?thesis
  proof (cases "it_map tree start")
    case (Some c)
    then show ?thesis
      using lookup t by (auto simp: interval_tree_intersection_1_def interval_tree_lookup_def intro!: exI [of _ ?t1])
  next
    case None
    show ?thesis
    proof (cases "\<exists>p c. prev = Some (p, c) \<and> start < c")
      case True
      then show ?thesis
        using lookup None prev t
        by (auto simp: interval_tree_intersection_1_def interval_tree_lookup_def not_le intro!: exI [of _ ?t2])
    next
      case False
      then have "prev = None \<or> snd (the prev) \<le> start" by (cases prev) (auto simp: not_less)
      then have "interval_tree_intersection_1 start end tree dest = intersection_loop start end nx
          (if nx = None then it_splayed start (it_splayed start ?t2) else it_splayed start ?t2) dest"
        using lookup None prev nx by (simp add: interval_tree_intersection_1_def)
      moreover have "fst (interval_tree_lookup start tree) = nx"
        using lookup None prev nx(1) False by (auto simp: interval_tree_lookup_def split: option.split)
      ultimately show ?thesis using t by auto
    qed
  qed
qed

text \<open>The intervals that meet a given one.\<close>

definition hits :: "u64 \<Rightarrow> u64 \<Rightarrow> st_node list \<Rightarrow> st_node list" where
  "hits start end ns = filter (\<lambda>n. start < snd n \<and> fst n < end) ns"

lemma interval_tree_intersection_1:
  assumes t: "it_inv tree" and dest: "iv_array (length (hits start end (it_nodes tree)) + k) dest"
  shows "\<exists>tree' dest'. interval_tree_intersection_1 start end tree dest = Some (tree', dest') \<and> same_tree tree tree'
    \<and> iv_array k dest' \<and> intervals_of dest' = intervals_of dest @ map (clip start end) (hits start end (it_nodes tree))"
proof -
  let ?ns = "filter (\<lambda>n. start < snd n) (it_nodes tree)"
  obtain r tree1 where "interval_tree_lookup start tree = (r, tree1)" "first_after tree start r"
    using interval_tree_lookup [OF t] by blast
  then have r: "fst (interval_tree_lookup start tree) = first ?ns" "chain ?ns tree"
    using first_after_chain [OF t] by simp_all
  obtain tree' where eq: "interval_tree_intersection_1 start end tree dest = intersection_loop start end (first ?ns) tree' dest"
    and tree': "same_tree tree tree'" using intersection_1_start [OF t] r(1) by metis
  have "takeWhile (\<lambda>n. fst n < end) ?ns = hits start end (it_nodes tree)"
    using takeWhile_ordered [OF ordered_filter [OF it_nodes(1) [OF t]]] by (simp add: hits_def conj_commute)
  moreover have "it_inv tree'" "chain ?ns tree'" using tree' chain_same_tree [OF tree'] r(2) by (simp_all add: same_tree_def)
  ultimately show ?thesis
    using intersection_loop [of tree' ?ns "end" k dest start] dest tree' unfolding eq same_tree_def by simp
qed

lemma clip_offsets: "node_offsets (map (clip start end) (hits start end (it_nodes tree))) = node_offsets (it_nodes tree) \<inter> {start..<end}"
proof -
  have "{fst (clip start end n)..<snd (clip start end n)} = {fst n..<snd n} \<inter> {start..<end}" for n
    by (auto simp: clip_def)
  then have "node_offsets (map (clip start end) (hits start end (it_nodes tree))) = (\<Union>n \<in> set (hits start end (it_nodes tree)). {fst n..<snd n} \<inter> {start..<end})"
    by (simp add: node_offsets_def)
  also have "\<dots> = (\<Union>n \<in> set (it_nodes tree). {fst n..<snd n} \<inter> {start..<end})"
    by (auto simp: hits_def) (meson le_less_trans)
  finally show ?thesis by (auto simp: node_offsets_def)
qed

lemma clip_ordered:
  assumes t: "it_inv tree" and se: "start < end"
  shows "ordered (map (clip start end) (hits start end (it_nodes tree)))"
    and "\<forall>x \<in> set (map (clip start end) (hits start end (it_nodes tree))). fst x < snd x"
proof -
  have less: "fst (clip start end n) < fst (clip start end m)"
    if "n \<in> set (hits start end (it_nodes tree))" "m \<in> set (hits start end (it_nodes tree))" "fst n < fst m" for n m
  proof -
    have "it_map tree (fst n) = Some (snd n)" "it_map tree (fst m) = Some (snd m)"
      using that(1,2) map_of_ordered [OF it_nodes(1) [OF t]] it_nodes(2) [OF t] by (simp_all add: hits_def)
    then have "snd n < fst m" using iv_inv_apart [of "it_map tree"] t that(3) by (auto simp: it_inv_def)
    moreover have "start < snd n" using that(1) by (simp add: hits_def)
    ultimately have "start < fst m" by (meson less_trans)
    then show ?thesis using that(3) by (simp add: clip_def less_max_iff_disj)
  qed
  have "sorted_wrt (\<lambda>n m. fst n < fst m) (hits start end (it_nodes tree))"
    using ordered_filter [OF it_nodes(1) [OF t]] by (simp add: ordered_def hits_def sorted_wrt_map)
  then have "sorted_wrt (\<lambda>n m. fst (clip start end n) < fst (clip start end m)) (hits start end (it_nodes tree))"
    by (rule sorted_wrt_mono_rel [rotated]) (rule less)
  then show "ordered (map (clip start end) (hits start end (it_nodes tree)))" by (simp add: ordered_def sorted_wrt_map)
  show "\<forall>x \<in> set (map (clip start end) (hits start end (it_nodes tree))). fst x < snd x"
    using it_nodes(4) [OF t] se by (auto simp: hits_def clip_def)
qed


section \<open>Correctness of the complement\<close>

text \<open>The gaps between the intervals \<open>ns\<close>, from \<open>l\<close> on. A gap that begins before \<open>end\<close> reaches up to the next interval.\<close>

fun gaps :: "u64 \<Rightarrow> u64 \<Rightarrow> st_node list \<Rightarrow> st_node list" where
  "gaps l end [] = (if l < end then [(l, end)] else [])"
| "gaps l end (n # ns) = (if l < end then (l, fst n) # gaps (snd n) end ns else [])"

lemma complement_loop:
  assumes "it_inv tree" "chain ns tree" "iv_array (length (gaps l end ns) + k) dest"
  shows "\<exists>tree' dest'. complement_loop l end (first ns) tree dest = Some (tree', dest') \<and> same_tree tree tree'
    \<and> iv_array k dest' \<and> intervals_of dest' = intervals_of dest @ gaps l end ns"
  using assms
proof (induction ns arbitrary: l tree dest)
  case Nil
  then show ?case
    using push_interval [of k dest l "end"] by (subst complement_loop.simps) (auto simp: split: if_splits)
next
  case (Cons n ns)
  show ?case
  proof (cases "l < end")
    case False
    then show ?thesis using Cons.prems by (subst complement_loop.simps) simp
  next
    case True
    let ?dest = "push_interval l (fst n) dest"
    have eq: "complement_loop l end (first (n # ns)) tree dest =
        complement_loop (snd n) end (first ns) (it_splayed (fst n) tree) ?dest"
      using True chain_Cons(1) [OF Cons.prems(1,2)] by (subst complement_loop.simps) simp
    have "iv_array (Suc (length (gaps (snd n) end ns) + k)) dest" using Cons.prems(3) True by simp
    note push = push_interval [OF this, of l "fst n"]
    have "it_inv (it_splayed (fst n) tree)" "chain ns (it_splayed (fst n) tree)"
      using Cons.prems(1) chain_Cons(2) [OF Cons.prems(1,2)] by simp_all
    from Cons.IH [OF this push(1)] show ?thesis unfolding eq using push(2) True by (elim exE conjE) simp
  qed
qed

text \<open>Where the first gap from \<open>start\<close> on begins.\<close>

definition first_gap :: "u64 \<Rightarrow> st_node list \<Rightarrow> u64" where
  "first_gap start ns = (case filter (\<lambda>n. fst n \<le> start \<and> start < snd n) ns of [] \<Rightarrow> start | n # _ \<Rightarrow> snd n)"

lemma filter_unique:
  assumes "x \<in> set xs" "P x" "\<And>y. y \<in> set xs \<Longrightarrow> P y \<Longrightarrow> y = x"
  shows "\<exists>ys. filter P xs = x # ys"
proof -
  have "x \<in> set (filter P xs)" using assms(1,2) by simp
  then obtain y ys where ys: "filter P xs = y # ys" by (cases "filter P xs") simp_all
  then have "y \<in> set (filter P xs)" by simp
  then have "y = x" using assms(3) [of y] by simp
  then show ?thesis using ys by blast
qed

lemma first_gap_in:
  assumes t: "it_inv tree" and n: "it_map tree s = Some e" "s \<le> start" "start < e"
  shows "first_gap start (it_nodes tree) = e"
proof -
  have iff: "it_map tree s = Some e \<longleftrightarrow> (s, e) \<in> set (it_nodes tree)" for s e
    using map_of_ordered [OF it_nodes(1) [OF t]] it_nodes(2) [OF t] by simp
  have "m = (s, e)" if "m \<in> set (it_nodes tree)" "fst m \<le> start \<and> start < snd m" for m
  proof -
    have m: "it_map tree (fst m) = Some (snd m)" using that iff by simp
    have inv: "iv_inv (it_map tree)" using t by (simp add: it_inv_def)
    have "\<not> fst m < s" using iv_inv_apart [OF inv m n(1)] that(2) n(2) by auto
    moreover have "\<not> s < fst m" using iv_inv_apart [OF inv n(1) m] that(2) n(3) by auto
    ultimately have "fst m = s" by simp
    then show ?thesis using m n(1) by (simp add: prod_eq_iff)
  qed
  moreover have "(s, e) \<in> set (it_nodes tree)" "fst (s, e) \<le> start \<and> start < snd (s, e)" using n iff by simp_all
  ultimately have "\<exists>ys. filter (\<lambda>n. fst n \<le> start \<and> start < snd n) (it_nodes tree) = (s, e) # ys"
    by (intro filter_unique)
  then obtain ys where "filter (\<lambda>n. fst n \<le> start \<and> start < snd n) (it_nodes tree) = (s, e) # ys" ..
  then show ?thesis by (simp add: first_gap_def)
qed

lemma first_gap_out:
  assumes t: "it_inv tree" and n: "\<And>s e. it_map tree s = Some e \<Longrightarrow> s \<le> start \<Longrightarrow> e \<le> start"
  shows "first_gap start (it_nodes tree) = start"
proof -
  have "\<not> (fst m \<le> start \<and> start < snd m)" if "m \<in> set (it_nodes tree)" for m
  proof -
    have "it_map tree (fst m) = Some (snd m)"
      using map_of_ordered [OF it_nodes(1) [OF t]] it_nodes(2) [OF t] that by simp
    then show ?thesis using n [of "fst m" "snd m"] by auto
  qed
  then have "filter (\<lambda>n. fst n \<le> start \<and> start < snd n) (it_nodes tree) = []" by (simp add: filter_empty_conv)
  then show ?thesis by (simp add: first_gap_def)
qed

definition complement_pieces :: "u64 \<Rightarrow> u64 \<Rightarrow> st_node list \<Rightarrow> st_node list" where
  "complement_pieces start end ns = gaps (first_gap start ns) end (filter (\<lambda>n. start < fst n) ns)"

lemma complement_1_start:
  assumes t: "it_inv tree"
  shows "\<exists>tree'. interval_tree_complement_1 start end tree dest =
    complement_loop (first_gap start (it_nodes tree)) end (first (filter (\<lambda>n. start < fst n) (it_nodes tree))) tree' dest
    \<and> same_tree tree tree'"
proof -
  let ?t1 = "it_splayed start tree" and ?t2 = "it_splayed start (it_splayed start tree)"
  let ?ns = "filter (\<lambda>n. start < fst n) (it_nodes tree)"
  have sorted: "it_sorted tree" and inv: "iv_inv (it_map tree)" using t by (auto simp: it_inv_def)
  note lookup = it_query_lookup [OF sorted, of start]
  obtain prev where prev: "it_query (splay_tree_predecessor start) ?t1 = (prev, ?t2)" "is_pred (it_map tree) start prev"
    using it_query_predecessor [of ?t1 start] sorted by auto
  have nx: "it_query (splay_tree_successor start) ?t1 = (first ?ns, ?t2)"
      "it_query (splay_tree_successor start) ?t2 = (first ?ns, it_splayed start ?t2)"
    using it_query_succ [of ?t1 start] it_query_succ [of ?t2 start] t by simp_all
  show ?thesis
  proof (cases "it_map tree start")
    case (Some c)
    have "first_gap start (it_nodes tree) = c"
      using first_gap_in [OF t Some] iv_inv_less [OF inv Some] by simp
    then show ?thesis
      using lookup Some nx(1) t by (auto simp: interval_tree_complement_1_def intro!: exI [of _ ?t2])
  next
    case None
    have "interval_tree_complement_1 start end tree dest =
        complement_loop (case prev of Some n \<Rightarrow> if snd n > start then snd n else start | None \<Rightarrow> start) end
          (first ?ns) (it_splayed start ?t2) dest"
      using lookup None prev(1) nx(2) by (simp add: interval_tree_complement_1_def)
    moreover have "(case prev of Some n \<Rightarrow> if snd n > start then snd n else start | None \<Rightarrow> start) =
        first_gap start (it_nodes tree)"
    proof (cases "\<exists>p c. prev = Some (p, c) \<and> start < c")
      case True
      then obtain p c where p: "prev = Some (p, c)" "start < c" by blast
      then show ?thesis using first_gap_in [OF t, of p c start] prev(2) by (simp add: less_imp_le)
    next
      case False
      have "e \<le> start" if s: "it_map tree s = Some e" "s \<le> start" for s e
      proof -
        have "s < start" using s None by (cases "s = start") auto
        moreover have "c \<le> start" if "prev = Some (p, c)" for p c using that False by auto
        ultimately show ?thesis
          using is_pred_ends [OF inv prev(2), of "\<lambda>x. x \<le> start" s e] s(1) by (simp add: less_imp_le)
      qed
      then have "first_gap start (it_nodes tree) = start" using first_gap_out [OF t] by blast
      then show ?thesis using False by (auto split: option.split)
    qed
    ultimately show ?thesis using t by (auto intro!: exI [of _ "it_splayed start ?t2"])
  qed
qed

lemma interval_tree_complement_1:
  assumes t: "it_inv tree" and dest: "iv_array (length (complement_pieces start end (it_nodes tree)) + k) dest"
  shows "\<exists>tree' dest'. interval_tree_complement_1 start end tree dest = Some (tree', dest') \<and> same_tree tree tree'
    \<and> iv_array k dest' \<and> intervals_of dest' = intervals_of dest @ complement_pieces start end (it_nodes tree)"
proof -
  let ?ns = "filter (\<lambda>n. start < fst n) (it_nodes tree)"
  obtain tree' where eq: "interval_tree_complement_1 start end tree dest =
      complement_loop (first_gap start (it_nodes tree)) end (first ?ns) tree' dest" and tree': "same_tree tree tree'"
    using complement_1_start [OF t] by blast
  have "it_inv tree'" "chain ?ns tree'"
    using tree' chain_same_tree [OF tree'] chain_succ [OF t, of start] by (simp_all add: same_tree_def)
  from complement_loop [OF this dest [unfolded complement_pieces_def]] obtain tree1 dest1
    where "complement_loop (first_gap start (it_nodes tree)) end (first ?ns) tree' dest = Some (tree1, dest1)"
      "same_tree tree' tree1" "iv_array k dest1"
      "intervals_of dest1 = intervals_of dest @ complement_pieces start end (it_nodes tree)"
    unfolding complement_pieces_def by (elim exE conjE)
  then show ?thesis using tree' eq by (simp add: same_tree_def)
qed


section \<open>Arrays of intervals\<close>

text \<open>
  Both operations append some pieces to an array. What they do for all intervals of an array
  follows from what they do for one.
\<close>

locale piecewise =
  fixes oper :: "u64 \<Rightarrow> u64 \<Rightarrow> interval_tree \<Rightarrow> interval varray \<Rightarrow> (interval_tree \<times> interval varray) option"
    and pieces :: "u64 \<Rightarrow> u64 \<Rightarrow> st_node list \<Rightarrow> st_node list"
  assumes oper: "it_inv tree \<Longrightarrow> iv_array (length (pieces start end (it_nodes tree)) + k) dest \<Longrightarrow>
    \<exists>tree' dest'. oper start end tree dest = Some (tree', dest') \<and> same_tree tree tree'
      \<and> iv_array k dest' \<and> intervals_of dest' = intervals_of dest @ pieces start end (it_nodes tree)"
begin

lemma create_piecewise:
  assumes "it_inv tree" "length (pieces start end (it_nodes tree)) < 2 ^ 27"
  shows "\<exists>tree' dest. oper start end tree (varray_create sizeof_interval 4) = Some (tree', dest) \<and> same_tree tree tree'
    \<and> \<not> va_fault dest \<and> intervals_of dest = pieces start end (it_nodes tree)"
  using oper [OF assms(1), of start "end" 0 "varray_create sizeof_interval 4"] iv_array_create [OF assms(2), of 4]
  by (auto simp: iv_array_def va_ok_def)

lemma each_piecewise:
  assumes "it_inv tree" "iv_array 0 src" "unat i \<le> length (intervals_of src)"
    and "iv_array (length (concat (map (\<lambda>x. pieces (fst x) (snd x) (it_nodes tree)) (drop (unat i) (intervals_of src)))) + k) dest"
  shows "\<exists>tree' dest'. each_interval oper src i tree dest = Some (tree', dest') \<and> same_tree tree tree' \<and> iv_array k dest'
    \<and> intervals_of dest' = intervals_of dest
        @ concat (map (\<lambda>x. pieces (fst x) (snd x) (it_nodes tree)) (drop (unat i) (intervals_of src)))"
  using assms
proof (induction "length (intervals_of src) - unat i" arbitrary: i tree dest)
  case 0
  then have "\<not> i < VARRAY_USED src"
    by (simp add: intervals_of_def iv_array_def word_less_nat_alt)
  then show ?case using 0 by (subst each_interval.simps) simp
next
  case (Suc d)
  let ?P = "\<lambda>tree x. pieces (fst x) (snd x) (it_nodes tree)"
  have len: "length (intervals_of src) = unat (VARRAY_USED src)" and ok: "va_ok src" "None \<notin> set (va_list src)"
    using Suc.prems(2) by (simp_all add: intervals_of_def iv_array_def)
  then have i: "unat i < length (intervals_of src)" "i < VARRAY_USED src"
    using Suc.hyps(2) by (simp_all add: word_less_nat_alt)
  then have i1: "unat (i + 1) = unat i + 1"
    using len unsigned_less [of "VARRAY_USED src", where ?'a = nat] by (simp add: unat_word_ariths)
  have "va_list src ! unat i \<in> set (va_list src)" using i(1) len ok(1) by simp
  then have "VARRAY_ACCESS src i \<noteq> None" using VARRAY_ACCESS [OF ok(1) i(2)] ok(2) by metis
  then obtain x where x: "VARRAY_ACCESS src i = Some x" by blast
  have nth: "intervals_of src ! unat i = (iv_start x, iv_end x)"
    using VARRAY_ACCESS [OF ok(1) i(2), symmetric] x i len by (simp add: intervals_of_def ok(1))
  have split: "drop (unat i) (intervals_of src) = (iv_start x, iv_end x) # drop (unat (i + 1)) (intervals_of src)"
    using Cons_nth_drop_Suc [OF i(1)] nth i1 by simp
  let ?rest = "concat (map (?P tree) (drop (unat (i + 1)) (intervals_of src)))"
  have "iv_array (length (pieces (iv_start x) (iv_end x) (it_nodes tree)) + (length ?rest + k)) dest"
    using Suc.prems(4) unfolding split by (simp add: add.assoc)
  from oper [OF Suc.prems(1) this] obtain tree1 dest1 where
    1: "oper (iv_start x) (iv_end x) tree dest = Some (tree1, dest1)" "same_tree tree tree1" "iv_array (length ?rest + k) dest1"
      "intervals_of dest1 = intervals_of dest @ pieces (iv_start x) (iv_end x) (it_nodes tree)"
    by blast
  have nodes: "it_nodes tree1 = it_nodes tree" and inv: "it_inv tree1" using 1(2) by (simp_all add: same_tree_def)
  have "unat (i + 1) \<le> length (intervals_of src)" "d = length (intervals_of src) - unat (i + 1)" using i i1 Suc.hyps(2) by simp_all
  with Suc.hyps(1) [of "i + 1" tree1 dest1] inv Suc.prems(2) 1(3) nodes obtain tree2 dest2 where
    2: "each_interval oper src (i + 1) tree1 dest1 = Some (tree2, dest2)" "same_tree tree1 tree2" "iv_array k dest2"
      "intervals_of dest2 = intervals_of dest1 @ ?rest"
    by auto
  have "each_interval oper src i tree dest = Some (tree2, dest2)"
    using i(2) x 1(1) 2(1) by (subst each_interval.simps) simp
  then show ?case using 1 2 nodes unfolding split by (simp add: same_tree_def)
qed

end

definition intersection_pieces :: "u64 \<Rightarrow> u64 \<Rightarrow> st_node list \<Rightarrow> st_node list" where
  "intersection_pieces start end ns = map (clip start end) (hits start end ns)"

interpretation intersect: piecewise interval_tree_intersection_1 intersection_pieces
  by unfold_locales (simp add: intersection_pieces_def interval_tree_intersection_1)

interpretation complement: piecewise interval_tree_complement_1 complement_pieces
  by unfold_locales (rule interval_tree_complement_1)


section \<open>The sets of offsets\<close>

text \<open>A list of intervals that lie apart, all of them after \<open>l\<close>.\<close>

fun apart :: "u64 \<Rightarrow> st_node list \<Rightarrow> bool" where
  "apart l [] \<longleftrightarrow> True"
| "apart l (n # ns) \<longleftrightarrow> l < fst n \<and> fst n < snd n \<and> apart (snd n) ns"

lemma apart_above: "apart l ns \<Longrightarrow> node_offsets ns \<subseteq> {l<..}"
proof (induction ns arbitrary: l)
  case (Cons n ns)
  have "node_offsets ns \<subseteq> {snd n<..}" using Cons by simp
  moreover have "{snd n<..} \<subseteq> {l<..}" "{fst n..<snd n} \<subseteq> {l<..}" using Cons.prems by auto
  ultimately show ?case unfolding node_offsets_simps by (metis Un_least subset_trans)
qed simp

lemma gaps_above: "apart l ns \<Longrightarrow> node_offsets (gaps l end ns) \<subseteq> {l..}"
proof (induction ns arbitrary: l)
  case (Cons n ns)
  have "node_offsets (gaps (snd n) end ns) \<subseteq> {snd n..}" using Cons by simp
  moreover have "{snd n..} \<subseteq> {l..}" "{l..<fst n} \<subseteq> {l..}" using Cons.prems by auto
  ultimately show ?case by auto
qed auto

lemma gaps_offsets:
  "apart l ns \<Longrightarrow> node_offsets (gaps l end ns) \<inter> node_offsets ns = {}
     \<and> node_offsets (gaps l end ns) \<inter> {l..<end} = {l..<end} - node_offsets ns"
proof (induction ns arbitrary: l)
  case (Cons n ns)
  show ?case
  proof (cases "l < end")
    case False
    then show ?thesis by simp
  next
    case True
    have IH: "node_offsets (gaps (snd n) end ns) \<inter> node_offsets ns = {}"
        "node_offsets (gaps (snd n) end ns) \<inter> {snd n..<end} = {snd n..<end} - node_offsets ns"
      using Cons by simp_all
    have above: "node_offsets (gaps (snd n) end ns) \<subseteq> {snd n..}" "node_offsets ns \<subseteq> {snd n<..}"
      using Cons.prems gaps_above apart_above by simp_all
    have n: "l < fst n" "fst n < snd n" using Cons.prems by simp_all
    have sets: "{l..<fst n} \<inter> {fst n..<snd n} = {}" "{l..<fst n} \<inter> {snd n..} = {}" "{fst n..<snd n} \<inter> {snd n..} = {}"
        "{snd n<..} \<subseteq> {snd n..}" using n by auto
    have l: "{l..<end} = ({l..<fst n} \<inter> {l..<end}) \<union> ({fst n..<snd n} \<inter> {l..<end}) \<union> {snd n..<end}" using n by auto
    have "{snd n..} \<inter> {l..<end} = {snd n..<end}" using n by auto
    then have "node_offsets (gaps (snd n) end ns) \<inter> {l..<end} = {snd n..<end} - node_offsets ns" using IH(2) above(1) by blast
    then show ?thesis
      using True IH(1) above sets l by (simp only: gaps.simps if_True node_offsets_simps fst_conv snd_conv) blast
  qed
qed auto

lemma apart_sorted:
  "sorted_wrt (\<lambda>n m. snd n < fst m) ns \<Longrightarrow> \<forall>n \<in> set ns. fst n < snd n \<and> l < fst n \<Longrightarrow> apart l ns"
  by (induction ns arbitrary: l) auto

lemma it_nodes_map: "it_inv tree \<Longrightarrow> n \<in> set (it_nodes tree) \<Longrightarrow> it_map tree (fst n) = Some (snd n)"
  using map_of_ordered [OF it_nodes(1), of tree "fst n" "snd n"] it_nodes(2) by simp

lemma it_nodes_apart:
  assumes t: "it_inv tree"
  shows "sorted_wrt (\<lambda>n m. snd n < fst m) (it_nodes tree)"
proof -
  have "sorted_wrt (\<lambda>n m. fst n < fst m) (it_nodes tree)"
    using it_nodes(1) [OF t] by (simp add: ordered_def sorted_wrt_map)
  moreover have "snd n < fst m" if "n \<in> set (it_nodes tree)" "m \<in> set (it_nodes tree)" "fst n < fst m" for n m
    using iv_inv_apart [of "it_map tree", OF _ it_nodes_map [OF t that(1)] it_nodes_map [OF t that(2)] that(3)] t
    by (simp add: it_inv_def)
  ultimately show ?thesis by (rule sorted_wrt_mono_rel [rotated])
qed

text \<open>Where the first gap begins, and what is after it.\<close>

lemma first_gap_spec:
  fixes start
  assumes t: "it_inv tree"
  defines "l \<equiv> first_gap start (it_nodes tree)"
  shows "start \<le> l" and "{start..<l} \<subseteq> offsets tree"
    and "\<And>n. n \<in> set (it_nodes tree) \<Longrightarrow> fst n \<le> start \<Longrightarrow> snd n \<le> l"
    and "\<And>n. n \<in> set (it_nodes tree) \<Longrightarrow> start < fst n \<Longrightarrow> l < fst n"
proof -
  have inv: "iv_inv (it_map tree)" using t by (simp add: it_inv_def)
  have *: "start \<le> l \<and> {start..<l} \<subseteq> offsets tree \<and> (\<forall>n \<in> set (it_nodes tree). (fst n \<le> start \<longrightarrow> snd n \<le> l) \<and> (start < fst n \<longrightarrow> l < fst n))"
  proof (cases "\<exists>s e. it_map tree s = Some e \<and> s \<le> start \<and> start < e")
    case True
    then obtain s e where n: "it_map tree s = Some e" "s \<le> start" "start < e" by blast
    then have l: "l = e" using first_gap_in [OF t] by (simp add: l_def)
    have "(fst m \<le> start \<longrightarrow> snd m \<le> e) \<and> (start < fst m \<longrightarrow> e < fst m)" if "m \<in> set (it_nodes tree)" for m
    proof (cases "fst m" s rule: linorder_cases)
      case less
      then have "snd m < s" using iv_inv_apart [OF inv it_nodes_map [OF t that] n(1)] by simp
      then show ?thesis using less n by auto
    next
      case equal
      then show ?thesis using it_nodes_map [OF t that] n by auto
    next
      case greater
      then have "e < fst m" using iv_inv_apart [OF inv n(1) it_nodes_map [OF t that]] by simp
      then show ?thesis using n(3) by auto
    qed
    moreover have "{s..<e} \<subseteq> offsets tree" unfolding offsets_def using covers_insert [of "it_map tree" s e] n(1) by blast
    moreover have "{start..<e} \<subseteq> {s..<e}" using n(2) by auto
    ultimately show ?thesis using n(3) unfolding l by (meson less_imp_le order_trans)
  next
    case False
    then have le: "e \<le> start" if "it_map tree s = Some e" "s \<le> start" for s e using that by (meson not_le)
    then have "l = start" using first_gap_out [OF t] by (simp add: l_def)
    then show ?thesis using le it_nodes_map [OF t] by auto
  qed
  then show "start \<le> l" "{start..<l} \<subseteq> offsets tree"
      "\<And>n. n \<in> set (it_nodes tree) \<Longrightarrow> fst n \<le> start \<Longrightarrow> snd n \<le> l"
      "\<And>n. n \<in> set (it_nodes tree) \<Longrightarrow> start < fst n \<Longrightarrow> l < fst n"
    by blast+
qed

lemma complement_offsets:
  assumes t: "it_inv tree"
  shows "node_offsets (complement_pieces start end (it_nodes tree)) \<inter> offsets tree = {}"
    and "node_offsets (complement_pieces start end (it_nodes tree)) \<inter> {start..<end} = {start..<end} - offsets tree"
proof -
  let ?l = "first_gap start (it_nodes tree)" and ?ns = "filter (\<lambda>n. start < fst n) (it_nodes tree)"
  let ?rest = "filter (\<lambda>n. \<not> start < fst n) (it_nodes tree)" and ?G = "node_offsets (complement_pieces start end (it_nodes tree))"
  note l = first_gap_spec [where start = start, OF t]
  have ap: "apart ?l ?ns"
    using it_nodes_apart [OF t] it_nodes(4) [OF t] l(4) by (intro apart_sorted) (auto simp: sorted_wrt_filter)
  have "offsets tree = node_offsets ?ns \<union> node_offsets ?rest"
    unfolding it_nodes(3) [OF t] node_offsets_def by auto
  moreover have "node_offsets ?rest \<subseteq> {..<?l}" using l(3) by (fastforce simp: node_offsets_def not_less)
  moreover have G: "?G \<subseteq> {?l..}" "?G \<inter> node_offsets ?ns = {}" "?G \<inter> {?l..<end} = {?l..<end} - node_offsets ?ns"
    using gaps_above [OF ap] gaps_offsets [OF ap] by (simp_all add: complement_pieces_def)
  moreover have "{..<?l} \<inter> {?l..} = {}" by auto
  ultimately show "?G \<inter> offsets tree = {}" by blast
  have "{?l..} \<inter> {start..<end} = {?l..<end}" using l(1) by auto
  then have 1: "?G \<inter> {start..<end} = ?G \<inter> {?l..<end}" using G(1) by blast
  have "{start..<end} \<subseteq> {start..<?l} \<union> {?l..<end}" "{?l..<end} \<subseteq> {start..<end}" using l(1) by auto
  then have 2: "{start..<end} - offsets tree = {?l..<end} - offsets tree" using l(2) by blast
  have "{..<?l} \<inter> {?l..<end} = {}" by auto
  then have "{?l..<end} \<inter> node_offsets ?rest = {}" using \<open>node_offsets ?rest \<subseteq> {..<?l}\<close> by blast
  then show "?G \<inter> {start..<end} = {start..<end} - offsets tree"
    using 1 2 G(3) \<open>offsets tree = node_offsets ?ns \<union> node_offsets ?rest\<close> by blast
qed

lemma intersection_offsets:
  "it_inv tree \<Longrightarrow> node_offsets (intersection_pieces start end (it_nodes tree)) = offsets tree \<inter> {start..<end}"
  by (simp add: intersection_pieces_def clip_offsets it_nodes(3))

lemma intersection_pieces_length: "length (intersection_pieces start end ns) \<le> length ns"
  by (simp add: intersection_pieces_def hits_def)

lemma gaps_length: "length (gaps l end ns) \<le> length ns + 1"
  by (induction ns arbitrary: l) auto

lemma complement_pieces_length: "length (complement_pieces start end ns) \<le> length ns + 1"
  using gaps_length [of "first_gap start ns" "end" "filter (\<lambda>n. start < fst n) ns"]
    length_filter_le [of "\<lambda>n. start < fst n" ns]
  unfolding complement_pieces_def by linarith

text \<open>
  C21. The intersection of an interval with the tree. It returns, writes inside the memory of its array, leaves
  the set of the tree alone, and the intervals it stores are sorted, not empty, and contain exactly the
  offsets that are in the tree and in the interval.
\<close>

theorem interval_tree_intersection_correct:
  assumes "it_inv tree" "start < end" "length (it_nodes tree) < 2 ^ 26"
  shows "\<exists>tree' dest. interval_tree_intersection start end tree = Some (tree', dest)
    \<and> it_inv tree' \<and> offsets tree' = offsets tree \<and> \<not> va_fault dest
    \<and> node_offsets (intervals_of dest) = offsets tree \<inter> {start..<end}
    \<and> ordered (intervals_of dest) \<and> (\<forall>x \<in> set (intervals_of dest). fst x < snd x)"
proof -
  have "length (intersection_pieces start end (it_nodes tree)) < 2 ^ 27"
    using intersection_pieces_length [of start "end" "it_nodes tree"] assms(3) by simp
  then obtain tree' dest where "interval_tree_intersection start end tree = Some (tree', dest)" "same_tree tree tree'"
      "\<not> va_fault dest" "intervals_of dest = intersection_pieces start end (it_nodes tree)"
    using intersect.create_piecewise [OF assms(1)] unfolding interval_tree_intersection_def by blast
  moreover have "offsets tree' = offsets tree"
    using calculation(2) it_nodes(3) assms(1) by (simp add: same_tree_def)
  ultimately show ?thesis
    using intersection_offsets [OF assms(1)] clip_ordered [OF assms(1,2)]
    by (simp add: same_tree_def intersection_pieces_def)
qed

lemma it_nodes_sample: "it_nodes (tree_of it_sample) = [(10, 12), (14, 40), (50, 60)]"
  by code_simp

lemma it_inv_sample: "it_inv (tree_of it_sample)"
  by (simp add: it_inv_tree_of it_sample_def)

theorem interval_tree_intersection_correct_witness:
  "\<exists>tree' dest. interval_tree_intersection 11 20 (tree_of it_sample) = Some (tree', dest)
    \<and> it_inv tree' \<and> offsets tree' = offsets (tree_of it_sample) \<and> \<not> va_fault dest
    \<and> node_offsets (intervals_of dest) = offsets (tree_of it_sample) \<inter> {11..<20}
    \<and> ordered (intervals_of dest) \<and> (\<forall>x \<in> set (intervals_of dest). fst x < snd x)"
  by (rule interval_tree_intersection_correct) (simp_all add: it_inv_sample it_nodes_sample)

text \<open>
  C19. The complement of the tree in an interval. It returns, writes inside the memory of its array and leaves the set of the tree
  alone. The intervals it stores contain no offset of the tree, and inside the given interval they contain
  every offset that is not in the tree.
\<close>

theorem interval_tree_complement_correct:
  assumes "it_inv tree" "length (it_nodes tree) < 2 ^ 26"
  shows "\<exists>tree' dest. interval_tree_complement start end tree = Some (tree', dest)
    \<and> it_inv tree' \<and> offsets tree' = offsets tree \<and> \<not> va_fault dest
    \<and> node_offsets (intervals_of dest) \<inter> {start..<end} = {start..<end} - offsets tree
    \<and> node_offsets (intervals_of dest) \<inter> offsets tree = {}"
proof -
  have "length (complement_pieces start end (it_nodes tree)) < 2 ^ 27"
    using complement_pieces_length [of start "end" "it_nodes tree"] assms(2) by simp
  then obtain tree' dest where "interval_tree_complement start end tree = Some (tree', dest)" "same_tree tree tree'"
      "\<not> va_fault dest" "intervals_of dest = complement_pieces start end (it_nodes tree)"
    using complement.create_piecewise [OF assms(1)] unfolding interval_tree_complement_def by blast
  moreover have "offsets tree' = offsets tree"
    using calculation(2) it_nodes(3) assms(1) by (simp add: same_tree_def)
  ultimately show ?thesis
    using complement_offsets [OF assms(1)] by (simp add: same_tree_def)
qed

theorem interval_tree_complement_correct_witness:
  "\<exists>tree' dest. interval_tree_complement 11 45 (tree_of it_sample) = Some (tree', dest)
    \<and> it_inv tree' \<and> offsets tree' = offsets (tree_of it_sample) \<and> \<not> va_fault dest
    \<and> node_offsets (intervals_of dest) \<inter> {11..<45} = {11..<45} - offsets (tree_of it_sample)
    \<and> node_offsets (intervals_of dest) \<inter> offsets (tree_of it_sample) = {}"
  by (rule interval_tree_complement_correct) (simp_all add: it_inv_sample it_nodes_sample)

text \<open>A gap that is entered before \<open>end\<close> is stored up to the next interval.\<close>

lemma gaps_overrun:
  "apart l ns \<Longrightarrow> l \<le> a \<Longrightarrow> a < end \<Longrightarrow> a < z \<Longrightarrow> z \<in> node_offsets ns \<Longrightarrow> {a..<z} \<inter> node_offsets ns = {}
    \<Longrightarrow> {a..<z} \<subseteq> node_offsets (gaps l end ns)"
proof (induction ns arbitrary: l)
  case (Cons n ns)
  have l: "l < end" using Cons.prems(2,3) by (rule le_less_trans)
  show ?case
  proof (cases "a < fst n")
    case True
    have "z \<le> fst n"
    proof (rule ccontr)
      assume "\<not> z \<le> fst n"
      then have "fst n \<in> {a..<z}" "fst n \<in> node_offsets (n # ns)" using True Cons.prems(1) by (simp_all add: not_le less_imp_le)
      then show False using Cons.prems(6) by blast
    qed
    then have "{a..<z} \<subseteq> {l..<fst n}" using Cons.prems(2) by auto
    then show ?thesis using l by (simp add: le_supI1)
  next
    case False
    have "a \<in> {a..<z}" using Cons.prems(4) by simp
    then have "a \<notin> {fst n..<snd n}" using Cons.prems(6) by auto
    then have "snd n \<le> a" using False by (simp add: not_less)
    moreover have "z \<in> node_offsets ns" "{a..<z} \<inter> node_offsets ns = {}"
      using Cons.prems(4,5,6) \<open>snd n \<le> a\<close> by auto
    ultimately have "{a..<z} \<subseteq> node_offsets (gaps (snd n) end ns)"
      using Cons.IH [of "snd n"] Cons.prems(1,3,4) by simp
    then show ?thesis using l by (simp add: le_supI2)
  qed
qed simp

lemma complement_overrun:
  assumes t: "it_inv tree" and a: "start \<le> a" "a < end" "end < z" and z: "z \<in> offsets tree" "{a..<z} \<inter> offsets tree = {}"
  shows "{a..<z} \<subseteq> node_offsets (complement_pieces start end (it_nodes tree))"
proof -
  let ?l = "first_gap start (it_nodes tree)" and ?ns = "filter (\<lambda>n. start < fst n) (it_nodes tree)"
  let ?rest = "filter (\<lambda>n. \<not> start < fst n) (it_nodes tree)"
  note l = first_gap_spec [where start = start, OF t]
  have ap: "apart ?l ?ns"
    using it_nodes_apart [OF t] it_nodes(4) [OF t] l(4) by (intro apart_sorted) (auto simp: sorted_wrt_filter)
  have az: "a < z" using a(2,3) by (rule less_trans)
  then have "a \<notin> offsets tree" using z(2) by auto
  then have la: "?l \<le> a" using l(2) a(1) by (meson atLeastLessThan_iff in_mono not_le)
  have split: "offsets tree = node_offsets ?ns \<union> node_offsets ?rest"
    unfolding it_nodes(3) [OF t] node_offsets_def by auto
  have "node_offsets ?rest \<subseteq> {..<?l}" using l(3) by (fastforce simp: node_offsets_def not_less)
  then have "z \<in> node_offsets ?ns" "{a..<z} \<inter> node_offsets ?ns = {}" using z split la az by auto
  then show ?thesis unfolding complement_pieces_def by (rule gaps_overrun [OF ap la a(2) az])
qed

text \<open>
  C20. The complement reaches beyond the interval. Let \<open>a\<close> be an offset of the interval that is not in the tree, and let the
  next offset \<open>z\<close> of the tree lie beyond the end of the interval: every offset from \<open>a\<close> up to \<open>z\<close> is stored, so
  also those between the end of the interval and \<open>z\<close>, which were not asked for.
\<close>

theorem interval_tree_complement_overruns:
  assumes "it_inv tree" "length (it_nodes tree) < 2 ^ 26" "start \<le> a" "a < end" "end < z"
    and "z \<in> offsets tree" "{a..<z} \<inter> offsets tree = {}"
  shows "\<exists>tree' dest. interval_tree_complement start end tree = Some (tree', dest)
    \<and> {a..<z} \<subseteq> node_offsets (intervals_of dest) \<and> {end..<z} \<noteq> {} \<and> {end..<z} \<subseteq> node_offsets (intervals_of dest)"
proof -
  have "length (complement_pieces start end (it_nodes tree)) < 2 ^ 27"
    using complement_pieces_length [of start "end" "it_nodes tree"] assms(2) by simp
  then obtain tree' dest where d: "interval_tree_complement start end tree = Some (tree', dest)"
      "intervals_of dest = complement_pieces start end (it_nodes tree)"
    using complement.create_piecewise [OF assms(1)] unfolding interval_tree_complement_def by blast
  have sets: "{end..<z} \<subseteq> {a..<z}" "{end..<z} \<noteq> {}" using assms(4,5) by auto
  note over = complement_overrun [OF assms(1,3-7), folded d(2)]
  show ?thesis using d(1) over sets(2) subset_trans [OF sets(1) over] by blast
qed

theorem interval_tree_complement_overruns_witness:
  "\<exists>tree' dest. interval_tree_complement 41 45 (tree_of it_sample) = Some (tree', dest)
    \<and> {41..<50} \<subseteq> node_offsets (intervals_of dest) \<and> {45..<50 :: u64} \<noteq> {} \<and> {45..<50} \<subseteq> node_offsets (intervals_of dest)"
proof (rule interval_tree_complement_overruns)
  have "offsets (tree_of it_sample) = {10..<12} \<union> {14..<40} \<union> {50..<60}"
    using it_nodes(3) [OF it_inv_sample] by (auto simp: it_nodes_sample)
  then show "50 \<in> offsets (tree_of it_sample)" "{41..<50} \<inter> offsets (tree_of it_sample) = {}"
    by (auto simp: word_le_nat_alt word_less_nat_alt)
qed (simp_all add: it_inv_sample it_nodes_sample)


section \<open>Sets given by arrays\<close>

lemma node_offsets_concat: "node_offsets (concat (map f xs)) = (\<Union>x \<in> set xs. node_offsets (f x))"
  by (induction xs) auto

lemma length_concat_le: "(\<And>x. length (f x) \<le> b) \<Longrightarrow> length (concat (map f xs)) \<le> b * length xs"
  by (induction xs) (auto simp: add_mono)

text \<open>
  C22. The same for all the intervals of an array, with an array that has room for the results. Both operations return, write inside
  the memory of the resulting array and leave the tree alone. The intersection contains exactly the offsets of the tree that are in
  one of the intervals. The complement contains no offset of the tree, and among the offsets of the intervals it contains exactly
  those that are not in the tree. The comment above \<open>interval_tree_complement_varray\<close> says that it stores the
  intersection; the code stores the complement.
\<close>

theorem interval_arrays_correct:
  assumes "it_inv tree" "iv_array 0 src" "(length (it_nodes tree) + 1) * length (intervals_of src) < 2 ^ 27"
  shows "(\<exists>tree' dest. interval_tree_intersection_varray tree src = Some (tree', dest) \<and> same_tree tree tree' \<and> \<not> va_fault dest
      \<and> node_offsets (intervals_of dest) = offsets tree \<inter> node_offsets (intervals_of src))
    \<and> (\<exists>tree' dest. interval_tree_complement_varray tree src = Some (tree', dest) \<and> same_tree tree tree' \<and> \<not> va_fault dest
      \<and> node_offsets (intervals_of dest) \<inter> offsets tree = {}
      \<and> node_offsets (intervals_of dest) \<inter> node_offsets (intervals_of src) = node_offsets (intervals_of src) - offsets tree)"
proof
  let ?ns = "it_nodes tree" and ?dest = "varray_create sizeof_interval 16 :: interval varray"
  let ?I = "concat (map (\<lambda>x. intersection_pieces (fst x) (snd x) ?ns) (intervals_of src))"
  let ?C = "concat (map (\<lambda>x. complement_pieces (fst x) (snd x) ?ns) (intervals_of src))"
  have "length (intersection_pieces (fst x) (snd x) ?ns) \<le> length ?ns + 1" for x
    using intersection_pieces_length [of "fst x" "snd x" ?ns] by simp
  then have "length ?I < 2 ^ 27" using length_concat_le [of "\<lambda>x. intersection_pieces (fst x) (snd x) ?ns"] assms(3) le_less_trans by blast
  then have "iv_array (length ?I) ?dest" "intervals_of ?dest = []" by (simp_all add: iv_array_create)
  then obtain tree' dest where "interval_tree_intersection_varray tree src = Some (tree', dest)" "same_tree tree tree'"
      "iv_array 0 dest" "intervals_of dest = ?I"
    using intersect.each_piecewise [OF assms(1,2), of 0 0 ?dest] by (auto simp: interval_tree_intersection_varray_def)
  moreover have "node_offsets ?I = offsets tree \<inter> node_offsets (intervals_of src)"
    unfolding node_offsets_concat intersection_offsets [OF assms(1)] by (auto simp: node_offsets_def)
  ultimately show "\<exists>tree' dest. interval_tree_intersection_varray tree src = Some (tree', dest) \<and> same_tree tree tree' \<and> \<not> va_fault dest
      \<and> node_offsets (intervals_of dest) = offsets tree \<inter> node_offsets (intervals_of src)"
    by (auto simp: iv_array_def va_ok_def)
  have "length ?C < 2 ^ 27"
    using length_concat_le [of "\<lambda>x. complement_pieces (fst x) (snd x) ?ns"] complement_pieces_length assms(3) le_less_trans by blast
  then have "iv_array (length ?C) ?dest" "intervals_of ?dest = []" by (simp_all add: iv_array_create)
  then obtain tree' dest where "interval_tree_complement_varray tree src = Some (tree', dest)" "same_tree tree tree'"
      "iv_array 0 dest" "intervals_of dest = ?C"
    using complement.each_piecewise [OF assms(1,2), of 0 0 ?dest] by (auto simp: interval_tree_complement_varray_def)
  moreover have disj: "node_offsets ?C \<inter> offsets tree = {}"
    unfolding node_offsets_concat using complement_offsets(1) [OF assms(1)] by blast
  moreover have "node_offsets ?C \<inter> node_offsets (intervals_of src) = node_offsets (intervals_of src) - offsets tree"
  proof -
    have "node_offsets (intervals_of src) - offsets tree \<subseteq> node_offsets ?C"
      unfolding node_offsets_concat node_offsets_def [of "intervals_of src"] using complement_offsets(2) [OF assms(1)] by blast
    then show ?thesis using disj by blast
  qed
  ultimately show "\<exists>tree' dest. interval_tree_complement_varray tree src = Some (tree', dest) \<and> same_tree tree tree' \<and> \<not> va_fault dest
      \<and> node_offsets (intervals_of dest) \<inter> offsets tree = {}
      \<and> node_offsets (intervals_of dest) \<inter> node_offsets (intervals_of src) = node_offsets (intervals_of src) - offsets tree"
    by (auto simp: iv_array_def va_ok_def)
qed

definition sample_array :: "interval varray" where
  "sample_array = push_interval 55 70 (push_interval 5 15 (varray_create sizeof_interval 4))"

lemma sample_array: "iv_array 0 sample_array" "intervals_of sample_array = [(5, 15), (55, 70)]"
proof -
  have "iv_array (Suc (Suc 0)) (varray_create sizeof_interval 4)" "intervals_of (varray_create sizeof_interval 4) = []"
    by (simp_all add: iv_array_create [where n = "Suc (Suc 0)"])
  then show "iv_array 0 sample_array" "intervals_of sample_array = [(5, 15), (55, 70)]"
    using push_interval [of "Suc 0" "varray_create sizeof_interval 4" 5 15]
      push_interval [of 0 "push_interval 5 15 (varray_create sizeof_interval 4)" 55 70]
    by (simp_all add: sample_array_def)
qed

theorem interval_arrays_correct_witness:
  "(\<exists>tree' dest. interval_tree_intersection_varray (tree_of it_sample) sample_array = Some (tree', dest)
      \<and> same_tree (tree_of it_sample) tree' \<and> \<not> va_fault dest
      \<and> node_offsets (intervals_of dest) = offsets (tree_of it_sample) \<inter> node_offsets (intervals_of sample_array))
    \<and> (\<exists>tree' dest. interval_tree_complement_varray (tree_of it_sample) sample_array = Some (tree', dest)
      \<and> same_tree (tree_of it_sample) tree' \<and> \<not> va_fault dest
      \<and> node_offsets (intervals_of dest) \<inter> offsets (tree_of it_sample) = {}
      \<and> node_offsets (intervals_of dest) \<inter> node_offsets (intervals_of sample_array) =
        node_offsets (intervals_of sample_array) - offsets (tree_of it_sample))"
  by (rule interval_arrays_correct) (simp_all add: it_inv_sample it_nodes_sample sample_array)


section \<open>Saving and loading\<close>

definition nodes_bytes :: "st_node list \<Rightarrow> u8 list" where
  "nodes_bytes ns = concat (map (\<lambda>n. interval_bytes \<lparr>iv_start = fst n, iv_end = snd n\<rparr>) ns)"

definition to_interval :: "st_node \<Rightarrow> interval" where
  "to_interval n = \<lparr>iv_start = fst n, iv_end = snd n\<rparr>"

lemma nodes_bytes_simps [simp]:
  "nodes_bytes [] = []" "nodes_bytes (ns @ ms) = nodes_bytes ns @ nodes_bytes ms"
  "nodes_bytes (n # ns) = interval_bytes (to_interval n) @ nodes_bytes ns"
  by (simp_all add: nodes_bytes_def to_interval_def)

lemma length_interval_bytes [simp]: "length (interval_bytes x) = 16"
  by (simp add: interval_bytes_def)

lemma length_nodes_bytes [simp]: "length (nodes_bytes ns) = 16 * length ns"
  by (induction ns) simp_all

lemma bytes_interval_bytes: "bytes_interval (interval_bytes x @ bs) = x"
  by (simp add: bytes_interval_def interval_bytes_def le_word_le_bytes)

text \<open>A block is far below the range of the counters of a transfer.\<close>

lemma block_bytes: "length ns \<le> INTERVAL_COUNT \<Longrightarrow> length (nodes_bytes ns) < 2 ^ 32"
  by (simp add: INTERVAL_COUNT_def)

lemma bytes_intervals_bytes: "bytes_intervals (length ns) (nodes_bytes ns) = map to_interval ns"
  by (induction ns) (simp_all add: bytes_interval_bytes)

lemma concat_interval_bytes: "concat (map (interval_bytes \<circ> to_interval) ns) = nodes_bytes ns"
  by (induction ns) simp_all

text \<open>
  Writing a subtree: of the bytes of the pending intervals and of the subtree, a prefix has been
  written, and the rest is pending.
\<close>

lemma write_1:
  assumes "no_fail f" "pos f \<le> length (content f)" "length d < INTERVAL_COUNT"
  shows "\<exists>f' d' w. interval_tree_write_1 t f (map to_interval d) = Some (True, f', map to_interval d')
    \<and> no_fail f' \<and> length d' < INTERVAL_COUNT \<and> w @ d' = d @ inorder t
    \<and> pos f' = pos f + length (nodes_bytes w) \<and> pos f' \<le> length (content f')
    \<and> content f' = overwrite (pos f) (nodes_bytes w) (content f)"
  using assms
proof (induction t arbitrary: f d)
  case Leaf
  then show ?case by (auto simp: overwrite_def intro!: exI [of _ d] exI [of _ "[]"])
next
  case (Node l n r)
  obtain f1 d1 w1 where 1: "interval_tree_write_1 l f (map to_interval d) = Some (True, f1, map to_interval d1)" "no_fail f1"
      "length d1 < INTERVAL_COUNT" "w1 @ d1 = d @ inorder l" "pos f1 = pos f + length (nodes_bytes w1)" "pos f1 \<le> length (content f1)"
      "content f1 = overwrite (pos f) (nodes_bytes w1) (content f)"
    using Node.IH(1) [OF Node.prems] by blast
  have buf: "map to_interval d1 @ [\<lparr>iv_start = fst n, iv_end = snd n\<rparr>] = map to_interval (d1 @ [n])"
    by (simp add: to_interval_def)
  show ?case
  proof (cases "length (d1 @ [n]) = INTERVAL_COUNT")
    case False
    then have "length (d1 @ [n]) < INTERVAL_COUNT" using 1(3) by simp
    then obtain f2 d2 w2 where 2: "interval_tree_write_1 r f1 (map to_interval (d1 @ [n])) = Some (True, f2, map to_interval d2)"
        "no_fail f2" "length d2 < INTERVAL_COUNT" "w2 @ d2 = (d1 @ [n]) @ inorder r" "pos f2 = pos f1 + length (nodes_bytes w2)"
        "pos f2 \<le> length (content f2)" "content f2 = overwrite (pos f1) (nodes_bytes w2) (content f1)"
      using Node.IH(2) [OF 1(2,6)] by blast
    have "interval_tree_write_1 (Node l n r) f (map to_interval d) = Some (True, f2, map to_interval d2)"
      using 1(1) 2(1) False unfolding interval_tree_write_1.simps by (simp add: to_interval_def)
    moreover have "content f2 = overwrite (pos f) (nodes_bytes (w1 @ w2)) (content f)"
      using overwrite_append [OF Node.prems(2), of "nodes_bytes w1" "nodes_bytes w2"] 1(5,7) 2(7) by simp
    moreover have "(w1 @ w2) @ d2 = d @ inorder (Node l n r)" using 1(4) 2(4) by (metis append.assoc append_Cons append_Nil inorder.simps(2))
    ultimately show ?thesis
      using 1(5) 2 by (intro exI [of _ f2] exI [of _ d2] exI [of _ "w1 @ w2"]) simp
  next
    case True
    obtain f2 where 2: "full_write (nodes_bytes (d1 @ [n])) f1 = Some (True, f2)" "no_fail f2"
        "pos f2 = pos f1 + length (nodes_bytes (d1 @ [n]))" "content f2 = overwrite (pos f1) (nodes_bytes (d1 @ [n])) (content f1)"
      using full_write_complete [OF 1(2,6), of "nodes_bytes (d1 @ [n])"] block_bytes [of "d1 @ [n]"] 1(3) by auto
    then have pos2: "pos f2 \<le> length (content f2)" using length_overwrite [OF 1(6), of "nodes_bytes (d1 @ [n])"] by simp
    obtain f3 d3 w3 where 3: "interval_tree_write_1 r f2 [] = Some (True, f3, map to_interval d3)"
        "no_fail f3" "length d3 < INTERVAL_COUNT" "w3 @ d3 = inorder r" "pos f3 = pos f2 + length (nodes_bytes w3)"
        "pos f3 \<le> length (content f3)" "content f3 = overwrite (pos f2) (nodes_bytes w3) (content f2)"
      using Node.IH(2) [OF 2(2) pos2, of "[]"] by (auto simp: INTERVAL_COUNT_def)
    let ?w = "w1 @ (d1 @ [n]) @ w3"
    have "interval_tree_write_1 (Node l n r) f (map to_interval d) = Some (True, f3, map to_interval d3)"
      using 1(1) 2(1) 3(1) True unfolding interval_tree_write_1.simps
      by (simp add: buf concat_interval_bytes del: map_append nodes_bytes_simps)
    moreover have "content f3 = overwrite (pos f) (nodes_bytes ?w) (content f)"
      using overwrite_append [OF 1(6), of "nodes_bytes (d1 @ [n])" "nodes_bytes w3"]
        overwrite_append [OF Node.prems(2), of "nodes_bytes w1" "nodes_bytes ((d1 @ [n]) @ w3)"] 1(5,7) 2(3,4) 3(7) by simp
    moreover have "?w @ d3 = d @ inorder (Node l n r)"
      using 1(4) 3(4) by (metis append.assoc append_Cons append_Nil inorder.simps(2))
    ultimately show ?thesis
      using 1(5) 2(3) 3 by (intro exI [of _ f3] exI [of _ d3] exI [of _ ?w]) simp
  qed
qed

lemma interval_tree_write:
  assumes "no_fail f" "pos f \<le> length (content f)"
  shows "\<exists>f'. interval_tree_write tree f = Some (True, f')
    \<and> content f' = overwrite (pos f) (nodes_bytes (it_nodes tree)) (content f)"
proof (cases "sp_root (it_splay tree) = Leaf")
  case True
  then show ?thesis using assms(2) by (simp add: interval_tree_write_def it_nodes_def nodes_def overwrite_def)
next
  case False
  obtain f1 d1 w1 where 1: "interval_tree_write_1 (sp_root (it_splay tree)) f [] = Some (True, f1, map to_interval d1)" "no_fail f1"
      "w1 @ d1 = it_nodes tree" "pos f1 = pos f + length (nodes_bytes w1)" "pos f1 \<le> length (content f1)"
      "content f1 = overwrite (pos f) (nodes_bytes w1) (content f)" "length d1 < INTERVAL_COUNT"
    using write_1 [OF assms, of "[]" "sp_root (it_splay tree)"] by (auto simp: INTERVAL_COUNT_def it_nodes_def nodes_def)
  show ?thesis
  proof (cases "d1 = []")
    case True
    then show ?thesis using False 1 by (simp add: interval_tree_write_def)
  next
    case False': False
    obtain f2 where 2: "full_write (nodes_bytes d1) f1 = Some (True, f2)" "content f2 = overwrite (pos f1) (nodes_bytes d1) (content f1)"
      using full_write_complete [OF 1(2,5) block_bytes [OF less_imp_le [OF 1(7)]]] by auto
    have "interval_tree_write tree f = Some (True, f2)"
      using False False' 1(1) 2(1) concat_interval_bytes [of d1] by (simp add: interval_tree_write_def)
    then show ?thesis
      using overwrite_append [OF assms(2), of "nodes_bytes w1" "nodes_bytes d1"] 1(3,4,6) 2(2)
      by (simp flip: 1(3))
  qed
qed

lemma insert_nodes:
  assumes "it_inv tree" "\<forall>n \<in> set ns. fst n < snd n"
  shows "\<exists>tree'. insert_intervals (map to_interval ns) tree = Some tree' \<and> it_inv tree'
    \<and> offsets tree' = offsets tree \<union> node_offsets ns"
  using assms
proof (induction ns arbitrary: tree)
  case (Cons n ns)
  then have "fst n < snd n" by simp
  from interval_tree_insert [OF Cons.prems(1) this] obtain node t
    where t: "interval_tree_insert (fst n) (snd n) tree = Some (node, t)" "it_inv t" "offsets t = offsets tree \<union> {fst n..<snd n}"
    by (elim exE conjE)
  obtain t' where t': "insert_intervals (map to_interval ns) t = Some t'" "it_inv t'" "offsets t' = offsets t \<union> node_offsets ns"
    using Cons.IH [OF t(2)] Cons.prems(2) by auto
  show ?case using t t' by (simp add: to_interval_def [of n] Un_assoc)
qed simp

lemma interval_tree_read:
  assumes "it_inv tree" "\<forall>n \<in> set ns. fst n < snd n" "length ns < 2 ^ 64"
    and "no_fail f" "slice (pos f) (16 * length ns) (content f) = nodes_bytes ns" "pos f + 16 * length ns \<le> length (content f)"
  shows "\<exists>tree' f'. interval_tree_read tree f (of_nat (length ns)) = Some (True, tree', f') \<and> it_inv tree'
    \<and> offsets tree' = offsets tree \<union> node_offsets ns"
  using assms
proof (induction "length ns" arbitrary: ns tree f rule: less_induct)
  case less
  show ?case
  proof (cases "ns = []")
    case True
    then show ?thesis using less.prems(1) by (subst interval_tree_read.simps) simp
  next
    case False
    let ?k = "min INTERVAL_COUNT (length ns)" and ?n = "of_nat (length ns) :: u64"
    let ?block = "if ?n > of_nat INTERVAL_COUNT then of_nat INTERVAL_COUNT else ?n"
    have k: "0 < ?k" "?k \<le> length ns" using False by (auto simp: INTERVAL_COUNT_def)
    have n: "unat ?n = length ns" "0 < ?n" using less.prems(3) False by (simp_all add: unat_of_nat word_less_nat_alt)
    have count: "unat (of_nat INTERVAL_COUNT :: u64) = INTERVAL_COUNT" by (simp add: INTERVAL_COUNT_def)
    have block: "unat ?block = ?k" by (auto simp: word_less_nat_alt n count)
    have "?block = of_nat ?k" by (auto simp: word_less_nat_alt n(1) count min_def)
    then have rest: "?n - ?block = of_nat (length (drop ?k ns))" using k(2) by (simp add: of_nat_diff)
    have split: "nodes_bytes ns = nodes_bytes (take ?k ns) @ nodes_bytes (drop ?k ns)"
      by (metis append_take_drop_id nodes_bytes_simps(2))
    have "slice (pos f) (16 * ?k) (content f) @ slice (pos f + 16 * ?k) (16 * length (drop ?k ns)) (content f) = nodes_bytes ns"
      using slice_append_slice [of "pos f" "16 * ?k" "content f" "16 * length (drop ?k ns)"] less.prems(5) k(2)
      by (simp add: distrib_left [symmetric])
    moreover have "length (slice (pos f) (16 * ?k) (content f)) = length (nodes_bytes (take ?k ns))"
      using less.prems(6) k(2) by (simp add: length_slice)
    ultimately have slices: "slice (pos f) (16 * ?k) (content f) = nodes_bytes (take ?k ns)"
        "slice (pos f + 16 * ?k) (16 * length (drop ?k ns)) (content f) = nodes_bytes (drop ?k ns)"
      unfolding split by simp_all
    obtain f1 where f1: "full_read (16 * ?k) f = Some (Some (nodes_bytes (take ?k ns)), f1)"
        "pos f1 = pos f + 16 * ?k" "content f1 = content f" "no_fail f1"
      using full_read_complete [OF less.prems(4), of "16 * ?k"] less.prems(6) k(2) slices(1)
        block_bytes [of "take ?k ns"] by auto
    have "\<forall>n \<in> set (take ?k ns). fst n < snd n" "\<forall>n \<in> set (drop ?k ns). fst n < snd n"
      using less.prems(2) by (auto dest: in_set_takeD in_set_dropD)
    then obtain t1 where t1: "insert_intervals (map to_interval (take ?k ns)) tree = Some t1" "it_inv t1"
        "offsets t1 = offsets tree \<union> node_offsets (take ?k ns)"
      using insert_nodes [OF less.prems(1)] by blast
    have step: "interval_tree_read tree f ?n = interval_tree_read t1 f1 (of_nat (length (drop ?k ns)))"
      using f1(1) t1(1) bytes_intervals_bytes [of "take ?k ns"] n(2) k(2)
      by (subst interval_tree_read.simps) (simp add: block rest mult.commute [of _ 16] Let_def del: unat_of_nat)
    have "length (drop ?k ns) < length ns" using k by simp
    moreover have "length (drop ?k ns) < 2 ^ 64" using less.prems(3) by simp
    moreover have "pos f1 + 16 * length (drop ?k ns) \<le> length (content f1)"
      using less.prems(6) f1(2,3) k(2) by simp
    moreover have "slice (pos f1) (16 * length (drop ?k ns)) (content f1) = nodes_bytes (drop ?k ns)"
      using slices(2) f1(2,3) by simp
    ultimately obtain t2 f2 where "interval_tree_read t1 f1 (of_nat (length (drop ?k ns))) = Some (True, t2, f2)" "it_inv t2"
        "offsets t2 = offsets t1 \<union> node_offsets (drop ?k ns)"
      using less.hyps [OF _ t1(2) \<open>\<forall>n \<in> set (drop ?k ns). fst n < snd n\<close> _ f1(4)] by blast
    moreover have "node_offsets ns = node_offsets (take ?k ns) \<union> node_offsets (drop ?k ns)"
      by (metis append_take_drop_id node_offsets_simps(3))
    ultimately show ?thesis using step t1(3) by (simp add: Un_assoc)
  qed
qed

lemma it_size_nodes:
  assumes "it_inv tree" "length (it_nodes tree) < 2 ^ 32"
  shows "ucast (it_size tree) = (of_nat (length (it_nodes tree)) :: u64)"
proof -
  have "distinct (map fst (it_nodes tree))" using ordered_distinct it_nodes(1) [OF assms(1)] .
  then have "card (dom (it_map tree)) = length (it_nodes tree)"
    unfolding it_nodes(2) [OF assms(1), symmetric] dom_map_of_conv_image_fst
    by (metis distinct_card length_map set_map)
  then have "unat (it_size tree) = length (it_nodes tree)"
    using assms by (simp add: it_inv_def it_count_def unat_of_nat)
  then show ?thesis
    using assms(2) unat_ucast_32_64 [of "it_size tree"] by (simp add: word_unat_eq_iff unat_of_nat)
qed

lemma slice_overwrite: "p \<le> length bs \<Longrightarrow> slice p (length xs) (overwrite p xs bs) = xs"
  by (simp add: slice_def overwrite_def blit_def min_def)

text \<open>
  C18. Saving and loading an interval tree. Writing the tree to a file succeeds when the kernel reports no error, whatever
  short transfers and interrupts there are. Reading as many intervals as the field \<^verbatim>\<open>size\<close> says from the same position
  of a file with the same content into a new tree succeeds as well and gives the same set of offsets.
\<close>

theorem interval_tree_roundtrip:
  assumes "it_inv tree" "length (it_nodes tree) < 2 ^ 32" "no_fail f" "pos f \<le> length (content f)"
  shows "\<exists>f'. interval_tree_write tree f = Some (True, f')
    \<and> (\<forall>g. content g = content f' \<and> pos g = pos f \<and> no_fail g \<longrightarrow>
        (\<exists>tree' g'. interval_tree_read (interval_tree_create n) g (ucast (it_size tree)) = Some (True, tree', g')
          \<and> it_inv tree' \<and> offsets tree' = offsets tree))"
proof -
  let ?ns = "it_nodes tree"
  obtain f' where f': "interval_tree_write tree f = Some (True, f')" "content f' = overwrite (pos f) (nodes_bytes ?ns) (content f)"
    using interval_tree_write [OF assms(3,4)] by blast
  have "\<exists>tree' g'. interval_tree_read (interval_tree_create n) g (ucast (it_size tree)) = Some (True, tree', g')
      \<and> it_inv tree' \<and> offsets tree' = offsets tree" if g: "content g = content f'" "pos g = pos f" "no_fail g" for g
  proof -
    have "slice (pos g) (16 * length ?ns) (content g) = nodes_bytes ?ns"
      using slice_overwrite [OF assms(4), of "nodes_bytes ?ns"] g f'(2) by simp
    moreover have "pos g + 16 * length ?ns \<le> length (content g)"
      using length_overwrite [OF assms(4), of "nodes_bytes ?ns"] g f'(2) by simp
    moreover have "length ?ns < 2 ^ 64" using assms(2) by simp
    ultimately show ?thesis
      using interval_tree_read [OF it_inv_create(1) it_nodes(4) [OF assms(1)] _ g(3), of n]
        it_size_nodes [OF assms(1,2)] it_nodes(3) [OF assms(1)] by simp
  qed
  then show ?thesis using f'(1) by blast
qed

theorem interval_tree_roundtrip_witness:
  "\<exists>f'. interval_tree_write (tree_of it_sample) (sample_file\<lparr>pos := 5\<rparr>) = Some (True, f')
    \<and> (\<forall>g. content g = content f' \<and> pos g = pos (sample_file\<lparr>pos := 5\<rparr>) \<and> no_fail g \<longrightarrow>
        (\<exists>tree' g'. interval_tree_read (interval_tree_create 6) g (ucast (it_size (tree_of it_sample))) = Some (True, tree', g')
          \<and> it_inv tree' \<and> offsets tree' = offsets (tree_of it_sample)))"
  by (rule interval_tree_roundtrip) (simp_all add: it_inv_sample it_nodes_sample sample_file_def no_fail_def)

end
