(* ===== verification/Alloc_Pool.thy ===== *)
theory Alloc_Pool
  imports Zfs_Prelude
begin

text \<open>
  The memory pools of \<^verbatim>\<open>src/zfsd/lib/alloc-pool/alloc-pool.c\<close>: elements of one size are cut from
  blocks and kept in a list of free elements. A pointer is the number of a block of the pool and an
  offset in it. The pool is shown never to hand out an element twice, to keep the elements inside
  their blocks and apart from each other, and to count them.
\<close>


section \<open>The pool\<close>

type_synonym ptr = "nat \<times> u64"

text \<open>The size of a pointer, and of the structure that links free elements.\<close>

definition sizeof_alloc_pool_list :: u64 where
  "sizeof_alloc_pool_list = 8"

definition align_four :: "u64 \<Rightarrow> u64" where
  "align_four x = push_bit 2 (drop_bit 2 (x + 3))"

definition align_eight :: "u64 \<Rightarrow> u64" where
  "align_eight x = push_bit 3 (drop_bit 3 (x + 7))"

record alloc_pool =
  elts_per_block :: u64
  free_list :: "ptr list"
  elts_allocated :: u64
  elts_free :: u64
  blocks_allocated :: u64
  block_list :: "nat list"
  block_size :: u64
  elt_size :: u64

definition create_alloc_pool :: "u64 \<Rightarrow> u64 \<Rightarrow> alloc_pool" where
  "create_alloc_pool sz n =
     (let sz = (if sz < sizeof_alloc_pool_list then sizeof_alloc_pool_list else sz);
          sz = align_four sz;
          header_size = align_eight sizeof_alloc_pool_list
      in \<lparr>elts_per_block = n, free_list = [], elts_allocated = 0, elts_free = 0, blocks_allocated = 0,
          block_list = [], block_size = sz * n + header_size, elt_size = sz\<rparr>)"

text \<open>The pieces of a block are put onto the list of free elements one after the other.\<close>

fun carve :: "nat \<Rightarrow> nat \<Rightarrow> u64 \<Rightarrow> u64 \<Rightarrow> ptr list \<Rightarrow> ptr list" where
  "carve 0 block offs sz free = free"
| "carve (Suc i) block offs sz free = carve i block (offs + sz) sz ((block, offs) # free)"

definition new_block :: "alloc_pool \<Rightarrow> alloc_pool" where
  "new_block pool =
     (let block = length (block_list pool)
      in pool\<lparr>block_list := block # block_list pool,
              free_list := carve (unat (elts_per_block pool)) block (align_eight sizeof_alloc_pool_list) (elt_size pool) (free_list pool),
              elts_allocated := elts_allocated pool + elts_per_block pool,
              elts_free := elts_free pool + elts_per_block pool,
              blocks_allocated := blocks_allocated pool + 1\<rparr>)"

text \<open>A pool of blocks without elements has nothing to return: the code reads a null pointer.\<close>

definition pool_alloc :: "alloc_pool \<Rightarrow> (ptr \<times> alloc_pool) option" where
  "pool_alloc pool =
     (let pool = (if free_list pool = [] then new_block pool else pool)
      in case free_list pool of
           [] \<Rightarrow> None
         | header # rest \<Rightarrow> Some (header, pool\<lparr>free_list := rest, elts_free := elts_free pool - 1\<rparr>))"

definition pool_free :: "alloc_pool \<Rightarrow> ptr \<Rightarrow> alloc_pool" where
  "pool_free pool p = pool\<lparr>free_list := p # free_list pool, elts_free := elts_free pool + 1\<rparr>"

text \<open>The blocks that are returned to the system.\<close>

definition free_alloc_pool :: "alloc_pool \<Rightarrow> nat list" where
  "free_alloc_pool pool = block_list pool"


section \<open>Elements\<close>

text \<open>The elements of the first \<open>b\<close> blocks.\<close>

definition elements :: "nat \<Rightarrow> nat \<Rightarrow> u64 \<Rightarrow> ptr set" where
  "elements b n sz = {(i, 8 + of_nat k * sz) | i k. i < b \<and> k < n}"

lemma header_size: "align_eight sizeof_alloc_pool_list = 8"
  by (simp add: align_eight_def sizeof_alloc_pool_list_def)

lemma elt_size: 
  assumes "unat sz \<le> 2 ^ 32"
  shows "unat sz \<le> unat (elt_size (create_alloc_pool sz n))" "8 \<le> unat (elt_size (create_alloc_pool sz n))"
    "unat (elt_size (create_alloc_pool sz n)) \<le> max 8 (unat sz) + 3"
proof -
  have al: "unat x \<le> unat (align_four x) \<and> unat (align_four x) \<le> unat x + 3" if "unat x \<le> 2 ^ 33" for x
  proof -
    have a: "unat (x + 3) = unat x + 3" using that by (simp add: unat_word_ariths)
    have "unat (align_four x) = (unat x + 3) div 4 * 4"
      using that a by (simp add: align_four_def push_bit_eq_mult drop_bit_eq_div unat_word_ariths unat_div)
    then show ?thesis by simp
  qed
  define s where "s = (if sz < sizeof_alloc_pool_list then sizeof_alloc_pool_list else sz)"
  have s: "unat s = max 8 (unat sz)" by (auto simp: s_def sizeof_alloc_pool_list_def word_less_nat_alt)
  have e: "elt_size (create_alloc_pool sz n) = align_four s" by (simp add: create_alloc_pool_def Let_def s_def)
  have "max 8 (unat sz) \<le> 2 ^ 33" using assms by simp
  then have "unat s \<le> unat (align_four s)" "unat (align_four s) \<le> unat s + 3" using al [of s] unfolding s by blast+
  note bounds = this
  have "8 \<le> unat s" "unat sz \<le> unat s" unfolding s by simp_all
  then show "unat sz \<le> unat (elt_size (create_alloc_pool sz n))" "8 \<le> unat (elt_size (create_alloc_pool sz n))"
    unfolding e using bounds(1) by (metis order_trans)+
  show "unat (elt_size (create_alloc_pool sz n)) \<le> max 8 (unat sz) + 3"
    unfolding e using bounds(2) s by metis
qed

lemma carve: "carve n b offs sz free = rev (map (\<lambda>k. (b, offs + of_nat k * sz)) [0..<n]) @ free"
proof (induction n b offs sz free rule: carve.induct)
  case (2 i b offs sz free)
  have "map (\<lambda>k. (b, offs + of_nat k * sz)) [0..<Suc i] = (b, offs) # map (\<lambda>k. (b, offs + sz + of_nat k * sz)) [0..<i]"
    by (simp add: upt_conv_Cons map_Suc_upt [symmetric] comp_def algebra_simps del: upt_Suc)
  then show ?case using 2 by simp
qed simp

text \<open>A block is large enough for its elements: their offsets do not wrap around.\<close>

definition pool_fits :: "alloc_pool \<Rightarrow> bool" where
  "pool_fits pool \<longleftrightarrow> 8 \<le> unat (elt_size pool) \<and> unat (elts_per_block pool) * unat (elt_size pool) + 8 < 2 ^ 64 \<and>
     unat (block_size pool) = unat (elts_per_block pool) * unat (elt_size pool) + 8"

lemma offset:
  assumes "k < n" "n * unat sz + 8 < 2 ^ 64"
  shows "unat (8 + of_nat k * sz :: u64) = 8 + k * unat sz"
proof -
  have "k * unat sz \<le> n * unat sz" using assms(1) by simp
  then have "8 + k * unat sz < 2 ^ 64" using assms(2) by linarith
  moreover have "(8 + of_nat k * sz :: u64) = of_nat (8 + k * unat sz)" by simp
  ultimately show ?thesis by (simp only: unat_of_nat) simp
qed


section \<open>Invariant\<close>

text \<open>The free elements and those in use are the elements of the blocks, and they are counted.\<close>

definition pool_inv :: "alloc_pool \<Rightarrow> ptr set \<Rightarrow> bool" where
  "pool_inv pool used \<longleftrightarrow> pool_fits pool \<and> 0 < elts_per_block pool \<and> finite used \<and>
     distinct (free_list pool) \<and> set (free_list pool) \<inter> used = {} \<and>
     set (free_list pool) \<union> used = elements (length (block_list pool)) (unat (elts_per_block pool)) (elt_size pool) \<and>
     elts_free pool = of_nat (length (free_list pool)) \<and>
     elts_allocated pool = of_nat (card used + length (free_list pool)) \<and>
     blocks_allocated pool = of_nat (length (block_list pool)) \<and> distinct (block_list pool) \<and> set (block_list pool) = {..<length (block_list pool)}"

lemma elements_Suc: "elements (Suc b) n sz = (\<lambda>k. (b, 8 + of_nat k * sz)) ` {..<n} \<union> elements b n sz"
  by (auto simp: elements_def less_Suc_eq)

lemma new_block_inv:
  assumes inv: "pool_inv pool used"
  shows "pool_inv (new_block pool) used" "free_list (new_block pool) \<noteq> []"
proof -
  let ?n = "unat (elts_per_block pool)" and ?b = "length (block_list pool)" and ?sz = "elt_size pool"
  let ?new = "map (\<lambda>k. (?b, 8 + of_nat k * ?sz)) [0..<?n]"
  have fits: "8 \<le> unat ?sz" "?n * unat ?sz + 8 < 2 ^ 64" and n: "0 < ?n"
    using inv by (auto simp: pool_inv_def pool_fits_def word_less_nat_alt)
  have free: "free_list (new_block pool) = rev ?new @ free_list pool"
    by (simp add: new_block_def Let_def carve header_size)
  have "inj_on (\<lambda>k. (?b, 8 + of_nat k * ?sz)) {..<?n}"
  proof (rule inj_onI)
    fix k l assume "k \<in> {..<?n}" "l \<in> {..<?n}" "(?b, 8 + of_nat k * ?sz) = (?b, 8 + of_nat l * ?sz)"
    then have "8 + k * unat ?sz = 8 + l * unat ?sz" using offset [OF _ fits(2)] by (metis Pair_inject lessThan_iff)
    then show "k = l" using fits(1) by simp
  qed
  then have "distinct ?new" by (simp add: distinct_map atLeast0LessThan)
  moreover have old: "set (free_list pool) \<union> used = elements ?b ?n ?sz" and parts: "set (free_list pool) \<inter> used = {}" "distinct (free_list pool)"
    using inv by (simp_all add: pool_inv_def)
  moreover have other: "set ?new \<inter> elements ?b ?n ?sz = {}" by (auto simp: elements_def)
  ultimately have "distinct (rev ?new @ free_list pool)" "set (rev ?new @ free_list pool) \<inter> used = {}" by auto
  moreover have "set (rev ?new @ free_list pool) \<union> used = elements (Suc ?b) ?n ?sz"
    using old by (simp add: elements_Suc atLeast0LessThan Un_assoc)
  moreover have "length (rev ?new @ free_list pool) = ?n + length (free_list pool)" by simp
  moreover have "{..<Suc ?b} = insert ?b {..<?b}" by auto
  ultimately show "pool_inv (new_block pool) used"
    using inv free by (simp add: pool_inv_def pool_fits_def new_block_def Let_def carve header_size add.commute)
  show "free_list (new_block pool) \<noteq> []" using free n by simp
qed

text \<open>An allocation succeeds with an element that is not in use.\<close>

lemma pool_alloc_inv:
  assumes "pool_inv pool used"
  shows "\<exists>p pool'. pool_alloc pool = Some (p, pool') \<and> p \<notin> used \<and> pool_inv pool' (insert p used)"
proof -
  define pool1 where "pool1 = (if free_list pool = [] then new_block pool else pool)"
  have inv: "pool_inv pool1 used" "free_list pool1 \<noteq> []" using new_block_inv [OF assms] assms by (auto simp: pool1_def)
  then obtain p rest where p: "free_list pool1 = p # rest" by (cases "free_list pool1") auto
  have alloc: "pool_alloc pool = Some (p, pool1\<lparr>free_list := rest, elts_free := elts_free pool1 - 1\<rparr>)"
    using p unfolding pool_alloc_def pool1_def [symmetric] Let_def by simp
  have free: "distinct (p # rest)" "set (p # rest) \<inter> used = {}" "finite used"
      "set (p # rest) \<union> used = elements (length (block_list pool1)) (unat (elts_per_block pool1)) (elt_size pool1)"
    using inv(1) p by (simp_all add: pool_inv_def)
  have "set rest \<inter> insert p used = {}" "card (insert p used) = Suc (card used)" using free(1-3) by auto
  moreover have "set rest \<union> insert p used = set (p # rest) \<union> used" by simp
  ultimately have "pool_inv (pool1\<lparr>free_list := rest, elts_free := elts_free pool1 - 1\<rparr>) (insert p used)"
    using inv(1) p free by (simp add: pool_inv_def pool_fits_def)
  moreover have "p \<notin> used" using free(2) by simp
  ultimately show ?thesis using alloc by blast
qed

lemma pool_free_inv:
  assumes "pool_inv pool used" "p \<in> used"
  shows "pool_inv (pool_free pool p) (used - {p})"
proof -
  have "finite used" using assms(1) by (simp add: pool_inv_def)
  then obtain c where "card (used - {p}) = c" "card used = Suc c" using card.remove [OF _ assms(2)] by blast
  moreover have "set (p # free_list pool) \<inter> (used - {p}) = {}" "distinct (p # free_list pool)"
    using assms by (auto simp: pool_inv_def)
  moreover have "set (p # free_list pool) \<union> (used - {p}) = set (free_list pool) \<union> used" using assms(2) by auto
  ultimately show ?thesis using assms(1) by (simp add: pool_inv_def pool_fits_def pool_free_def)
qed

lemma create_alloc_pool_inv:
  assumes "unat sz \<le> 2 ^ 32" "0 < n" "unat n \<le> 2 ^ 30"
  shows "pool_inv (create_alloc_pool sz n) {}"
proof -
  let ?pool = "create_alloc_pool sz n"
  have e: "8 \<le> unat (elt_size ?pool)" "unat (elt_size ?pool) \<le> 2 ^ 33" using elt_size [OF assms(1), of n] assms(1) by auto
  have "unat n * unat (elt_size ?pool) \<le> 2 ^ 30 * 2 ^ 33" by (rule mult_le_mono [OF assms(3) e(2)])
  then have small: "unat n * unat (elt_size ?pool) + 8 < 2 ^ 64" by simp
  have "block_size ?pool = elt_size ?pool * n + 8" by (simp add: create_alloc_pool_def Let_def header_size)
  then have "unat (block_size ?pool) = unat n * unat (elt_size ?pool) + 8"
    using small by (simp add: unat_word_ariths mult.commute)
  moreover have "elts_per_block ?pool = n" "free_list ?pool = []" "elts_free ?pool = 0" "elts_allocated ?pool = 0"
      "blocks_allocated ?pool = 0" "block_list ?pool = []"
    by (simp_all add: create_alloc_pool_def Let_def)
  ultimately show ?thesis using e small assms(2) by (simp add: pool_inv_def pool_fits_def elements_def)
qed


section \<open>The clients of a pool\<close>

text \<open>The elements that the clients have, under any sequence of allocations and releases.\<close>

inductive pool_step :: "alloc_pool \<times> ptr set \<Rightarrow> alloc_pool \<times> ptr set \<Rightarrow> bool" where
  alloc: "pool_alloc pool = Some (p, pool') \<Longrightarrow> pool_step (pool, used) (pool', insert p used)"
| free: "p \<in> used \<Longrightarrow> pool_step (pool, used) (pool_free pool p, used - {p})"

inductive_cases pool_stepE: "pool_step (pool, used) s"

lemma pool_step_inv:
  assumes "pool_step s s'" "pool_inv (fst s) (snd s)"
  shows "pool_inv (fst s') (snd s')"
  using assms
proof (induction rule: pool_step.induct)
  case (alloc pool p pool' used)
  then show ?case using pool_alloc_inv [of pool used] by auto
next
  case (free p used pool)
  then show ?case using pool_free_inv by auto
qed

lemma pool_steps_inv:
  assumes "pool_step\<^sup>*\<^sup>* s s'" "pool_inv (fst s) (snd s)"
  shows "pool_inv (fst s') (snd s')"
  using assms by (induction rule: rtranclp_induct) (auto intro: pool_step_inv)

lemma pool_step_shape:
  assumes "pool_step\<^sup>*\<^sup>* s s'"
  shows "elt_size (fst s') = elt_size (fst s) \<and> elts_per_block (fst s') = elts_per_block (fst s) \<and> block_size (fst s') = block_size (fst s)"
  using assms
proof (induction rule: rtranclp_induct)
  case (step s' s'')
  from step(2) have "elt_size (fst s'') = elt_size (fst s') \<and> elts_per_block (fst s'') = elts_per_block (fst s') \<and> block_size (fst s'') = block_size (fst s')"
    by cases (auto simp: pool_alloc_def pool_free_def new_block_def Let_def split: if_splits list.splits)
  then show ?case using step(3) by simp
qed simp

text \<open>Two elements are in different blocks or one is behind the other.\<close>

lemma elements_apart:
  assumes fits: "pool_fits pool" and pq: "p \<in> elements b (unat (elts_per_block pool)) (elt_size pool)"
      "q \<in> elements b (unat (elts_per_block pool)) (elt_size pool)" "p \<noteq> q"
  shows "fst p \<noteq> fst q \<or> unat (snd p) + unat (elt_size pool) \<le> unat (snd q) \<or> unat (snd q) + unat (elt_size pool) \<le> unat (snd p)"
proof -
  let ?n = "unat (elts_per_block pool)" and ?sz = "elt_size pool"
  have n: "?n * unat ?sz + 8 < 2 ^ 64" using fits by (simp add: pool_fits_def)
  obtain i k j l where p: "p = (i, 8 + of_nat k * ?sz)" "k < ?n" and q: "q = (j, 8 + of_nat l * ?sz)" "l < ?n"
    using pq(1,2) by (auto simp: elements_def)
  have off: "unat (snd p) = 8 + k * unat ?sz" "unat (snd q) = 8 + l * unat ?sz" using p q offset [OF _ n] by auto
  have step: "x * unat ?sz + unat ?sz \<le> y * unat ?sz" if "x < y" for x y
  proof -
    have "Suc x * unat ?sz \<le> y * unat ?sz" using that by (intro mult_le_mono1) simp
    then show ?thesis by simp
  qed
  show ?thesis
  proof (cases "k = l")
    case True
    then show ?thesis using p q pq(3) by auto
  next
    case False
    then have "k < l \<or> l < k" by auto
    then show ?thesis using off step [of k l] step [of l k] by auto
  qed
qed

lemma elements_inside:
  assumes fits: "pool_fits pool" and p: "p \<in> elements b (unat (elts_per_block pool)) (elt_size pool)"
  shows "fst p < b" "8 \<le> unat (snd p)" "unat (snd p) + unat (elt_size pool) \<le> unat (block_size pool)"
proof -
  let ?n = "unat (elts_per_block pool)" and ?sz = "elt_size pool"
  have n: "?n * unat ?sz + 8 < 2 ^ 64" "unat (block_size pool) = ?n * unat ?sz + 8" using fits by (simp_all add: pool_fits_def)
  obtain i k where k: "p = (i, 8 + of_nat k * ?sz)" "k < ?n" "i < b" using p by (auto simp: elements_def)
  have off: "unat (snd p) = 8 + k * unat ?sz" using k offset [OF _ n(1)] by simp
  have "Suc k * unat ?sz \<le> ?n * unat ?sz" using k(2) by (intro mult_le_mono1) simp
  then show "fst p < b" "8 \<le> unat (snd p)" "unat (snd p) + unat ?sz \<le> unat (block_size pool)" using k off n(2) by simp_all
qed

lemma card_elements:
  assumes "pool_fits pool"
  shows "card (elements b (unat (elts_per_block pool)) (elt_size pool)) = b * unat (elts_per_block pool)"
proof -
  let ?n = "unat (elts_per_block pool)" and ?sz = "elt_size pool"
  let ?f = "\<lambda>(i, k). (i :: nat, 8 + of_nat k * ?sz)"
  have fits: "8 \<le> unat ?sz" "?n * unat ?sz + 8 < 2 ^ 64" using assms by (simp_all add: pool_fits_def)
  have "inj_on ?f ({..<b} \<times> {..<?n})"
  proof (rule inj_onI)
    fix x y assume x: "x \<in> {..<b} \<times> {..<?n}" and y: "y \<in> {..<b} \<times> {..<?n}" and eq: "?f x = ?f y"
    then have "snd x < ?n" "snd y < ?n" "fst x = fst y" and e: "8 + of_nat (snd x) * ?sz = 8 + of_nat (snd y) * ?sz"
      by (auto simp: case_prod_beta)
    then have "8 + snd x * unat ?sz = 8 + snd y * unat ?sz" using offset [OF _ fits(2)] by metis
    then show "x = y" using fits(1) \<open>fst x = fst y\<close> by (simp add: prod_eq_iff)
  qed
  moreover have "elements b ?n ?sz = ?f ` ({..<b} \<times> {..<?n})" by (auto simp: elements_def image_def)
  ultimately show ?thesis by (simp add: card_image)
qed


section \<open>Properties\<close>

text \<open>C28. Whatever a client allocates and releases, the elements it has are inside their blocks, are large
  enough and do not overlap each other or the header of the block, and the next allocation succeeds
  with an element that is not in use.\<close>
theorem pool_safe:
  assumes "pool_step\<^sup>*\<^sup>* (create_alloc_pool sz n, {}) (pool, used)"
    and "unat sz \<le> 2 ^ 32" and "0 < n" and "unat n \<le> 2 ^ 30"
  shows "(\<exists>p pool'. pool_alloc pool = Some (p, pool') \<and> p \<notin> used) \<and> unat sz \<le> unat (elt_size pool) \<and>
    (\<forall>p \<in> used. fst p \<in> set (block_list pool) \<and> 8 \<le> unat (snd p) \<and> unat (snd p) + unat (elt_size pool) \<le> unat (block_size pool)) \<and>
    (\<forall>p \<in> used. \<forall>q \<in> used. p \<noteq> q \<longrightarrow>
      fst p \<noteq> fst q \<or> unat (snd p) + unat (elt_size pool) \<le> unat (snd q) \<or> unat (snd q) + unat (elt_size pool) \<le> unat (snd p))"
proof -
  have inv: "pool_inv pool used"
    using pool_steps_inv [OF assms(1)] create_alloc_pool_inv [OF assms(2-4)] by simp
  then have fits: "pool_fits pool" and blocks: "set (block_list pool) = {..<length (block_list pool)}"
    and used: "used \<subseteq> elements (length (block_list pool)) (unat (elts_per_block pool)) (elt_size pool)"
    by (auto simp: pool_inv_def)
  have "unat sz \<le> unat (elt_size pool)" using pool_step_shape [OF assms(1)] elt_size(1) [OF assms(2), of n] by simp
  moreover have "\<exists>p pool'. pool_alloc pool = Some (p, pool') \<and> p \<notin> used" using pool_alloc_inv [OF inv] by blast
  moreover have "fst p \<in> set (block_list pool) \<and> 8 \<le> unat (snd p) \<and> unat (snd p) + unat (elt_size pool) \<le> unat (block_size pool)"
    if "p \<in> used" for p
    using elements_inside [OF fits] used that blocks by blast
  moreover have "fst p \<noteq> fst q \<or> unat (snd p) + unat (elt_size pool) \<le> unat (snd q) \<or> unat (snd q) + unat (elt_size pool) \<le> unat (snd p)"
    if "p \<in> used" "q \<in> used" "p \<noteq> q" for p q
    using elements_apart [OF fits _ _ that(3)] used that by blast
  ultimately show ?thesis by blast
qed

theorem pool_safe_witness:
  "\<exists>p pool q pool'. pool_alloc (create_alloc_pool 24 2) = Some (p, pool) \<and> p = (0, 32) \<and>
     pool_alloc pool = Some (q, pool') \<and> q \<noteq> p"
proof -
  have alloc: "pool_alloc (create_alloc_pool 24 2) =
      Some ((0, 32), (new_block (create_alloc_pool 24 2))\<lparr>free_list := [(0, 8)], elts_free := 1\<rparr>)" (is "_ = Some (_, ?pool)")
    by code_simp
  have "pool_step\<^sup>*\<^sup>* (create_alloc_pool 24 2, {}) (?pool, {(0, 32)})" using pool_step.alloc [OF alloc, of "{}"] by simp
  then have "\<exists>q pool'. pool_alloc ?pool = Some (q, pool') \<and> q \<notin> {(0, 32)}" using pool_safe [of 24 2 ?pool "{(0, 32)}"] by simp
  then show ?thesis using alloc by blast
qed

text \<open>C29. The counters of a pool are right: the elements allocated are those free and those in use, and the
  blocks returned to the system when the pool is freed are all its blocks, each once.\<close>
theorem pool_counts:
  assumes "pool_step\<^sup>*\<^sup>* (create_alloc_pool sz n, {}) (pool, used)"
    and "unat sz \<le> 2 ^ 32" and "0 < n" and "unat n \<le> 2 ^ 30"
  shows "elts_free pool = of_nat (length (free_list pool)) \<and> elts_allocated pool - elts_free pool = of_nat (card used) \<and>
    blocks_allocated pool = of_nat (length (free_alloc_pool pool)) \<and> distinct (free_alloc_pool pool) \<and>
    elts_allocated pool = blocks_allocated pool * n"
proof -
  have inv: "pool_inv pool used"
    using pool_steps_inv [OF assms(1)] create_alloc_pool_inv [OF assms(2-4)] by simp
  have n: "elts_per_block pool = n" using pool_step_shape [OF assms(1)] by (simp add: create_alloc_pool_def Let_def)
  have "card used + length (free_list pool) = card (set (free_list pool) \<union> used)"
    using inv card_Un_disjoint [of "set (free_list pool)" used] distinct_card [of "free_list pool"] by (simp only: pool_inv_def) simp
  also have "\<dots> = length (block_list pool) * unat n"
    using inv card_elements [of pool "length (block_list pool)"] n by (simp add: pool_inv_def)
  finally have "elts_allocated pool = of_nat (length (block_list pool) * unat n)" using inv by (simp add: pool_inv_def)
  then show ?thesis using inv by (simp add: pool_inv_def free_alloc_pool_def)
qed

theorem pool_counts_witness:
  "\<exists>p pool. pool_alloc (create_alloc_pool 24 2) = Some (p, pool) \<and> elts_allocated pool - elts_free pool = 1 \<and> elts_allocated pool = blocks_allocated pool * 2"
proof -
  have "pool_inv (create_alloc_pool 24 2) {}" by (rule create_alloc_pool_inv) simp_all
  then obtain p pool where alloc: "pool_alloc (create_alloc_pool 24 2) = Some (p, pool)" using pool_alloc_inv by blast
  then have st: "pool_step\<^sup>*\<^sup>* (create_alloc_pool 24 2, {}) (pool, {p})" using pool_step.alloc [OF alloc, of "{}"] by simp
  have "unat (24 :: u64) \<le> 2 ^ 32" "0 < (2 :: u64)" "unat (2 :: u64) \<le> 2 ^ 30" by simp_all
  from pool_counts [OF st this] have "elts_allocated pool - elts_free pool = of_nat (card {p})" "elts_allocated pool = blocks_allocated pool * 2"
    by blast+
  then show ?thesis using alloc by (intro exI [of _ p] exI [of _ pool] conjI) simp_all
qed

end
