(* ===== verification/Data_Refinement.thy ===== *)
theory Data_Refinement
  imports Main
begin

text \<open>
  The contract of a data structure that is used through a sequence of operations. Each operation may
  abort (\<^term>\<open>None\<close>); an admissible one is promised to succeed while a resource of the structure lasts, and to keep the
  structure a representation of the abstract value that the specification computes.
\<close>

fun run_ops :: "('o \<Rightarrow> 's \<Rightarrow> 's option) \<Rightarrow> 'o list \<Rightarrow> 's \<Rightarrow> 's option" where
  "run_ops step [] s = Some s"
| "run_ops step (op # ops) s = Option.bind (step op s) (run_ops step ops)"

lemma run_ops_append: "run_ops step (ops @ ops') s = Option.bind (run_ops step ops s) (run_ops step ops')"
  by (induction step ops s rule: run_ops.induct) (auto split: bind_splits)

locale data_refinement =
  fixes step :: "'o \<Rightarrow> 's \<Rightarrow> 's option" and spec :: "'o \<Rightarrow> 'v \<Rightarrow> 'v"
    and admissible :: "'o \<Rightarrow> bool" and rep :: "'s \<Rightarrow> 'v \<Rightarrow> bool" and used :: "'s \<Rightarrow> 'v \<Rightarrow> nat" and capacity :: nat
  assumes refines: "rep s v \<Longrightarrow> admissible op \<Longrightarrow> used s v < capacity \<Longrightarrow>
    \<exists>s'. step op s = Some s' \<and> rep s' (spec op v) \<and> used s' (spec op v) \<le> Suc (used s v)"
begin

lemma run_refines:
  assumes "rep s v" "\<forall>op \<in> set ops. admissible op" "used s v + length ops \<le> capacity"
  shows "\<exists>s'. run_ops step ops s = Some s' \<and> rep s' (fold spec ops v) \<and> used s' (fold spec ops v) \<le> used s v + length ops"
  using assms
proof (induction ops arbitrary: s v)
  case (Cons op ops)
  then obtain s1 where s1: "step op s = Some s1" "rep s1 (spec op v)" "used s1 (spec op v) \<le> Suc (used s v)"
    using refines [of s v op] by auto
  then have "used s1 (spec op v) + length ops \<le> capacity" using Cons.prems(3) by simp
  from Cons.IH [OF s1(2) _ this] show ?case using s1 Cons.prems(2) by fastforce
qed simp

end

end
