(* ===== verification/Queue.thy ===== *)
theory Queue
  imports Alloc_Pool Data_Refinement
begin

text \<open>
  The queues of \<^verbatim>\<open>src/zfsd/lib/queue/queue.c\<close> that pass requests to the threads of a thread pool. The nodes
  are allocated from a memory pool and linked; a thread that finds the queue empty waits for the condition
  variable and looks again when it is woken up. The queue is shown to deliver every element once
  and in order, whatever the interleaving of the threads. The nodes of delivered elements are shown to
  stay allocated.
\<close>


section \<open>The queue\<close>

record queue_node =
  qn_next :: "ptr option"
  qn_data :: "u8 list"

record queue =
  q_pool :: alloc_pool
  q_nelem :: u32
  q_size :: u32
  q_first :: "ptr option"
  q_last :: "ptr option"
  q_exiting :: bool
  q_mem :: "ptr \<rightharpoonup> queue_node"

definition queue_create :: "u64 \<Rightarrow> u64 \<Rightarrow> queue" where
  "queue_create sz n =
     \<lparr>q_pool = create_alloc_pool (8 + sz) n, q_nelem = 0, q_size = ucast sz, q_first = None, q_last = None,
      q_exiting = False, q_mem = Map.empty\<rparr>"

text \<open>The blocks that destroying the queue returns to the system.\<close>

definition queue_destroy :: "queue \<Rightarrow> nat list \<times> queue" where
  "queue_destroy q = (free_alloc_pool (q_pool q), q\<lparr>q_size := 0\<rparr>)"

text \<open>An access to an address that is no node is the error \<^term>\<open>None\<close>. An element that is put has at least \<^verbatim>\<open>size\<close> bytes, of
  which \<^verbatim>\<open>memcpy\<close> copies the first \<^verbatim>\<open>size\<close>; the signal to a waiting thread is the step \<open>wakeup\<close> of the interleavings below.\<close>

definition queue_put :: "u8 list \<Rightarrow> queue \<Rightarrow> queue option" where
  "queue_put elem q =
     Option.bind (pool_alloc (q_pool q))
       (\<lambda>(node, pool).
          let q = q\<lparr>q_pool := pool, q_mem := (q_mem q)(node \<mapsto> \<lparr>qn_next = None, qn_data = take (unat (q_size q)) elem\<rparr>)\<rparr>
          in map_option (\<lambda>q. q\<lparr>q_nelem := q_nelem q + 1\<rparr>)
               (case q_last q of
                  Some l \<Rightarrow>
                    map_option (\<lambda>n. q\<lparr>q_mem := (q_mem q)(l \<mapsto> n\<lparr>qn_next := Some node\<rparr>), q_last := Some node\<rparr>) (q_mem q l)
                | None \<Rightarrow> Some (q\<lparr>q_first := Some node, q_last := Some node\<rparr>)))"

text \<open>A thread that asks for an element waits, is told that the program exits, or gets the element.\<close>

datatype get_result = Waits | Exits | Got "u8 list"

definition queue_take :: "queue \<Rightarrow> (get_result \<times> queue) option" where
  "queue_take q =
     Option.bind (q_first q)
       (\<lambda>node. map_option
          (\<lambda>n. (Got (take (unat (q_size q)) (qn_data n)),
                q\<lparr>q_last := (if q_first q = q_last q then None else q_last q),
                  q_first := qn_next n, q_nelem := q_nelem q - 1\<rparr>))
          (q_mem q node))"

definition queue_get :: "queue \<Rightarrow> (get_result \<times> queue) option" where
  "queue_get q =
     (if q_nelem q = 0
      then (if \<not> q_exiting q then Some (Waits, q) else Some (Exits, q))
      else queue_take q)"

text \<open>What a waiting thread does when the condition variable wakes it up.\<close>

definition queue_get_woken :: "queue \<Rightarrow> (get_result \<times> queue) option" where
  "queue_get_woken q =
     (if q_nelem q = 0 \<and> \<not> q_exiting q then Some (Waits, q)
      else if q_exiting q then Some (Exits, q) else queue_take q)"

definition queue_exiting :: "queue \<Rightarrow> queue" where
  "queue_exiting q = q\<lparr>q_exiting := True\<rparr>"


section \<open>The chain of nodes\<close>

fun nodes :: "(ptr \<rightharpoonup> queue_node) \<Rightarrow> ptr option \<Rightarrow> (ptr \<times> u8 list) list \<Rightarrow> bool" where
  "nodes mem p [] \<longleftrightarrow> p = None"
| "nodes mem p ((a, d) # xs) \<longleftrightarrow> p = Some a \<and> (\<exists>n. mem a = Some n \<and> qn_data n = d \<and> nodes mem (qn_next n) xs)"

lemma nodes_cong: "(\<And>a. a \<in> fst ` set xs \<Longrightarrow> mem a = mem' a) \<Longrightarrow> nodes mem p xs = nodes mem' p xs"
  by (induction mem p xs rule: nodes.induct) auto

lemma nodes_mem: "nodes mem p xs \<Longrightarrow> x \<in> set xs \<Longrightarrow> \<exists>n. mem (fst x) = Some n"
  by (induction mem p xs rule: nodes.induct) auto

lemma nodes_append:
  assumes "nodes mem p xs" "xs \<noteq> []" "distinct (map fst xs)" "a \<notin> fst ` set xs"
    and "mem a = Some \<lparr>qn_next = None, qn_data = d\<rparr>" "mem (fst (last xs)) = Some n"
  shows "nodes (mem(fst (last xs) \<mapsto> n\<lparr>qn_next := Some a\<rparr>)) p (xs @ [(a, d)])"
  using assms
proof (induction mem p xs rule: nodes.induct)
  case (2 mem p b e xs)
  show ?case
  proof (cases "xs = []")
    case True
    then show ?thesis using 2 by auto
  next
    case False
    have "fst (last xs) \<noteq> b" using False 2(4) by (metis (no_types, lifting) distinct.simps(2) image_eqI last_in_set list.simps(9) fst_conv set_map)
    moreover obtain m where "mem b = Some m" "qn_data m = e" "nodes mem (qn_next m) xs" using 2(2) by auto
    ultimately show ?thesis using 2 False by auto
  qed
qed simp


section \<open>Invariant\<close>

text \<open>The queue holds the elements \<open>ds\<close>, and \<open>used\<close> are the nodes allocated from the pool.\<close>

definition q_inv :: "queue \<Rightarrow> ptr set \<Rightarrow> u8 list list \<Rightarrow> bool" where
  "q_inv q used ds \<longleftrightarrow> pool_inv (q_pool q) used \<and> q_nelem q = of_nat (length ds) \<and> length ds \<le> card used \<and>
     (\<forall>d \<in> set ds. length d \<le> unat (q_size q)) \<and>
     (\<exists>xs. nodes (q_mem q) (q_first q) xs \<and> map snd xs = ds \<and> distinct (map fst xs) \<and> fst ` set xs \<subseteq> used \<and>
        q_last q = (if xs = [] then None else Some (fst (last xs))))"

lemma q_invE:
  assumes "q_inv q used ds"
  obtains xs where "nodes (q_mem q) (q_first q) xs" "map snd xs = ds" "distinct (map fst xs)" "fst ` set xs \<subseteq> used"
    "q_last q = (if xs = [] then None else Some (fst (last xs)))"
  using assms that unfolding q_inv_def by (elim conjE exE) simp

lemma queue_create_inv:
  assumes "unat sz < 2 ^ 31" "0 < n" "unat n \<le> 2 ^ 30"
  shows "q_inv (queue_create sz n) {} []"
proof -
  have "unat (8 + sz) \<le> 2 ^ 32" using assms(1) by (simp add: unat_word_ariths)
  from create_alloc_pool_inv [OF this assms(2,3)] show ?thesis
    by (auto simp: q_inv_def queue_create_def)
qed

lemma queue_put_inv:
  assumes inv: "q_inv q used ds"
  shows "\<exists>q' a. queue_put elem q = Some q' \<and> a \<notin> used \<and> q_inv q' (insert a used) (ds @ [take (unat (q_size q)) elem]) \<and>
    q_size q' = q_size q \<and> q_exiting q' = q_exiting q"
proof -
  let ?d = "take (unat (q_size q)) elem"
  obtain xs where xs: "nodes (q_mem q) (q_first q) xs" "map snd xs = ds" "distinct (map fst xs)" "fst ` set xs \<subseteq> used"
      "q_last q = (if xs = [] then None else Some (fst (last xs)))"
    using q_invE [OF inv] by metis
  obtain a pool where a: "pool_alloc (q_pool q) = Some (a, pool)" "a \<notin> used" "pool_inv pool (insert a used)"
    using pool_alloc_inv inv by (meson q_inv_def)
  let ?mem = "(q_mem q)(a \<mapsto> \<lparr>qn_next = None, qn_data = ?d\<rparr>)"
  have fresh: "a \<notin> fst ` set xs" using a(2) xs(4) by auto
  have "finite used" using inv by (simp add: q_inv_def pool_inv_def)
  then have card: "card (insert a used) = Suc (card used)" using a(2) by simp
  have len: "length xs = length ds" using xs(2) by auto
  have cnt: "length ds \<le> card used" "q_nelem q = of_nat (length ds)" "\<forall>d \<in> set ds. length d \<le> unat (q_size q)"
    using inv by (simp_all add: q_inv_def)
  have chain: "nodes ?mem (q_first q) xs" using xs(1) fresh by (subst nodes_cong [of xs ?mem "q_mem q"]) auto
  show ?thesis
  proof (cases "xs = []")
    case True
    let ?q = "q\<lparr>q_pool := pool, q_mem := ?mem, q_first := Some a, q_last := Some a, q_nelem := q_nelem q + 1\<rparr>"
    have "queue_put elem q = Some ?q" using a(1) True xs(5) by (simp add: queue_put_def Let_def)
    moreover have "q_inv ?q (insert a used) (ds @ [?d])"
      unfolding q_inv_def using a(3) True xs(2) cnt card by (auto intro!: exI [of _ "[(a, ?d)]"])
    ultimately show ?thesis using a(2) by (intro exI [of _ ?q] exI [of _ a]) simp
  next
    case False
    then obtain n where n: "q_mem q (fst (last xs)) = Some n" using nodes_mem [OF xs(1), of "last xs"] by auto
    let ?l = "fst (last xs)"
    have neq: "?l \<noteq> a" using fresh False by (metis image_eqI last_in_set)
    let ?q = "q\<lparr>q_pool := pool, q_mem := ?mem(?l \<mapsto> n\<lparr>qn_next := Some a\<rparr>), q_last := Some a, q_nelem := q_nelem q + 1\<rparr>"
    have put: "queue_put elem q = Some ?q" using a(1) False xs(5) n neq by (simp add: queue_put_def Let_def)
    have "nodes (q_mem ?q) (q_first ?q) (xs @ [(a, ?d)])"
      using nodes_append [OF chain False xs(3) fresh, of ?d n] n neq by simp
    moreover have "fst ` set (xs @ [(a, ?d)]) \<subseteq> insert a used" using xs(4) by auto
    moreover have "distinct (map fst (xs @ [(a, ?d)]))" "map snd (xs @ [(a, ?d)]) = ds @ [?d]" using xs(2,3) fresh by auto
    moreover have "\<forall>d \<in> set (ds @ [?d]). length d \<le> unat (q_size ?q)" using cnt(3) by auto
    ultimately have "q_inv ?q (insert a used) (ds @ [?d])"
      unfolding q_inv_def using a(3) cnt card by (intro conjI exI [of _ "xs @ [(a, ?d)]"]) simp_all
    then show ?thesis using a(2) put by (intro exI [of _ ?q] exI [of _ a]) simp
  qed
qed

lemma queue_take_inv:
  assumes inv: "q_inv q used (d # ds)"
  shows "\<exists>q'. queue_take q = Some (Got d, q') \<and> q_inv q' used ds \<and> q_size q' = q_size q \<and> q_exiting q' = q_exiting q"
proof -
  obtain ys where ys: "nodes (q_mem q) (q_first q) ys" "map snd ys = d # ds" "distinct (map fst ys)" "fst ` set ys \<subseteq> used"
      "q_last q = (if ys = [] then None else Some (fst (last ys)))"
    using q_invE [OF inv] by metis
  then obtain a xs where y: "ys = (a, d) # xs" by (cases ys) auto
  obtain n where n: "q_mem q a = Some n" "qn_data n = d" "nodes (q_mem q) (qn_next n) xs" using ys(1) y by auto
  let ?q = "q\<lparr>q_last := (if q_first q = q_last q then None else q_last q), q_first := qn_next n, q_nelem := q_nelem q - 1\<rparr>"
  have "length d \<le> unat (q_size q)" using inv by (simp add: q_inv_def)
  then have "queue_take q = Some (Got d, ?q)" using ys(1) y n by (simp add: queue_take_def)
  moreover have "q_last ?q = (if xs = [] then None else Some (fst (last xs)))"
  proof (cases "xs = []")
    case True
    then show ?thesis using ys(1,5) y by simp
  next
    case False
    then have "fst (last xs) \<noteq> a" using ys(3) y by (metis (no_types, lifting) distinct.simps(2) fst_conv image_eqI last_in_set list.simps(9) set_map)
    then show ?thesis using False ys(1,5) y by auto
  qed
  moreover have "map snd xs = ds" "distinct (map fst xs)" "fst ` set xs \<subseteq> used" using ys y by auto
  ultimately show ?thesis using inv n(3) unfolding q_inv_def by auto
qed


section \<open>Threads\<close>

text \<open>
  The threads that use the queue hold its mutex during an operation, so that an execution is a sequence of
  operations. The threads that wait for the condition variable are counted; one of them may be woken
  up at any time. The elements are delivered to the threads in the order of the list.
\<close>

record q_system =
  qs_queue :: queue
  qs_waiting :: nat
  qs_delivered :: "u8 list list"

datatype q_op = Q_Put "u8 list" | Q_Get | Q_Wakeup | Q_Exiting

fun q_result :: "q_system \<Rightarrow> nat \<Rightarrow> get_result \<times> queue \<Rightarrow> q_system" where
  "q_result s waiting (Waits, q) = s\<lparr>qs_queue := q, qs_waiting := Suc waiting\<rparr>"
| "q_result s waiting (Exits, q) = s\<lparr>qs_queue := q, qs_waiting := waiting\<rparr>"
| "q_result s waiting (Got d, q) = s\<lparr>qs_queue := q, qs_waiting := waiting, qs_delivered := qs_delivered s @ [d]\<rparr>"

fun q_step :: "q_op \<Rightarrow> q_system \<Rightarrow> q_system option" where
  "q_step (Q_Put elem) s = map_option (\<lambda>q. s\<lparr>qs_queue := q\<rparr>) (queue_put elem (qs_queue s))"
| "q_step Q_Get s = map_option (q_result s (qs_waiting s)) (queue_get (qs_queue s))"
| "q_step Q_Wakeup s =
     (case qs_waiting s of 0 \<Rightarrow> Some s
      | Suc w \<Rightarrow> map_option (q_result s w) (queue_get_woken (qs_queue s)))"
| "q_step Q_Exiting s = Some (s\<lparr>qs_queue := queue_exiting (qs_queue s)\<rparr>)"

text \<open>What the queue promises: a sequence of elements of a fixed size.\<close>

record q_value =
  qv_size :: nat
  qv_pending :: "u8 list list"
  qv_delivered :: "u8 list list"
  qv_waiting :: nat
  qv_exiting :: bool
  qv_puts :: nat

definition qv_deliver :: "q_value \<Rightarrow> q_value" where
  "qv_deliver v = v\<lparr>qv_pending := tl (qv_pending v), qv_delivered := qv_delivered v @ [hd (qv_pending v)]\<rparr>"

fun q_spec :: "q_op \<Rightarrow> q_value \<Rightarrow> q_value" where
  "q_spec (Q_Put elem) v = v\<lparr>qv_pending := qv_pending v @ [take (qv_size v) elem], qv_puts := Suc (qv_puts v)\<rparr>"
| "q_spec Q_Get v =
     (if qv_pending v \<noteq> [] then qv_deliver v
      else if qv_exiting v then v else v\<lparr>qv_waiting := Suc (qv_waiting v)\<rparr>)"
| "q_spec Q_Wakeup v =
     (if qv_waiting v = 0 then v
      else if qv_exiting v then v\<lparr>qv_waiting := qv_waiting v - 1\<rparr>
      else if qv_pending v = [] then v
      else qv_deliver (v\<lparr>qv_waiting := qv_waiting v - 1\<rparr>))"
| "q_spec Q_Exiting v = v\<lparr>qv_exiting := True\<rparr>"

definition qs_rep :: "q_system \<Rightarrow> q_value \<Rightarrow> bool" where
  "qs_rep s v \<longleftrightarrow> qv_size v = unat (q_size (qs_queue s)) \<and> qv_delivered v = qs_delivered s \<and> qv_waiting v = qs_waiting s \<and>
     qv_exiting v = q_exiting (qs_queue s) \<and> (\<exists>used. card used = qv_puts v \<and> q_inv (qs_queue s) used (qv_pending v))"

lemma q_nelem_0: "q_inv q used ds \<Longrightarrow> card used < 2 ^ 32 \<Longrightarrow> q_nelem q = 0 \<longleftrightarrow> ds = []"
  by (auto simp: q_inv_def word_of_nat_eq_0_iff dvd_imp_le dest!: dvd_imp_le)

lemma queue_get_inv:
  assumes inv: "q_inv q used ds" and few: "card used < 2 ^ 32"
  shows "ds = [] \<Longrightarrow> queue_get q = Some (if q_exiting q then Exits else Waits, q)"
    and "ds \<noteq> [] \<Longrightarrow> queue_get q = queue_take q"
    and "ds = [] \<Longrightarrow> \<not> q_exiting q \<Longrightarrow> queue_get_woken q = Some (Waits, q)"
    and "q_exiting q \<Longrightarrow> queue_get_woken q = Some (Exits, q)"
    and "ds \<noteq> [] \<Longrightarrow> \<not> q_exiting q \<Longrightarrow> queue_get_woken q = queue_take q"
  using q_nelem_0 [OF inv few] by (simp_all add: queue_get_def queue_get_woken_def)

lemma q_step:
  assumes rep: "qs_rep s v" and few: "qv_puts v < 2 ^ 32"
  shows "\<exists>s'. q_step op s = Some s' \<and> qs_rep s' (q_spec op v) \<and> qv_puts (q_spec op v) \<le> Suc (qv_puts v)"
proof -
  obtain used where used: "card used = qv_puts v" "q_inv (qs_queue s) used (qv_pending v)" and
    v: "qv_size v = unat (q_size (qs_queue s))" "qv_delivered v = qs_delivered s" "qv_waiting v = qs_waiting s"
      "qv_exiting v = q_exiting (qs_queue s)"
    using rep by (auto simp: qs_rep_def)
  have few': "card used < 2 ^ 32" using few used(1) by simp
  have fin: "finite used" using used(2) by (simp add: q_inv_def pool_inv_def)
  note get = queue_get_inv [OF used(2) few']
  have take: "\<exists>q'. queue_take (qs_queue s) = Some (Got (hd (qv_pending v)), q') \<and> q_inv q' used (tl (qv_pending v)) \<and>
      q_size q' = q_size (qs_queue s) \<and> q_exiting q' = q_exiting (qs_queue s)" if "qv_pending v \<noteq> []"
    using queue_take_inv [of "qs_queue s" used "hd (qv_pending v)" "tl (qv_pending v)"] used(2) that by simp
  show ?thesis
  proof (cases op)
    case (Q_Put elem)
    obtain q' a where "queue_put elem (qs_queue s) = Some q'" "a \<notin> used"
        "q_inv q' (insert a used) (qv_pending v @ [take (unat (q_size (qs_queue s))) elem])"
        "q_size q' = q_size (qs_queue s)" "q_exiting q' = q_exiting (qs_queue s)"
      using queue_put_inv [OF used(2), of elem] by blast
    moreover from this have "card (insert a used) = Suc (qv_puts v)" using fin used(1) by simp
    ultimately show ?thesis using Q_Put v by (auto simp: qs_rep_def)
  next
    case Q_Get
    show ?thesis
    proof (cases "qv_pending v = []")
      case True
      then show ?thesis using Q_Get get(1) v used by (auto simp: qs_rep_def)
    next
      case False
      then show ?thesis using Q_Get get(2) take v used(1) by (auto simp: qs_rep_def qv_deliver_def)
    qed
  next
    case Q_Wakeup
    show ?thesis
    proof (cases "qs_waiting s")
      case 0
      then show ?thesis using Q_Wakeup rep v(3) by simp
    next
      case (Suc w)
      then show ?thesis
        using Q_Wakeup get(3-5) take v used by (cases "qv_exiting v"; cases "qv_pending v = []") (auto simp: qs_rep_def qv_deliver_def)
    qed
  next
    case Q_Exiting
    have "q_inv (queue_exiting (qs_queue s)) used (qv_pending v)" using used(2) by (simp add: q_inv_def queue_exiting_def)
    then show ?thesis using Q_Exiting v used(1) by (auto simp: qs_rep_def queue_exiting_def)
  qed
qed

interpretation queue: data_refinement q_step q_spec "\<lambda>_. True" qs_rep "\<lambda>_ v. qv_puts v" "2 ^ 32"
  by unfold_locales (rule q_step)


section \<open>Properties\<close>

definition qs_new :: "u64 \<Rightarrow> u64 \<Rightarrow> q_system" where
  "qs_new sz n = \<lparr>qs_queue = queue_create sz n, qs_waiting = 0, qs_delivered = []\<rparr>"

definition qv_new :: "u64 \<Rightarrow> q_value" where
  "qv_new sz = \<lparr>qv_size = unat sz, qv_pending = [], qv_delivered = [], qv_waiting = 0, qv_exiting = False, qv_puts = 0\<rparr>"

lemma qs_new_rep:
  assumes "unat sz < 2 ^ 31" "0 < n" "unat n \<le> 2 ^ 30"
  shows "qs_rep (qs_new sz n) (qv_new sz)"
proof -
  have "unat (ucast sz :: u32) = unat sz" using assms(1) by (simp add: unsigned_ucast_eq take_bit_nat_eq_self)
  then show ?thesis using queue_create_inv [OF assms]
    by (auto simp: qs_rep_def qs_new_def qv_new_def queue_create_def intro!: exI [of _ "{}"])
qed

text \<open>The elements put into a queue.\<close>

fun puts :: "nat \<Rightarrow> q_op list \<Rightarrow> u8 list list" where
  "puts sz [] = []"
| "puts sz (op # ops) = (case op of Q_Put elem \<Rightarrow> take sz elem # puts sz ops | _ \<Rightarrow> puts sz ops)"

lemma qv_puts: "qv_puts (fold q_spec ops v) = qv_puts v + length (puts sz ops)"
proof (induction ops arbitrary: v)
  case (Cons op ops)
  then show ?case by (cases op) (simp_all add: qv_deliver_def)
qed simp

text \<open>C30. Whatever the threads that use a queue do, and in whatever order they are woken up, no operation fails, the elements
  delivered and those still in the queue are the ones put into it, in order, and
  threads wait exactly while there is nothing to deliver.\<close>
theorem queue_is_fifo:
  assumes "unat sz < 2 ^ 31" and "0 < n" and "unat n \<le> 2 ^ 30" and "length ops \<le> 2 ^ 32"
  shows "\<exists>s. run_ops q_step ops (qs_new sz n) = Some s \<and> qs_rep s (fold q_spec ops (qv_new sz)) \<and>
    qv_delivered (fold q_spec ops (qv_new sz)) @ qv_pending (fold q_spec ops (qv_new sz)) =
      puts (unat sz) ops"
proof -
  have "qv_delivered (fold q_spec ops v) @ qv_pending (fold q_spec ops v) = qv_delivered v @ qv_pending v @ puts (qv_size v) ops" for v
  proof (induction ops arbitrary: v)
    case (Cons op ops)
    then show ?case by (cases op) (auto simp: qv_deliver_def)
  qed simp
  then show ?thesis
    using queue.run_refines [OF qs_new_rep [OF assms(1-3)], of ops] assms(4) by (auto simp: qv_new_def)
qed

theorem queue_is_fifo_witness:
  "\<exists>s. run_ops q_step [Q_Get, Q_Put [1, 2, 3], Q_Put [4, 5], Q_Wakeup, Q_Exiting] (qs_new 2 10) = Some s \<and>
     qs_delivered s = [[1, 2]] \<and> qs_waiting s = 0"
  using queue_is_fifo [of 2 10 "[Q_Get, Q_Put [1, 2, 3], Q_Put [4, 5], Q_Wakeup, Q_Exiting]"]
  by (auto simp: qv_new_def qv_deliver_def qs_rep_def)

text \<open>C31. The node of an element that was delivered is not returned to the pool: the elements of the pool that
  are in use are as many as the elements that were ever put into the queue.\<close>
theorem queue_leaks_nodes:
  assumes "unat sz < 2 ^ 31" and "0 < n" and "unat n \<le> 2 ^ 30" and "length ops \<le> 2 ^ 32"
    and "run_ops q_step ops (qs_new sz n) = Some s"
  shows "elts_allocated (q_pool (qs_queue s)) - elts_free (q_pool (qs_queue s)) =
    of_nat (length (puts (unat sz) ops))"
proof -
  have "qs_rep s (fold q_spec ops (qv_new sz))"
    using queue.run_refines [OF qs_new_rep [OF assms(1-3)], of ops] assms(4,5) by (auto simp: qv_new_def)
  then obtain used where "card used = qv_puts (fold q_spec ops (qv_new sz))" "pool_inv (q_pool (qs_queue s)) used"
    by (auto simp: qs_rep_def q_inv_def)
  then show ?thesis by (simp add: pool_inv_def qv_puts [of _ _ "unat sz"] qv_new_def)
qed

theorem queue_leaks_nodes_witness:
  "\<exists>s. run_ops q_step [Q_Put [1], Q_Get, Q_Put [2], Q_Get] (qs_new 1 10) = Some s \<and>
     elts_allocated (q_pool (qs_queue s)) - elts_free (q_pool (qs_queue s)) = 2"
proof -
  obtain s where s: "run_ops q_step [Q_Put [1], Q_Get, Q_Put [2], Q_Get] (qs_new 1 10) = Some s"
    using queue.run_refines [OF qs_new_rep [of 1 10], of "[Q_Put [1], Q_Get, Q_Put [2], Q_Get]"] by (auto simp: qv_new_def)
  then show ?thesis using queue_leaks_nodes [OF _ _ _ _ s] by auto
qed

end
