(* ===== verification/Chain.thy ===== *)
theory Chain
  imports Alloc_Pool
begin

text \<open>
  The doubly linked chains in which the journals (\<^verbatim>\<open>src/zfsd/fs-entities/journal/journal.c\<close>) and the lists of hardlinks
  (\<^verbatim>\<open>src/zfsd/fs-entities/hardlink/hardlink-list.c\<close>) keep their entries. The entries are allocated
  from a memory pool; the memory of an entry that was returned to the pool is not readable any more,
  so that a use of a released entry is an error.
\<close>


section \<open>Entries and their memory\<close>

record 'e cell =
  c_next :: "ptr option"
  c_prev :: "ptr option"
  c_item :: 'e

record 'e heap =
  hp_mem :: "ptr \<rightharpoonup> 'e cell"
  hp_pool :: alloc_pool

record chain =
  ch_first :: "ptr option"
  ch_last :: "ptr option"

text \<open>Change a field of an entry.\<close>

definition set_next :: "ptr \<Rightarrow> ptr option \<Rightarrow> (ptr \<rightharpoonup> 'e cell) \<Rightarrow> (ptr \<rightharpoonup> 'e cell) option" where
  "set_next a p mem = map_option (\<lambda>c. mem(a \<mapsto> c\<lparr>c_next := p\<rparr>)) (mem a)"

definition set_prev :: "ptr \<Rightarrow> ptr option \<Rightarrow> (ptr \<rightharpoonup> 'e cell) \<Rightarrow> (ptr \<rightharpoonup> 'e cell) option" where
  "set_prev a p mem = map_option (\<lambda>c. mem(a \<mapsto> c\<lparr>c_prev := p\<rparr>)) (mem a)"

text \<open>Append the entry at \<open>a\<close> to the chain.\<close>

definition chain_append :: "ptr \<Rightarrow> 'e \<Rightarrow> (ptr \<rightharpoonup> 'e cell) \<times> chain \<Rightarrow> ((ptr \<rightharpoonup> 'e cell) \<times> chain) option" where
  "chain_append a e = (\<lambda>(mem, ch).
     let mem = mem(a \<mapsto> \<lparr>c_next = None, c_prev = ch_last ch, c_item = e\<rparr>)
     in map_option
          (\<lambda>mem. (mem, ch\<lparr>ch_last := Some a, ch_first := (case ch_first ch of None \<Rightarrow> Some a | Some p \<Rightarrow> Some p)\<rparr>))
          (case ch_last ch of None \<Rightarrow> Some mem | Some l \<Rightarrow> set_next l (Some a) mem))"

text \<open>Take the entry at \<open>a\<close> out of the chain.\<close>

definition chain_unlink :: "ptr \<Rightarrow> (ptr \<rightharpoonup> 'e cell) \<times> chain \<Rightarrow> ((ptr \<rightharpoonup> 'e cell) \<times> chain) option" where
  "chain_unlink a = (\<lambda>(mem, ch).
     Option.bind (mem a)
       (\<lambda>del. Option.bind
          (case c_next del of
             Some b \<Rightarrow> map_option (\<lambda>mem. (mem, ch)) (set_prev b (c_prev del) mem)
           | None \<Rightarrow> Some (mem, ch\<lparr>ch_last := c_prev del\<rparr>))
          (\<lambda>(mem, ch).
             case c_prev del of
               Some b \<Rightarrow> map_option (\<lambda>mem. (mem, ch)) (set_next b (c_next del) mem)
             | None \<Rightarrow> Some (mem, ch\<lparr>ch_first := c_next del\<rparr>))))"

text \<open>Return an entry to the pool.\<close>

definition release_entry :: "ptr \<Rightarrow> 'e heap \<Rightarrow> 'e heap" where
  "release_entry a h = h\<lparr>hp_mem := (hp_mem h)(a := None), hp_pool := pool_free (hp_pool h) a\<rparr>"

text \<open>Release all entries from \<open>p\<close> on. The fuel bounds the length of the chain.\<close>

fun release_entries :: "nat \<Rightarrow> ptr option \<Rightarrow> 'e heap \<Rightarrow> 'e heap option" where
  "release_entries fuel None h = Some h"
| "release_entries 0 (Some a) h = None"
| "release_entries (Suc fuel) (Some a) h =
     Option.bind (hp_mem h a) (\<lambda>c. release_entries fuel (c_next c) (release_entry a h))"


section \<open>Chains as lists\<close>

text \<open>
  The segment of a chain from \<open>p\<close>, whose predecessor is \<open>pr\<close>, up to \<open>nx\<close>, whose predecessor is \<open>lst\<close>.
\<close>

fun dseg :: "(ptr \<rightharpoonup> 'e cell) \<Rightarrow> ptr option \<Rightarrow> ptr option \<Rightarrow> (ptr \<times> 'e) list \<Rightarrow> ptr option \<Rightarrow> ptr option \<Rightarrow> bool" where
  "dseg mem pr p [] lst nx \<longleftrightarrow> p = nx \<and> pr = lst"
| "dseg mem pr p ((a, e) # xs) lst nx \<longleftrightarrow>
     p = Some a \<and> (\<exists>c. mem a = Some c \<and> c_prev c = pr \<and> c_item c = e \<and> dseg mem (Some a) (c_next c) xs lst nx)"

definition chain_rep :: "(ptr \<rightharpoonup> 'e cell) \<Rightarrow> chain \<Rightarrow> (ptr \<times> 'e) list \<Rightarrow> bool" where
  "chain_rep mem ch xs \<longleftrightarrow> dseg mem None (ch_first ch) xs (ch_last ch) None \<and> distinct (map fst xs)"

lemma dseg_cong: "(\<And>a. a \<in> fst ` set xs \<Longrightarrow> mem a = mem' a) \<Longrightarrow> dseg mem pr p xs lst nx = dseg mem' pr p xs lst nx"
  by (induction mem pr p xs lst nx rule: dseg.induct) auto

lemma dseg_append:
  "dseg mem pr p (xs @ ys) lst nx \<longleftrightarrow> (\<exists>m pm. dseg mem pr p xs pm m \<and> dseg mem pm m ys lst nx)"
proof (induction xs arbitrary: pr p)
  case (Cons x xs)
  obtain a e where "x = (a, e)" by (rule prod.exhaust)
  then show ?case using Cons by (simp del: split_paired_Ex) blast
qed simp

lemma dseg_mem: "dseg mem pr p xs lst nx \<Longrightarrow> x \<in> set xs \<Longrightarrow> \<exists>c. mem (fst x) = Some c \<and> c_item c = snd x"
  by (induction mem pr p xs lst nx rule: dseg.induct) auto

text \<open>Redirecting the end and the start of a segment.\<close>

lemma dseg_set_next:
  assumes "dseg mem pr p xs lst nx" "xs \<noteq> []" "distinct (map fst xs)"
  shows "lst = Some (fst (last xs)) \<and> (\<exists>c. mem (fst (last xs)) = Some c \<and>
    dseg (mem(fst (last xs) \<mapsto> c\<lparr>c_next := nx'\<rparr>)) pr p xs lst nx')"
proof -
  obtain a e ys where xs: "xs = ys @ [(a, e)]" using assms(2) by (metis rev_exhaust surj_pair)
  then obtain m pm where s: "dseg mem pr p ys pm m" "dseg mem pm m [(a, e)] lst nx" using assms(1) by (auto simp: dseg_append)
  then obtain c where c: "m = Some a" "mem a = Some c" "c_prev c = pm" "c_item c = e" "c_next c = nx" "lst = Some a" by auto
  have "a \<notin> fst ` set ys" using assms(3) xs by auto
  then have "dseg (mem(a \<mapsto> c\<lparr>c_next := nx'\<rparr>)) pr p ys pm m" using s(1) by (subst dseg_cong [of ys _ mem]) auto
  then have "dseg (mem(a \<mapsto> c\<lparr>c_next := nx'\<rparr>)) pr p xs lst nx'" using xs c by (auto simp: dseg_append)
  then show ?thesis using xs c by auto
qed

lemma dseg_set_prev:
  assumes "dseg mem pr (Some b) xs lst nx" "xs \<noteq> []" "distinct (map fst xs)"
  shows "\<exists>c. mem b = Some c \<and> b \<in> fst ` set xs \<and> dseg (mem(b \<mapsto> c\<lparr>c_prev := pr'\<rparr>)) pr' (Some b) xs lst nx"
proof -
  obtain e ys where xs: "xs = (b, e) # ys" using assms(1,2) by (cases xs) auto
  then obtain c where c: "mem b = Some c" "c_item c = e" "dseg mem (Some b) (c_next c) ys lst nx" using assms(1) by auto
  have "b \<notin> fst ` set ys" using assms(3) xs by auto
  then have "dseg (mem(b \<mapsto> c\<lparr>c_prev := pr'\<rparr>)) (Some b) (c_next c) ys lst nx" using c(3) by (subst dseg_cong [of ys _ mem]) auto
  then show ?thesis using xs c by auto
qed


section \<open>The operations\<close>

lemma chain_rep_Nil: "chain_rep mem ch [] \<longleftrightarrow> ch_first ch = None \<and> ch_last ch = None"
  by (auto simp: chain_rep_def)

lemma chain_append:
  assumes rep: "chain_rep mem ch xs" and fresh: "a \<notin> fst ` set xs"
  shows "\<exists>mem' ch'. chain_append a e (mem, ch) = Some (mem', ch') \<and> chain_rep mem' ch' (xs @ [(a, e)]) \<and>
    (\<forall>b. b \<noteq> a \<longrightarrow> b \<notin> fst ` set xs \<longrightarrow> mem' b = mem b) \<and> dom mem' = insert a (dom mem)"
proof (cases "xs = []")
  case True
  then have "ch_first ch = None" "ch_last ch = None" using rep by (auto simp: chain_rep_Nil)
  then show ?thesis using True by (simp add: chain_append_def chain_rep_def)
next
  case False
  let ?mem = "mem(a \<mapsto> \<lparr>c_next = None, c_prev = ch_last ch, c_item = e\<rparr>)"
  have d: "distinct (map fst xs)" "dseg mem None (ch_first ch) xs (ch_last ch) None" using rep by (auto simp: chain_rep_def)
  have "dseg ?mem None (ch_first ch) xs (ch_last ch) None" using d(2) fresh by (subst dseg_cong [of xs _ mem]) auto
  from dseg_set_next [OF this False d(1), of "Some a"] obtain c where c: "ch_last ch = Some (fst (last xs))" "?mem (fst (last xs)) = Some c"
      "dseg (?mem(fst (last xs) \<mapsto> c\<lparr>c_next := Some a\<rparr>)) None (ch_first ch) xs (ch_last ch) (Some a)" by blast
  let ?l = "fst (last xs)"
  have l: "?l \<in> fst ` set xs" using False by simp
  then have neq: "?l \<noteq> a" using fresh by metis
  obtain f where f: "ch_first ch = Some f" using d(2) False by (cases xs) auto
  let ?mem' = "?mem(?l \<mapsto> c\<lparr>c_next := Some a\<rparr>)"
  have "dseg ?mem' (ch_last ch) (Some a) [(a, e)] (Some a) None" using neq by simp
  then have "dseg ?mem' None (ch_first ch) (xs @ [(a, e)]) (Some a) None" using c(3) unfolding dseg_append by blast
  moreover have "distinct (map fst (xs @ [(a, e)]))" using d(1) fresh by simp
  moreover have "chain_append a e (mem, ch) = Some (?mem', ch\<lparr>ch_last := Some a, ch_first := Some f\<rparr>)"
    using c(1,2) f neq by (simp add: chain_append_def set_next_def)
  moreover have "\<forall>b. b \<noteq> a \<longrightarrow> b \<notin> fst ` set xs \<longrightarrow> ?mem' b = mem b" using l by auto
  moreover have "dom ?mem' = insert a (dom mem)" using c(2) neq by auto
  ultimately show ?thesis using f by (intro exI [of _ ?mem'] exI [of _ "ch\<lparr>ch_last := Some a, ch_first := Some f\<rparr>"]) (simp add: chain_rep_def)
qed

lemma chain_unlink:
  assumes rep: "chain_rep mem ch (us @ (a, e) # vs)"
  shows "\<exists>mem' ch'. chain_unlink a (mem, ch) = Some (mem', ch') \<and> chain_rep mem' ch' (us @ vs) \<and>
    (\<forall>b. b \<notin> fst ` set (us @ vs) \<longrightarrow> mem' b = mem b) \<and> dom mem' = dom mem"
proof -
  obtain pm m where us: "dseg mem None (ch_first ch) us pm m" and rest: "dseg mem pm m ((a, e) # vs) (ch_last ch) None"
    using rep by (auto simp: chain_rep_def dseg_append)
  obtain c where c: "m = Some a" "mem a = Some c" "c_prev c = pm" and vs: "dseg mem (Some a) (c_next c) vs (ch_last ch) None"
    using rest by auto
  have dist: "distinct (map fst us)" "distinct (map fst vs)" "fst ` set us \<inter> fst ` set vs = {}" "a \<notin> fst ` set us" "a \<notin> fst ` set vs"
    using rep by (auto simp: chain_rep_def)
  have "\<exists>mem1 ch1. (case c_next c of Some b \<Rightarrow> map_option (\<lambda>mem. (mem, ch)) (set_prev b pm mem) | None \<Rightarrow> Some (mem, ch\<lparr>ch_last := pm\<rparr>)) = Some (mem1, ch1) \<and>
      dseg mem1 pm (c_next c) vs (ch_last ch1) None \<and> (\<forall>b. b \<notin> fst ` set vs \<longrightarrow> mem1 b = mem b) \<and> dom mem1 = dom mem \<and> ch_first ch1 = ch_first ch"
  proof (cases "vs = []")
    case True
    then have "c_next c = None" using vs by simp
    then show ?thesis using True by simp
  next
    case False
    then obtain b where b: "c_next c = Some b" using vs by (cases vs) auto
    obtain d where d: "mem b = Some d" "b \<in> fst ` set vs" "dseg (mem(b \<mapsto> d\<lparr>c_prev := pm\<rparr>)) pm (Some b) vs (ch_last ch) None"
      using dseg_set_prev [OF vs [unfolded b] False dist(2), of pm] by blast
    then show ?thesis using b by (auto simp: set_prev_def)
  qed
  then obtain mem1 ch1 where one: "(case c_next c of Some b \<Rightarrow> map_option (\<lambda>mem. (mem, ch)) (set_prev b pm mem) | None \<Rightarrow> Some (mem, ch\<lparr>ch_last := pm\<rparr>)) = Some (mem1, ch1)"
      "dseg mem1 pm (c_next c) vs (ch_last ch1) None" "\<forall>b. b \<notin> fst ` set vs \<longrightarrow> mem1 b = mem b" "dom mem1 = dom mem" "ch_first ch1 = ch_first ch"
    by blast
  have us1: "dseg mem1 None (ch_first ch) us pm (Some a)" using us c(1) one(3) dist(3) by (subst dseg_cong [of us _ mem]) auto
  have "\<exists>mem2 ch2. (case pm of Some b \<Rightarrow> map_option (\<lambda>mem. (mem, ch1)) (set_next b (c_next c) mem1) | None \<Rightarrow> Some (mem1, ch1\<lparr>ch_first := c_next c\<rparr>)) = Some (mem2, ch2) \<and>
      dseg mem2 None (ch_first ch2) us pm (c_next c) \<and> (\<forall>b. b \<notin> fst ` set us \<longrightarrow> mem2 b = mem1 b) \<and> dom mem2 = dom mem1 \<and> ch_last ch2 = ch_last ch1"
  proof (cases "us = []")
    case True
    then have "pm = None" using us1 by simp
    then show ?thesis using True by simp
  next
    case False
    obtain d where d: "pm = Some (fst (last us))" "mem1 (fst (last us)) = Some d"
        "dseg (mem1(fst (last us) \<mapsto> d\<lparr>c_next := c_next c\<rparr>)) None (ch_first ch) us pm (c_next c)"
      using dseg_set_next [OF us1 False dist(1), of "c_next c"] by blast
    moreover have "fst (last us) \<in> fst ` set us" using False by simp
    ultimately show ?thesis using one(5) by (auto simp: set_next_def)
  qed
  then obtain mem2 ch2 where two: "(case pm of Some b \<Rightarrow> map_option (\<lambda>mem. (mem, ch1)) (set_next b (c_next c) mem1) | None \<Rightarrow> Some (mem1, ch1\<lparr>ch_first := c_next c\<rparr>)) = Some (mem2, ch2)"
      "dseg mem2 None (ch_first ch2) us pm (c_next c)" "\<forall>b. b \<notin> fst ` set us \<longrightarrow> mem2 b = mem1 b" "dom mem2 = dom mem1" "ch_last ch2 = ch_last ch1"
    by blast
  have "dseg mem2 pm (c_next c) vs (ch_last ch1) None" using one(2) two(3) dist(3) by (subst dseg_cong [of vs _ mem1]) auto
  then have "dseg mem2 None (ch_first ch2) (us @ vs) (ch_last ch2) None" using two(2,5) by (auto simp: dseg_append)
  then have "chain_rep mem2 ch2 (us @ vs)" using dist(1-3) by (auto simp: chain_rep_def)
  moreover have "chain_unlink a (mem, ch) = Some (mem2, ch2)" 
    unfolding chain_unlink_def by (simp only: prod.case c(2,3) Option.bind.simps one(1) two(1))
  moreover have "mem2 b = mem b" if "b \<notin> fst ` set (us @ vs)" for b using that one(3) two(3) by (simp add: image_Un del: split_paired_All)
  ultimately show ?thesis using one(4) two(4) by (intro exI [of _ mem2] exI [of _ ch2] conjI allI impI) simp_all
qed

text \<open>Releasing entries.\<close>

lemma release_entries:
  assumes "dseg (hp_mem h) pr p xs lst None" "distinct (map fst xs)" "pool_inv (hp_pool h) used" "fst ` set xs \<subseteq> used" "length xs \<le> fuel"
  shows "\<exists>h'. release_entries fuel p h = Some h' \<and> hp_mem h' = (\<lambda>a. if a \<in> fst ` set xs then None else hp_mem h a) \<and>
    pool_inv (hp_pool h') (used - fst ` set xs)"
  using assms
proof (induction xs arbitrary: h pr p used fuel)
  case Nil
  then show ?case by simp
next
  case (Cons x xs)
  obtain a e where x: "x = (a, e)" by (rule prod.exhaust)
  obtain c where c: "p = Some a" "hp_mem h a = Some c" "dseg (hp_mem h) (Some a) (c_next c) xs lst None"
    using Cons.prems(1) x by auto
  obtain fuel' where fuel: "fuel = Suc fuel'" "length xs \<le> fuel'" using Cons.prems(5) by (cases fuel) auto
  have a: "a \<notin> fst ` set xs" "distinct (map fst xs)" "a \<in> used" "fst ` set xs \<subseteq> used - {a}"
    using Cons.prems(2,4) x by auto
  have "dseg (hp_mem (release_entry a h)) (Some a) (c_next c) xs lst None"
    using c(3) a(1) by (subst dseg_cong [of xs _ "hp_mem h"]) (auto simp: release_entry_def)
  moreover have "pool_inv (hp_pool (release_entry a h)) (used - {a})"
    using pool_free_inv [OF Cons.prems(3) a(3)] by (simp add: release_entry_def)
  ultimately obtain h' where h': "release_entries fuel' (c_next c) (release_entry a h) = Some h'"
      "hp_mem h' = (\<lambda>b. if b \<in> fst ` set xs then None else hp_mem (release_entry a h) b)"
      "pool_inv (hp_pool h') (used - {a} - fst ` set xs)"
    using Cons.IH [OF _ a(2) _ a(4) fuel(2)] by blast
  have "used - {a} - fst ` set xs = used - fst ` set (x # xs)" using x by auto
  moreover have "hp_mem h' = (\<lambda>b. if b \<in> fst ` set (x # xs) then None else hp_mem h b)"
    unfolding h'(2) using x by (auto simp: release_entry_def fun_eq_iff)
  ultimately show ?case using h'(1,3) c fuel by simp
qed

end
