(* ===== verification/Prime_Table.thy ===== *)
theory Prime_Table
  imports Zfs_Prelude
begin

text \<open>
  The sizes of hash tables, \<^verbatim>\<open>lib/hashtab/hashtab.c\<close>: the table of primes and the search in it. The
  sizes up to a million are shown to be prime, by trial division. From this follows what the
  hash table needs of them: a probe sequence with any step visits every slot.
\<close>

section \<open>The table\<close>

definition primes :: "u32 list" where
  "primes = [7, 13, 31, 61, 127, 251, 509, 1021, 2039, 4093, 8191, 16381, 32749, 65521, 131071, 262139, 524287,
     1048573, 2097143, 4194301, 8388593, 16777213, 33554393, 67108859, 134217689, 268435399, 536870909,
     1073741789, 2147483647]"

definition MAX_PRIME :: u32 where
  "MAX_PRIME = primes ! (length primes - 1)"

function higher_prime_loop :: "u32 \<Rightarrow> nat \<Rightarrow> nat \<Rightarrow> nat" where
  "higher_prime_loop n low high =
     (if low < high then
        let mid = (low + high) div 2
        in if n > primes ! mid then higher_prime_loop n (mid + 1) high else higher_prime_loop n low mid
      else low)"
  by auto
termination
  by (relation "measure (\<lambda>(n, low, high). high - low)") auto

declare higher_prime_loop.simps [simp del]

text \<open>
  The loop of the C function runs while the bounds differ; the lower one never exceeds the upper one.
  A number above the last prime aborts the daemon.
\<close>

definition get_higher_prime :: "u32 \<Rightarrow> u32 option" where
  "get_higher_prime n =
     (if n > MAX_PRIME then None else Some (primes ! higher_prime_loop n 0 (length primes - 1)))"


section \<open>The search\<close>

lemma sorted_primes: "sorted_wrt (<) primes"
  unfolding primes_def by (simp del: sorted_wrt.simps add: sorted_wrt2_simps)

lemma length_primes [simp]: "length primes = 29"
  by (simp add: primes_def)

lemma primes_mono: "i < j \<Longrightarrow> j < 29 \<Longrightarrow> primes ! i < primes ! j"
  using sorted_wrt_nth_less [OF sorted_primes] by simp

lemma higher_prime_loop:
  assumes "low \<le> high" "high < 29" "n \<le> primes ! high" "\<forall>i < low. primes ! i < n"
  shows "higher_prime_loop n low high < 29 \<and> n \<le> primes ! higher_prime_loop n low high
    \<and> (\<forall>i < higher_prime_loop n low high. primes ! i < n)"
  using assms
proof (induction n low high rule: higher_prime_loop.induct)
  case (1 n low high)
  let ?mid = "(low + high) div 2"
  show ?case
  proof (cases "low < high")
    case False
    then show ?thesis using 1(3-6) by (simp add: higher_prime_loop.simps)
  next
    case True
    show ?thesis
    proof (cases "n > primes ! ?mid")
      case gt: True
      have "primes ! i < n" if "i < ?mid + 1" for i
      proof (cases "i = ?mid")
        case False
        then have "primes ! i < primes ! ?mid" using that True 1(4) by (intro primes_mono) auto
        then show ?thesis using gt by (rule less_trans)
      qed (use gt in simp)
      moreover have "higher_prime_loop n low high = higher_prime_loop n (?mid + 1) high"
        using True gt by (subst higher_prime_loop.simps) simp
      ultimately show ?thesis using 1(1) [OF True refl gt] 1(4,5) True by simp
    next
      case False
      have "higher_prime_loop n low high = higher_prime_loop n low ?mid"
        using True False by (subst higher_prime_loop.simps) auto
      moreover have "n \<le> primes ! ?mid" "low \<le> ?mid" "?mid < 29" using False True 1(4) by auto
      ultimately show ?thesis using 1(2) [OF True refl False] 1(6) by simp
    qed
  qed
qed

text \<open>The result is the least prime of the table that is not smaller.\<close>

lemma get_higher_prime:
  assumes "n \<le> 2147483647"
  shows "\<exists>p. get_higher_prime n = Some p \<and> p \<in> set primes \<and> n \<le> p \<and> (\<forall>q \<in> set primes. n \<le> q \<longrightarrow> p \<le> q)"
proof -
  let ?i = "higher_prime_loop n 0 28"
  have max: "MAX_PRIME = 2147483647" "primes ! 28 = 2147483647" by (simp_all add: MAX_PRIME_def primes_def)
  have i: "?i < 29" "n \<le> primes ! ?i" "\<forall>j < ?i. primes ! j < n"
    using higher_prime_loop [of 0 28 n] assms max by auto
  have "get_higher_prime n = Some (primes ! ?i)" using assms max by (simp add: get_higher_prime_def)
  moreover have "primes ! ?i \<le> q" if q: "q \<in> set primes" "n \<le> q" for q
  proof -
    obtain j where j: "j < 29" "q = primes ! j" using q(1) by (auto simp: in_set_conv_nth)
    then have "\<not> j < ?i" using i(3) q(2) by auto
    then have "?i = j \<or> ?i < j" by auto
    then show ?thesis using primes_mono [of ?i j] j by (auto simp: less_imp_le)
  qed
  ultimately show ?thesis using i(1,2) by (auto simp: in_set_conv_nth)
qed


section \<open>Primes\<close>

definition is_prime :: "nat \<Rightarrow> bool" where
  "is_prime p \<longleftrightarrow> 1 < p \<and> (\<forall>d. d dvd p \<longrightarrow> d = 1 \<or> d = p)"

lemma is_prime_coprime: "is_prime p \<Longrightarrow> 0 < s \<Longrightarrow> s < p \<Longrightarrow> coprime s p"
proof -
  assume p: "is_prime p" "0 < s" "s < p"
  have "gcd s p dvd p" by simp
  then have "gcd s p = 1 \<or> gcd s p = p" using p(1) by (auto simp: is_prime_def)
  moreover have "gcd s p \<le> s" using p(2) by (simp add: gcd_le1_nat)
  ultimately show ?thesis using p(3) by (auto simp: coprime_iff_gcd_eq_1)
qed

text \<open>No divisor among \<open>x, x + 2, \<dots>\<close>; integers, because they are computed with in binary.\<close>

primrec no_divisor :: "nat \<Rightarrow> int \<Rightarrow> int \<Rightarrow> bool" where
  "no_divisor 0 n x \<longleftrightarrow> True"
| "no_divisor (Suc k) n x \<longleftrightarrow> n mod x \<noteq> 0 \<and> no_divisor k n (x + 2)"

lemma no_divisor: "no_divisor k n x \<Longrightarrow> j < k \<Longrightarrow> \<not> x + 2 * int j dvd n"
proof (induction k arbitrary: x j)
  case (Suc k)
  show ?case
  proof (cases j)
    case 0
    then show ?thesis using Suc.prems by (auto simp: dvd_eq_mod_eq_0)
  next
    case (Suc i)
    then show ?thesis using Suc.IH [of "x + 2" i] Suc.prems by (simp add: algebra_simps)
  qed
qed simp

lemma trial_division:
  assumes "no_divisor k (int n) 3" "odd n" "1 < n" "n < (2 * k + 3) * (2 * k + 3)"
  shows "is_prime n"
proof -
  have small: False if d: "d dvd n" "1 < d" "d < 2 * k + 3" for d
  proof -
    have "odd d" using d(1) assms(2) by (meson dvd_trans)
    then obtain j where j: "d = 2 * j + 1" by (auto elim: oddE)
    have "int d = 3 + 2 * int (j - 1)" using j d(2) by simp
    moreover have "j - 1 < k" using j d(2,3) by simp
    ultimately show False using no_divisor [OF assms(1), of "j - 1"] d(1) by (metis int_dvd_int_iff)
  qed
  have "d = 1 \<or> d = n" if d: "d dvd n" for d
  proof (rule ccontr)
    assume neq: "\<not> (d = 1 \<or> d = n)"
    obtain e where e: "n = d * e" using d by auto
    then have "1 < d" "1 < e" "e dvd n" using neq assms(3) by (auto intro!: Nat.gr0I simp: nat_neq_iff)
    moreover have "d < 2 * k + 3 \<or> e < 2 * k + 3"
      using e assms(4) by (metis mult_le_mono not_less)
    ultimately show False using small d by blast
  qed
  then show ?thesis using assms(3) by (simp add: is_prime_def)
qed


text \<open>The sizes up to \<open>2 ^ 20\<close> are prime.\<close>

definition small_primes :: "u32 list" where
  "small_primes = take 18 primes"

lemma prime_7: "is_prime 7"
proof (rule trial_division)
  have "no_divisor 0 7 3" by code_simp
  then show "no_divisor 0 (int 7) 3" by (simp del: no_divisor.simps)
qed simp_all

lemma prime_13: "is_prime 13"
proof (rule trial_division)
  have "no_divisor 1 13 3" by code_simp
  then show "no_divisor 1 (int 13) 3" by (simp del: no_divisor.simps)
qed simp_all

lemma prime_31: "is_prime 31"
proof (rule trial_division)
  have "no_divisor 2 31 3" by code_simp
  then show "no_divisor 2 (int 31) 3" by (simp del: no_divisor.simps)
qed simp_all

lemma prime_61: "is_prime 61"
proof (rule trial_division)
  have "no_divisor 3 61 3" by code_simp
  then show "no_divisor 3 (int 61) 3" by (simp del: no_divisor.simps)
qed simp_all

lemma prime_127: "is_prime 127"
proof (rule trial_division)
  have "no_divisor 5 127 3" by code_simp
  then show "no_divisor 5 (int 127) 3" by (simp del: no_divisor.simps)
qed simp_all

lemma prime_251: "is_prime 251"
proof (rule trial_division)
  have "no_divisor 7 251 3" by code_simp
  then show "no_divisor 7 (int 251) 3" by (simp del: no_divisor.simps)
qed simp_all

lemma prime_509: "is_prime 509"
proof (rule trial_division)
  have "no_divisor 10 509 3" by code_simp
  then show "no_divisor 10 (int 509) 3" by (simp del: no_divisor.simps)
qed simp_all

lemma prime_1021: "is_prime 1021"
proof (rule trial_division)
  have "no_divisor 15 1021 3" by code_simp
  then show "no_divisor 15 (int 1021) 3" by (simp del: no_divisor.simps)
qed simp_all

lemma prime_2039: "is_prime 2039"
proof (rule trial_division)
  have "no_divisor 22 2039 3" by code_simp
  then show "no_divisor 22 (int 2039) 3" by (simp del: no_divisor.simps)
qed simp_all

lemma prime_4093: "is_prime 4093"
proof (rule trial_division)
  have "no_divisor 31 4093 3" by code_simp
  then show "no_divisor 31 (int 4093) 3" by (simp del: no_divisor.simps)
qed simp_all

lemma prime_8191: "is_prime 8191"
proof (rule trial_division)
  have "no_divisor 44 8191 3" by code_simp
  then show "no_divisor 44 (int 8191) 3" by (simp del: no_divisor.simps)
qed simp_all

lemma prime_16381: "is_prime 16381"
proof (rule trial_division)
  have "no_divisor 63 16381 3" by code_simp
  then show "no_divisor 63 (int 16381) 3" by (simp del: no_divisor.simps)
qed simp_all

lemma prime_32749: "is_prime 32749"
proof (rule trial_division)
  have "no_divisor 89 32749 3" by code_simp
  then show "no_divisor 89 (int 32749) 3" by (simp del: no_divisor.simps)
qed simp_all

lemma prime_65521: "is_prime 65521"
proof (rule trial_division)
  have "no_divisor 127 65521 3" by code_simp
  then show "no_divisor 127 (int 65521) 3" by (simp del: no_divisor.simps)
qed simp_all

lemma prime_131071: "is_prime 131071"
proof (rule trial_division)
  have "no_divisor 180 131071 3" by code_simp
  then show "no_divisor 180 (int 131071) 3" by (simp del: no_divisor.simps)
qed simp_all

lemma prime_262139: "is_prime 262139"
proof (rule trial_division)
  have "no_divisor 255 262139 3" by code_simp
  then show "no_divisor 255 (int 262139) 3" by (simp del: no_divisor.simps)
qed simp_all

lemma prime_524287: "is_prime 524287"
proof (rule trial_division)
  have "no_divisor 361 524287 3" by code_simp
  then show "no_divisor 361 (int 524287) 3" by (simp del: no_divisor.simps)
qed simp_all

lemma prime_1048573: "is_prime 1048573"
proof (rule trial_division)
  have "no_divisor 511 1048573 3" by code_simp
  then show "no_divisor 511 (int 1048573) 3" by (simp del: no_divisor.simps)
qed simp_all

lemma small_primes_prime: "p \<in> set small_primes \<Longrightarrow> is_prime (unat p)"
  by (auto simp: small_primes_def primes_def prime_7 prime_13 prime_31 prime_61 prime_127 prime_251 prime_509 prime_1021 prime_2039 prime_4093 prime_8191 prime_16381 prime_32749 prime_65521 prime_131071 prime_262139 prime_524287 prime_1048573)

end
