(* ===== verification/Hash_Table.thy ===== *)
theory Hash_Table
  imports Prime_Table Data_Refinement "HOL-Library.Multiset"
begin

text \<open>
  The hash table of \<^verbatim>\<open>lib/hashtab\<close>, with open addressing and double hashing. All lookups of the
  daemon go through it: nodes, volumes, file handles, directory entries, threads waiting for replies.

  An entry of the table is a pointer; two values of it stand for an empty and for a deleted entry. The hash function, the
  comparison and the function that frees an element are fields of the table; \<open>ht_released\<close> lists the
  elements the last one has been called with. A slot is the index of an entry. The loops that follow a probe sequence are
  partial functions, which return because a table always has an empty entry and its size is prime.
\<close>

section \<open>The table\<close>

datatype 'a entry = EMPTY_ENTRY | DELETED_ENTRY | Entry 'a

record 'a htab =
  ht_table :: "'a entry list"
  ht_size :: u32
  ht_n_elements :: u32
  ht_n_deleted :: u32
  ht_hash_f :: "'a \<Rightarrow> u32"
  ht_eq_f :: "'a \<Rightarrow> 'a \<Rightarrow> bool"
  ht_del_f :: bool
  ht_released :: "'a list"

datatype insert = NO_INSERT | INSERT

text \<open>The next index of a probe sequence.\<close>

definition next_idx :: "u32 \<Rightarrow> u32 \<Rightarrow> u32 \<Rightarrow> u32" where
  "next_idx sz step idx = (let idx = idx + step in if idx \<ge> sz then idx - sz else idx)"

partial_function (option) empty_slot_loop :: "'a htab \<Rightarrow> u32 \<Rightarrow> u32 \<Rightarrow> u32 option" where
  "empty_slot_loop htab step idx =
     (let idx = next_idx (ht_size htab) step idx
      in if ht_table htab ! unat idx = EMPTY_ENTRY then Some idx else empty_slot_loop htab step idx)"

declare empty_slot_loop.simps [code]

definition htab_find_empty_slot :: "'a htab \<Rightarrow> u32 \<Rightarrow> u32 option" where
  "htab_find_empty_slot htab hash =
     (let idx = hash mod ht_size htab
      in if ht_table htab ! unat idx = EMPTY_ENTRY then Some idx
         else empty_slot_loop htab (1 + hash mod (ht_size htab - 2)) idx)"

text \<open>Move the elements of the old table.\<close>

fun rehash :: "'a entry list \<Rightarrow> 'a htab \<Rightarrow> 'a htab option" where
  "rehash [] htab = Some htab"
| "rehash (e # es) htab =
     (case e of
        Entry x \<Rightarrow>
          Option.bind (htab_find_empty_slot htab (ht_hash_f htab x))
            (\<lambda>slot. rehash es (htab\<lparr>ht_table := (ht_table htab)[unat slot := Entry x]\<rparr>))
      | _ \<Rightarrow> rehash es htab)"

definition htab_expand :: "'a htab \<Rightarrow> 'a htab option" where
  "htab_expand htab =
     Option.bind (get_higher_prime ((ht_n_elements htab - ht_n_deleted htab) * 2 + 1))
       (\<lambda>new_size.
          rehash (ht_table htab)
            (htab\<lparr>ht_table := replicate (unat new_size) EMPTY_ENTRY, ht_size := new_size,
                  ht_n_elements := ht_n_elements htab - ht_n_deleted htab, ht_n_deleted := 0\<rparr>))"

definition htab_create :: "u32 \<Rightarrow> ('a \<Rightarrow> u32) \<Rightarrow> ('a \<Rightarrow> 'a \<Rightarrow> bool) \<Rightarrow> bool \<Rightarrow> 'a htab option" where
  "htab_create sz hash_f eq_f del_f =
     map_option
       (\<lambda>sz. \<lparr>ht_table = replicate (unat sz) EMPTY_ENTRY, ht_size = sz, ht_n_elements = 0, ht_n_deleted = 0,
              ht_hash_f = hash_f, ht_eq_f = eq_f, ht_del_f = del_f, ht_released = []\<rparr>)
       (get_higher_prime sz)"

fun entries :: "'a entry list \<Rightarrow> 'a list" where
  "entries [] = []"
| "entries (Entry x # es) = x # entries es"
| "entries (EMPTY_ENTRY # es) = entries es"
| "entries (DELETED_ENTRY # es) = entries es"

definition release_all :: "'a htab \<Rightarrow> 'a htab" where
  "release_all htab =
     (if ht_del_f htab then htab\<lparr>ht_released := ht_released htab @ entries (ht_table htab)\<rparr> else htab)"

definition htab_destroy :: "'a htab \<Rightarrow> 'a list" where
  "htab_destroy htab = ht_released (release_all htab)"

definition htab_empty :: "'a htab \<Rightarrow> 'a htab" where
  "htab_empty htab =
     (let htab = release_all htab in htab\<lparr>ht_table := replicate (unat (ht_size htab)) EMPTY_ENTRY\<rparr>)"

definition htab_clear_slot :: "u32 \<Rightarrow> 'a htab \<Rightarrow> 'a htab" where
  "htab_clear_slot slot htab =
     (let htab =
            (case ht_table htab ! unat slot of
               Entry x \<Rightarrow> if ht_del_f htab then htab\<lparr>ht_released := ht_released htab @ [x]\<rparr> else htab
             | _ \<Rightarrow> htab)
      in htab\<lparr>ht_table := (ht_table htab)[unat slot := DELETED_ENTRY], ht_n_deleted := ht_n_deleted htab + 1\<rparr>)"

text \<open>An entry at which the search for an element ends.\<close>

definition stops :: "'a htab \<Rightarrow> 'a \<Rightarrow> 'a entry \<Rightarrow> bool" where
  "stops htab elem e = (case e of EMPTY_ENTRY \<Rightarrow> True | DELETED_ENTRY \<Rightarrow> False | Entry x \<Rightarrow> ht_eq_f htab x elem)"

partial_function (option) find_loop :: "'a htab \<Rightarrow> 'a \<Rightarrow> u32 \<Rightarrow> u32 \<Rightarrow> 'a entry option" where
  "find_loop htab elem step idx =
     (let idx = next_idx (ht_size htab) step idx; e = ht_table htab ! unat idx
      in if stops htab elem e then Some e else find_loop htab elem step idx)"

declare find_loop.simps [code]

definition htab_find_with_hash :: "'a htab \<Rightarrow> 'a \<Rightarrow> u32 \<Rightarrow> 'a entry option" where
  "htab_find_with_hash htab elem hash =
     (let idx = hash mod ht_size htab; e = ht_table htab ! unat idx
      in if stops htab elem e then Some e else find_loop htab elem (1 + hash mod (ht_size htab - 2)) idx)"

definition htab_find :: "'a htab \<Rightarrow> 'a \<Rightarrow> 'a entry option" where
  "htab_find htab elem = htab_find_with_hash htab elem (ht_hash_f htab elem)"

text \<open>
  The search for a slot ends with the index and the first deleted slot on the way, if any.
\<close>

partial_function (option) find_slot_loop ::
  "'a htab \<Rightarrow> 'a \<Rightarrow> u32 \<Rightarrow> u32 option \<Rightarrow> u32 \<Rightarrow> (u32 \<times> u32 option) option" where
  "find_slot_loop htab elem step first_deleted idx =
     (let idx = next_idx (ht_size htab) step idx; e = ht_table htab ! unat idx
      in if stops htab elem e then Some (idx, first_deleted)
         else find_slot_loop htab elem step
                (if e = DELETED_ENTRY \<and> first_deleted = None then Some idx else first_deleted) idx)"

declare find_slot_loop.simps [code]

definition htab_find_slot_with_hash ::
  "'a htab \<Rightarrow> 'a \<Rightarrow> u32 \<Rightarrow> insert \<Rightarrow> (u32 option \<times> 'a htab) option" where
  "htab_find_slot_with_hash htab elem hash ins =
     Option.bind (if ins = INSERT \<and> ht_size htab * 2 \<le> ht_n_elements htab * 3 then htab_expand htab else Some htab)
       (\<lambda>htab.
          let idx = hash mod ht_size htab; e = ht_table htab ! unat idx
          in Option.bind
               (if stops htab elem e then Some (idx, None)
                else find_slot_loop htab elem (1 + hash mod (ht_size htab - 2))
                       (if e = DELETED_ENTRY then Some idx else None) idx)
               (\<lambda>(idx, first_deleted).
                  if ht_table htab ! unat idx \<noteq> EMPTY_ENTRY then Some (Some idx, htab)
                  else if ins = NO_INSERT then Some (None, htab)
                  else
                    case first_deleted of
                      Some slot \<Rightarrow>
                        Some (Some slot, htab\<lparr>ht_n_deleted := ht_n_deleted htab - 1,
                                ht_table := (ht_table htab)[unat slot := EMPTY_ENTRY]\<rparr>)
                    | None \<Rightarrow> Some (Some idx, htab\<lparr>ht_n_elements := ht_n_elements htab + 1\<rparr>)))"

definition htab_find_slot :: "'a htab \<Rightarrow> 'a \<Rightarrow> insert \<Rightarrow> (u32 option \<times> 'a htab) option" where
  "htab_find_slot htab elem ins = htab_find_slot_with_hash htab elem (ht_hash_f htab elem) ins"

text \<open>The slots a loop over the table visits, when the body of the loop changes no slot but the one it is at.\<close>

definition HTAB_FOR_EACH_SLOT :: "'a htab \<Rightarrow> (u32 list \<times> 'a htab) option" where
  "HTAB_FOR_EACH_SLOT htab =
     map_option
       (\<lambda>htab. (filter (\<lambda>i. case ht_table htab ! unat i of Entry x \<Rightarrow> True | _ \<Rightarrow> False)
                  (map of_nat [0..<unat (ht_size htab)]), htab))
       (if (ht_n_elements htab - ht_n_deleted htab) * 8 < ht_size htab then htab_expand htab else Some htab)"

text \<open>What the clients of the table do: store an element in the slot found for it, and clear the slot of an element.\<close>

definition ht_insert :: "'a \<Rightarrow> 'a htab \<Rightarrow> 'a htab option" where
  "ht_insert x htab =
     Option.bind (htab_find_slot htab x INSERT)
       (\<lambda>(slot, htab). map_option (\<lambda>slot. htab\<lparr>ht_table := (ht_table htab)[unat slot := Entry x]\<rparr>) slot)"

definition ht_delete :: "'a \<Rightarrow> 'a htab \<Rightarrow> 'a htab option" where
  "ht_delete x htab =
     map_option (\<lambda>(slot, htab). case slot of Some slot \<Rightarrow> htab_clear_slot slot htab | None \<Rightarrow> htab)
       (htab_find_slot htab x NO_INSERT)"


section \<open>Probe sequences\<close>

definition probe :: "'a htab \<Rightarrow> u32 \<Rightarrow> nat \<Rightarrow> nat" where
  "probe htab hash k =
     (let n = unat (ht_size htab) in (unat hash mod n + k * (1 + unat hash mod (n - 2))) mod n)"

text \<open>The size is one of the primes, and the memory block has this size.\<close>

definition ht_ok :: "'a htab \<Rightarrow> bool" where
  "ht_ok htab \<longleftrightarrow> ht_size htab \<in> set small_primes \<and> length (ht_table htab) = unat (ht_size htab)"

lemma small_prime_bounds: "p \<in> set small_primes \<Longrightarrow> 7 \<le> unat p \<and> unat p \<le> 1048573"
  by (auto simp: small_primes_def primes_def)

lemma ht_ok_bounds: "ht_ok htab \<Longrightarrow> 7 \<le> unat (ht_size htab) \<and> unat (ht_size htab) \<le> 1048573"
  by (simp add: ht_ok_def small_prime_bounds)

lemma inj_steps:
  assumes "is_prime n" "0 < s" "s < n"
  shows "inj_on (\<lambda>k. (c + k * s) mod n) {..<n}"
proof (rule inj_onI)
  fix k l assume kl: "k \<in> {..<n}" "l \<in> {..<n}" and eq: "(c + k * s) mod n = (c + l * s) mod n"
  have "int ((c + k * s) mod n) = int ((c + l * s) mod n)" using eq by simp
  then have "int (c + k * s) mod int n = int (c + l * s) mod int n" by (simp only: zmod_int)
  then have "int n dvd int (c + k * s) - int (c + l * s)" by (simp only: mod_eq_dvd_iff)
  then have "int n dvd (int k - int l) * int s" by (simp add: algebra_simps)
  moreover have "coprime (int n) (int s)" using is_prime_coprime [OF assms] by (simp add: coprime_commute)
  ultimately have "int n dvd int k - int l" by (simp add: coprime_dvd_mult_left_iff)
  moreover have "\<bar>int k - int l\<bar> < int n" using kl by auto
  ultimately show "k = l" using zdvd_not_zless [of "\<bar>int k - int l\<bar>" "int n"] by (cases "k = l") auto
qed

lemma probe_less [simp]: "ht_ok htab \<Longrightarrow> probe htab hash k < unat (ht_size htab)"
  using ht_ok_bounds [of htab] by (auto simp: probe_def Let_def)

lemma unat_probe [simp]:
  assumes "ht_ok htab"
  shows "unat (of_nat (probe htab hash k) :: u32) = probe htab hash k"
  using probe_less [OF assms, of hash k] ht_ok_bounds [OF assms] by (simp add: unat_of_nat)

text \<open>A probe sequence visits every slot.\<close>

lemma probe_all:
  assumes ok: "ht_ok htab" and i: "i < unat (ht_size htab)"
  shows "\<exists>k < unat (ht_size htab). probe htab hash k = i"
proof -
  let ?n = "unat (ht_size htab)"
  have prime: "is_prime ?n" using ok by (simp add: ht_ok_def small_primes_prime)
  have "unat hash mod (?n - 2) < ?n - 2" using ht_ok_bounds [OF ok] by simp
  then have "0 < 1 + unat hash mod (?n - 2)" "1 + unat hash mod (?n - 2) < ?n" by linarith+
  then have inj: "inj_on (probe htab hash) {..<?n}"
    unfolding probe_def [abs_def] Let_def by (rule inj_steps [OF prime])
  have "probe htab hash ` {..<?n} = {..<?n}"
    by (rule endo_inj_surj [OF _ _ inj]) (use ok in auto)
  then show ?thesis using i by (metis imageE lessThan_iff)
qed

lemma probe_0: "ht_ok htab \<Longrightarrow> unat (hash mod ht_size htab) = probe htab hash 0"
  by (simp add: probe_def Let_def unat_mod)

lemma step_bounds:
  assumes "ht_ok htab"
  shows "unat (1 + hash mod (ht_size htab - 2)) = 1 + unat hash mod (unat (ht_size htab) - 2)"
    and "unat hash mod (unat (ht_size htab) - 2) < unat (ht_size htab) - 2"
proof -
  have n: "7 \<le> unat (ht_size htab)" using ht_ok_bounds [OF assms] by simp
  then have "unat (ht_size htab - 2) = unat (ht_size htab) - 2" by (subst unat_sub) (simp_all add: word_le_nat_alt)
  then have m: "unat (hash mod (ht_size htab - 2)) = unat hash mod (unat (ht_size htab) - 2)" by (simp add: unat_mod)
  show less: "unat hash mod (unat (ht_size htab) - 2) < unat (ht_size htab) - 2" using n by simp
  have "1 + unat (hash mod (ht_size htab - 2)) < 1048573" unfolding m using less ht_ok_bounds [OF assms] by linarith
  then show "unat (1 + hash mod (ht_size htab - 2)) = 1 + unat hash mod (unat (ht_size htab) - 2)"
    using m by (simp add: unat_word_ariths)
qed

lemma next_idx:
  assumes ok: "ht_ok htab" and idx: "unat idx = probe htab hash k"
  shows "unat (next_idx (ht_size htab) (1 + hash mod (ht_size htab - 2)) idx) = probe htab hash (Suc k)"
proof -
  let ?n = "unat (ht_size htab)" and ?s = "1 + unat hash mod (unat (ht_size htab) - 2)"
  let ?step = "1 + hash mod (ht_size htab - 2)"
  have n: "7 \<le> ?n" "?n \<le> 1048573" using ht_ok_bounds [OF ok] by auto
  have s: "unat ?step = ?s" "?s < ?n" using step_bounds [OF ok, of hash] n by linarith+
  have i: "unat idx < ?n" using idx ok by simp
  then have sum: "unat (idx + ?step) = unat idx + ?s" using s n by (simp add: unat_word_ariths)
  have "unat (next_idx (ht_size htab) ?step idx) = (unat idx + ?s) mod ?n"
  proof (cases "ht_size htab \<le> idx + ?step")
    case True
    then have ge: "?n \<le> unat idx + ?s" using sum by (simp add: word_le_nat_alt)
    then have "unat (idx + ?step - ht_size htab) = unat idx + ?s - ?n" using sum True by (subst unat_sub) simp_all
    then show ?thesis using True ge i s by (simp add: next_idx_def le_mod_geq)
  next
    case False
    then have "unat idx + ?s < ?n" using sum by (simp add: word_le_nat_alt)
    then show ?thesis using False sum by (simp add: next_idx_def)
  qed
  also have "\<dots> = probe htab hash (Suc k)"
  proof -
    have "(c + k * s + s) mod n = (c + Suc k * s) mod n" for c s n :: nat by (simp add: ac_simps)
    then show ?thesis unfolding idx probe_def Let_def mod_add_left_eq .
  qed
  finally show ?thesis .
qed

lemma probe_least:
  assumes "\<exists>k. P (probe htab hash k)"
  obtains k where "P (probe htab hash k)" "\<forall>j < k. \<not> P (probe htab hash j)"
  using that exists_least_iff [of "\<lambda>k. P (probe htab hash k)"] assms by blast

text \<open>The loops stop at the first index of the sequence that satisfies their condition.\<close>

lemma find_loop:
  assumes ok: "ht_ok htab" and stop: "stops htab elem (ht_table htab ! probe htab hash m)"
    and idx: "unat idx = probe htab hash k" "k < m"
    and go: "\<And>j. k < j \<Longrightarrow> j < m \<Longrightarrow> \<not> stops htab elem (ht_table htab ! probe htab hash j)"
  shows "find_loop htab elem (1 + hash mod (ht_size htab - 2)) idx = Some (ht_table htab ! probe htab hash m)"
  using idx go
proof (induction "m - k" arbitrary: k idx)
  case (Suc d)
  note nx = next_idx [OF ok Suc.prems(1)]
  show ?case
  proof (cases "Suc k = m")
    case True
    then show ?thesis using nx stop by (subst find_loop.simps) (simp add: Let_def)
  next
    case False
    then have "\<not> stops htab elem (ht_table htab ! probe htab hash (Suc k))" using Suc.prems by simp
    then have "find_loop htab elem (1 + hash mod (ht_size htab - 2)) idx =
        find_loop htab elem (1 + hash mod (ht_size htab - 2)) (next_idx (ht_size htab) (1 + hash mod (ht_size htab - 2)) idx)"
      using nx by (subst find_loop.simps) (simp add: Let_def)
    then show ?thesis using Suc.hyps(1) [OF _ nx] Suc.hyps(2) Suc.prems False by simp
  qed
qed simp

lemma empty_slot_loop:
  assumes ok: "ht_ok htab" and stop: "ht_table htab ! probe htab hash m = EMPTY_ENTRY"
    and idx: "unat idx = probe htab hash k" "k < m"
    and go: "\<And>j. k < j \<Longrightarrow> j < m \<Longrightarrow> ht_table htab ! probe htab hash j \<noteq> EMPTY_ENTRY"
  shows "empty_slot_loop htab (1 + hash mod (ht_size htab - 2)) idx = Some (of_nat (probe htab hash m))"
  using idx go
proof (induction "m - k" arbitrary: k idx)
  case (Suc d)
  note nx = next_idx [OF ok Suc.prems(1)]
  show ?case
  proof (cases "Suc k = m")
    case True
    then show ?thesis using nx stop by (subst empty_slot_loop.simps) (auto simp: Let_def simp flip: nx)
  next
    case False
    then have "ht_table htab ! probe htab hash (Suc k) \<noteq> EMPTY_ENTRY" using Suc.prems by simp
    then have "empty_slot_loop htab (1 + hash mod (ht_size htab - 2)) idx =
        empty_slot_loop htab (1 + hash mod (ht_size htab - 2)) (next_idx (ht_size htab) (1 + hash mod (ht_size htab - 2)) idx)"
      using nx by (subst empty_slot_loop.simps) (simp add: Let_def)
    then show ?thesis using Suc.hyps(1) [OF _ nx] Suc.hyps(2) Suc.prems False by simp
  qed
qed simp

text \<open>The first deleted slot of a sequence before \<open>m\<close>.\<close>

definition first_deleted_of :: "'a htab \<Rightarrow> u32 \<Rightarrow> nat \<Rightarrow> u32 option" where
  "first_deleted_of htab hash m =
     (case filter (\<lambda>k. ht_table htab ! probe htab hash k = DELETED_ENTRY) [0..<m] of
        [] \<Rightarrow> None | k # _ \<Rightarrow> Some (of_nat (probe htab hash k)))"

lemma first_deleted_Suc:
  "first_deleted_of htab hash (Suc m) =
     (if ht_table htab ! probe htab hash m = DELETED_ENTRY \<and> first_deleted_of htab hash m = None
      then Some (of_nat (probe htab hash m)) else first_deleted_of htab hash m)"
  by (auto simp: first_deleted_of_def split: list.splits)

lemma first_deleted_0 [simp]: "first_deleted_of htab hash 0 = None"
  by (simp add: first_deleted_of_def)

lemma find_slot_loop:
  assumes ok: "ht_ok htab" and stop: "stops htab elem (ht_table htab ! probe htab hash m)"
    and idx: "unat idx = probe htab hash k" "k < m"
    and go: "\<And>j. k < j \<Longrightarrow> j < m \<Longrightarrow> \<not> stops htab elem (ht_table htab ! probe htab hash j)"
  shows "find_slot_loop htab elem (1 + hash mod (ht_size htab - 2)) (first_deleted_of htab hash (Suc k)) idx =
    Some (of_nat (probe htab hash m), first_deleted_of htab hash m)"
  using idx go
proof (induction "m - k" arbitrary: k idx)
  case (Suc d)
  let ?next = "next_idx (ht_size htab) (1 + hash mod (ht_size htab - 2)) idx"
  note nx = next_idx [OF ok Suc.prems(1)]
  have of: "?next = of_nat (probe htab hash (Suc k))" by (simp flip: nx)
  show ?case
  proof (cases "Suc k = m")
    case True
    then show ?thesis using nx stop of by (subst find_slot_loop.simps) (simp add: Let_def)
  next
    case False
    then have "\<not> stops htab elem (ht_table htab ! probe htab hash (Suc k))" using Suc.prems by simp
    then have "find_slot_loop htab elem (1 + hash mod (ht_size htab - 2)) (first_deleted_of htab hash (Suc k)) idx =
        find_slot_loop htab elem (1 + hash mod (ht_size htab - 2)) (first_deleted_of htab hash (Suc (Suc k))) ?next"
      using nx of by (subst find_slot_loop.simps) (simp add: Let_def first_deleted_Suc [of _ _ "Suc k"])
    then show ?thesis using Suc.hyps(1) [OF _ nx] Suc.hyps(2) Suc.prems False by simp
  qed
qed simp


section \<open>Invariant\<close>

definition n_deleted :: "'a entry list \<Rightarrow> nat" where
  "n_deleted es = length (filter ((=) DELETED_ENTRY) es)"

definition n_empty :: "'a entry list \<Rightarrow> nat" where
  "n_empty es = length (filter ((=) EMPTY_ENTRY) es)"

lemma entries_append [simp]: "entries (es @ fs) = entries es @ entries fs"
  by (induction es rule: entries.induct) auto

lemma counts: "length es = length (entries es) + n_deleted es + n_empty es"
  unfolding n_deleted_def n_empty_def by (induction es rule: entries.induct) auto

lemma in_entries: "x \<in> set (entries es) \<longleftrightarrow> Entry x \<in> set es"
  by (induction es rule: entries.induct) auto

lemma entries_replicate [simp]: "entries (replicate n EMPTY_ENTRY) = []"
  by (induction n) auto

text \<open>What a store to a slot does to the entries and the counts.\<close>

definition old_entry :: "'a entry \<Rightarrow> 'a multiset" where
  "old_entry e = (case e of Entry x \<Rightarrow> {#x#} | _ \<Rightarrow> {#})"

lemma mset_entries_update:
  assumes "i < length es"
  shows "mset (entries (es[i := e])) + old_entry (es ! i) = mset (entries es) + old_entry e"
proof -
  have one: "mset (entries (xs @ f # ys)) = mset (entries xs) + old_entry f + mset (entries ys)" for xs ys f
    by (cases f) (simp_all add: old_entry_def)
  have "es = take i es @ es ! i # drop (Suc i) es" using assms by (rule id_take_nth_drop)
  then have "mset (entries es) = mset (entries (take i es)) + old_entry (es ! i) + mset (entries (drop (Suc i) es))"
    using one [of "take i es" "es ! i" "drop (Suc i) es"] by simp
  then show ?thesis using assms by (simp add: upd_conv_take_nth_drop one del: entries_append)
qed

lemma n_deleted_update:
  assumes "i < length es"
  shows "n_deleted (es[i := e]) + (if es ! i = DELETED_ENTRY then 1 else 0) = n_deleted es + (if e = DELETED_ENTRY then 1 else 0)"
proof -
  have one: "n_deleted (xs @ f # ys) = n_deleted xs + (if f = DELETED_ENTRY then 1 else 0) + n_deleted ys" for xs ys :: "'a entry list" and f
    by (auto simp: n_deleted_def)
  have "es = take i es @ es ! i # drop (Suc i) es" using assms by (rule id_take_nth_drop)
  then have "n_deleted es = n_deleted (take i es) + (if es ! i = DELETED_ENTRY then 1 else 0) + n_deleted (drop (Suc i) es)"
    using one [of "take i es" "es ! i" "drop (Suc i) es"] by simp
  then show ?thesis using assms by (simp add: upd_conv_take_nth_drop one)
qed


text \<open>Every element is found by its probe sequence before the first empty entry.\<close>

definition reachable :: "'a htab \<Rightarrow> u32 \<Rightarrow> nat \<Rightarrow> bool" where
  "reachable htab hash i \<longleftrightarrow>
     (\<exists>k. probe htab hash k = i \<and> (\<forall>j < k. ht_table htab ! probe htab hash j \<noteq> EMPTY_ENTRY))"

definition ht_reach :: "'a htab \<Rightarrow> bool" where
  "ht_reach htab \<longleftrightarrow>
     (\<forall>i x. i < unat (ht_size htab) \<longrightarrow> ht_table htab ! i = Entry x \<longrightarrow> reachable htab (ht_hash_f htab x) i)"

definition ht_mset :: "'a htab \<Rightarrow> 'a multiset" where
  "ht_mset htab = mset (entries (ht_table htab))"

text \<open>
  The functions of the client: on the elements that the client uses (those that satisfy \<open>P\<close>), equal elements have
  equal hashes.
\<close>

definition ht_funs :: "('a \<Rightarrow> bool) \<Rightarrow> 'a htab \<Rightarrow> bool" where
  "ht_funs P htab \<longleftrightarrow> equivp (ht_eq_f htab) \<and> (\<forall>y \<in># ht_mset htab. P y) \<and>
     (\<forall>x y. P x \<longrightarrow> P y \<longrightarrow> ht_eq_f htab x y \<longrightarrow> ht_hash_f htab x = ht_hash_f htab y)"

text \<open>No two elements are equal.\<close>

definition uniq :: "('a \<Rightarrow> 'a \<Rightarrow> bool) \<Rightarrow> 'a multiset \<Rightarrow> bool" where
  "uniq eq M \<longleftrightarrow> (\<forall>x. size (filter_mset (\<lambda>y. eq y x) M) \<le> 1)"

text \<open>The counters bound the numbers of elements and of deleted entries, and leave an empty entry.\<close>

definition ht_counts :: "'a htab \<Rightarrow> bool" where
  "ht_counts htab \<longleftrightarrow> n_deleted (ht_table htab) \<le> unat (ht_n_deleted htab)
     \<and> length (entries (ht_table htab)) + unat (ht_n_deleted htab) \<le> unat (ht_n_elements htab)
     \<and> unat (ht_n_elements htab) < unat (ht_size htab)"

definition ht_inv :: "'a htab \<Rightarrow> bool" where
  "ht_inv htab \<longleftrightarrow> ht_ok htab \<and> ht_counts htab \<and> ht_reach htab \<and> uniq (ht_eq_f htab) (ht_mset htab)"

lemma ht_inv_simps:
  assumes "ht_inv htab"
  shows "ht_ok htab" "ht_counts htab" "ht_reach htab" "uniq (ht_eq_f htab) (ht_mset htab)"
  using assms by (simp_all add: ht_inv_def)

lemma in_ht_mset: "x \<in># ht_mset htab \<longleftrightarrow> (\<exists>i < length (ht_table htab). ht_table htab ! i = Entry x)"
  unfolding ht_mset_def set_mset_mset in_entries by (auto simp: in_set_conv_nth)

lemma exists_empty:
  assumes "ht_ok htab" "n_empty (ht_table htab) > 0"
  shows "\<exists>k. ht_table htab ! probe htab hash k = EMPTY_ENTRY"
proof -
  have "EMPTY_ENTRY \<in> set (ht_table htab)"
    using assms(2) by (auto simp: n_empty_def filter_empty_conv)
  then obtain i where "i < unat (ht_size htab)" "ht_table htab ! i = EMPTY_ENTRY"
    using assms(1) by (auto simp: in_set_conv_nth ht_ok_def)
  then show ?thesis using probe_all [OF assms(1)] by metis
qed

lemma counts_empty: "ht_ok htab \<Longrightarrow> ht_counts htab \<Longrightarrow> n_empty (ht_table htab) > 0"
  using counts [of "ht_table htab"] by (auto simp: ht_counts_def ht_ok_def)

lemma stops_Empty [simp]: "stops htab x EMPTY_ENTRY" "\<not> stops htab x DELETED_ENTRY" "stops htab x (Entry y) = ht_eq_f htab y x"
  by (simp_all add: stops_def)

lemma uniq_index:
  assumes "uniq eq (mset (entries es))" "i < length es" "j < length es" "es ! i = Entry x" "es ! j = Entry y" "eq x z" "eq y z"
  shows "i = j"
proof (rule ccontr)
  assume neq: "i \<noteq> j"
  have "mset (entries (es[i := EMPTY_ENTRY])) + {#x#} = mset (entries es)"
    using mset_entries_update [OF assms(2), of EMPTY_ENTRY] assms(4) by (simp add: old_entry_def)
  moreover have "mset (entries (es[i := EMPTY_ENTRY, j := EMPTY_ENTRY])) + {#y#} = mset (entries (es[i := EMPTY_ENTRY]))"
    using mset_entries_update [of j "es[i := EMPTY_ENTRY]" EMPTY_ENTRY] assms(3,5) neq by (simp add: old_entry_def)
  ultimately have "mset (entries es) = mset (entries (es[i := EMPTY_ENTRY, j := EMPTY_ENTRY])) + {#y#} + {#x#}" by simp
  then have "size (filter_mset (\<lambda>y. eq y z) (mset (entries es))) \<ge> 2" using assms(6,7) by simp
  then show False using assms(1) unfolding uniq_def by (metis Suc_1 not_less_eq_eq)
qed

text \<open>Where the search for an element ends.\<close>

lemma search:
  assumes inv: "ht_inv htab" and funs: "ht_funs P htab" and P: "P x"
  obtains m where "stops htab x (ht_table htab ! probe htab (ht_hash_f htab x) m)"
    and "\<forall>j < m. \<not> stops htab x (ht_table htab ! probe htab (ht_hash_f htab x) j)"
    and "\<And>y. y \<in># ht_mset htab \<Longrightarrow> ht_eq_f htab y x \<Longrightarrow> ht_table htab ! probe htab (ht_hash_f htab x) m = Entry y"
proof -
  note inv' = ht_inv_simps [OF inv]
  let ?h = "ht_hash_f htab x"
  have "\<exists>k. stops htab x (ht_table htab ! probe htab ?h k)"
    using exists_empty [OF inv'(1) counts_empty [OF inv'(1,2)]] by (metis stops_Empty(1))
  then obtain m where m: "stops htab x (ht_table htab ! probe htab ?h m)" "\<forall>j < m. \<not> stops htab x (ht_table htab ! probe htab ?h j)"
    using probe_least [of "\<lambda>i. stops htab x (ht_table htab ! i)" htab ?h] by blast
  moreover have "ht_table htab ! probe htab ?h m = Entry y" if y: "y \<in># ht_mset htab" "ht_eq_f htab y x" for y
  proof -
    obtain i where i: "i < length (ht_table htab)" "ht_table htab ! i = Entry y" using y(1) by (auto simp: in_ht_mset)
    have "ht_hash_f htab y = ?h" using funs y P by (simp add: ht_funs_def)
    moreover have "reachable htab (ht_hash_f htab y) i" using inv'(1,3) i by (simp add: ht_reach_def ht_ok_def)
    ultimately obtain k where k: "probe htab ?h k = i" "\<forall>j < k. ht_table htab ! probe htab ?h j \<noteq> EMPTY_ENTRY"
      by (auto simp: reachable_def)
    have "m \<le> k" using k(1) m(2) i(2) y(2) by (metis not_less stops_Empty(3))
    show ?thesis
    proof (cases "ht_table htab ! probe htab ?h m")
      case EMPTY_ENTRY
      then show ?thesis using k i(2) \<open>m \<le> k\<close> by (metis le_neq_implies_less)
    next
      case DELETED_ENTRY
      then show ?thesis using m(1) by simp
    next
      case (Entry z)
      have "probe htab ?h m < length (ht_table htab)" using probe_less [OF inv'(1)] inv'(1) by (simp add: ht_ok_def)
      moreover have "ht_eq_f htab z x" using m(1) Entry by simp
      ultimately have "probe htab ?h m = i"
        using uniq_index [of "ht_eq_f htab" "ht_table htab" "probe htab ?h m" i z y x] inv'(4) i Entry y(2) by (simp add: ht_mset_def)
      then show ?thesis using i(2) by simp
    qed
  qed
  ultimately show thesis using that by blast
qed


section \<open>Searching\<close>

lemma htab_find_at:
  assumes ok: "ht_ok htab" and m: "stops htab x (ht_table htab ! probe htab hash m)"
    "\<forall>j < m. \<not> stops htab x (ht_table htab ! probe htab hash j)"
  shows "htab_find_with_hash htab x hash = Some (ht_table htab ! probe htab hash m)"
proof (cases m)
  case 0
  then show ?thesis using m(1) by (simp add: htab_find_with_hash_def probe_0 [OF ok] Let_def)
next
  case (Suc k)
  then have "\<not> stops htab x (ht_table htab ! probe htab hash 0)" using m(2) by simp
  moreover have "find_loop htab x (1 + hash mod (ht_size htab - 2)) (hash mod ht_size htab) = Some (ht_table htab ! probe htab hash m)"
    by (rule find_loop [OF ok m(1) probe_0 [OF ok]]) (use Suc m(2) in auto)
  ultimately show ?thesis by (simp add: htab_find_with_hash_def probe_0 [OF ok] Let_def)
qed

lemma htab_find_empty_slot_at:
  assumes ok: "ht_ok htab" and m: "ht_table htab ! probe htab hash m = EMPTY_ENTRY"
    "\<forall>j < m. ht_table htab ! probe htab hash j \<noteq> EMPTY_ENTRY"
  shows "htab_find_empty_slot htab hash = Some (of_nat (probe htab hash m))"
proof (cases m)
  case 0
  then have "hash mod ht_size htab = of_nat (probe htab hash m)" by (simp flip: probe_0 [OF ok])
  then show ?thesis using m(1) 0 ok by (simp add: htab_find_empty_slot_def Let_def)
next
  case (Suc k)
  then have "ht_table htab ! probe htab hash 0 \<noteq> EMPTY_ENTRY" using m(2) by simp
  moreover have "empty_slot_loop htab (1 + hash mod (ht_size htab - 2)) (hash mod ht_size htab) = Some (of_nat (probe htab hash m))"
    by (rule empty_slot_loop [OF ok m(1) probe_0 [OF ok]]) (use Suc m(2) in auto)
  ultimately show ?thesis by (simp add: htab_find_empty_slot_def probe_0 [OF ok] Let_def)
qed

lemma find_slot_at:
  assumes ok: "ht_ok htab" and m: "stops htab x (ht_table htab ! probe htab hash m)"
    "\<forall>j < m. \<not> stops htab x (ht_table htab ! probe htab hash j)"
  shows "(let idx = hash mod ht_size htab; e = ht_table htab ! unat idx
          in if stops htab x e then Some (idx, None)
             else find_slot_loop htab x (1 + hash mod (ht_size htab - 2)) (if e = DELETED_ENTRY then Some idx else None) idx) =
    Some (of_nat (probe htab hash m), first_deleted_of htab hash m)"
proof -
  have idx: "hash mod ht_size htab = of_nat (probe htab hash 0)" by (simp flip: probe_0 [OF ok])
  show ?thesis
  proof (cases m)
    case 0
    then show ?thesis using m(1) idx ok by (simp add: Let_def)
  next
    case (Suc k)
    then have "\<not> stops htab x (ht_table htab ! probe htab hash 0)" using m(2) by simp
    moreover have "find_slot_loop htab x (1 + hash mod (ht_size htab - 2)) (first_deleted_of htab hash (Suc 0)) (hash mod ht_size htab) =
        Some (of_nat (probe htab hash m), first_deleted_of htab hash m)"
      by (rule find_slot_loop [OF ok m(1) probe_0 [OF ok]]) (use Suc m(2) in auto)
    ultimately show ?thesis using idx ok by (simp add: Let_def first_deleted_Suc cong: if_cong)
  qed
qed

text \<open>A lookup returns the element equal to the given one, and an empty entry if there is none.\<close>

lemma htab_find:
  assumes inv: "ht_inv htab" and funs: "ht_funs P htab" and P: "P x"
  shows "\<exists>e. htab_find htab x = Some e \<and>
    (case e of EMPTY_ENTRY \<Rightarrow> (\<forall>y \<in># ht_mset htab. \<not> ht_eq_f htab y x)
     | DELETED_ENTRY \<Rightarrow> False | Entry y \<Rightarrow> y \<in># ht_mset htab \<and> ht_eq_f htab y x)"
proof -
  let ?h = "ht_hash_f htab x"
  obtain m where m: "stops htab x (ht_table htab ! probe htab ?h m)"
      "\<forall>j < m. \<not> stops htab x (ht_table htab ! probe htab ?h j)"
    and found: "\<And>y. y \<in># ht_mset htab \<Longrightarrow> ht_eq_f htab y x \<Longrightarrow> ht_table htab ! probe htab ?h m = Entry y"
    using search [OF inv funs P] by metis
  have ok: "ht_ok htab" using inv by (simp add: ht_inv_def)
  have "probe htab ?h m < length (ht_table htab)" using probe_less [OF ok] ok by (simp add: ht_ok_def)
  then have there: "y \<in># ht_mset htab" if "ht_table htab ! probe htab ?h m = Entry y" for y
    using that unfolding in_ht_mset by blast
  have found_eq: "htab_find htab x = Some (ht_table htab ! probe htab ?h m)"
    unfolding htab_find_def by (rule htab_find_at [OF ok m])
  show ?thesis
  proof (cases "ht_table htab ! probe htab ?h m")
    case EMPTY_ENTRY
    then have "\<forall>y \<in># ht_mset htab. \<not> ht_eq_f htab y x" using found by (metis entry.distinct(3))
    then show ?thesis using found_eq EMPTY_ENTRY by simp
  next
    case DELETED_ENTRY
    then show ?thesis using m(1) by simp
  next
    case (Entry y)
    then show ?thesis using m(1) there [OF Entry] found_eq by simp
  qed
qed


section \<open>Storing\<close>

lemma probe_update [simp]:
  "probe (ht_table_update f htab) = probe htab"
  "probe (ht_n_elements_update g htab) = probe htab"
  "probe (ht_n_deleted_update g htab) = probe htab"
  "probe (ht_released_update r htab) = probe htab"
  by (simp_all add: probe_def [abs_def])

lemma ht_reach_update [simp]:
  "ht_reach (ht_n_elements_update g htab) = ht_reach htab"
  "ht_reach (ht_n_deleted_update g htab) = ht_reach htab"
  "ht_reach (ht_released_update r htab) = ht_reach htab"
  by (simp_all add: ht_reach_def reachable_def)

text \<open>A store of an element to a slot that its probe sequence reaches, or a deletion, keeps the other elements reachable.\<close>

lemma ht_reach_store:
  assumes ok: "ht_ok htab" and reach: "ht_reach htab" and i: "i < unat (ht_size htab)" and e: "e \<noteq> EMPTY_ENTRY"
    and new: "\<And>x. e = Entry x \<Longrightarrow> reachable htab (ht_hash_f htab x) i"
  shows "ht_reach (htab\<lparr>ht_table := (ht_table htab)[i := e]\<rparr>)"
proof -
  have keep: "reachable (htab\<lparr>ht_table := (ht_table htab)[i := e]\<rparr>) hash j" if "reachable htab hash j" for hash j
    using that e ok i by (fastforce simp: reachable_def nth_list_update ht_ok_def)
  have "reachable htab (ht_hash_f htab x) j" if "j < unat (ht_size htab)" "(ht_table htab)[i := e] ! j = Entry x" for j x
    using that reach new ok i by (cases "j = i") (auto simp: ht_reach_def ht_ok_def)
  then show ?thesis using keep by (simp add: ht_reach_def)
qed

lemma uniq_add:
  assumes "uniq eq M" "equivp eq" "\<forall>y \<in># M. \<not> eq y x"
  shows "uniq eq (add_mset x M)"
  unfolding uniq_def
proof
  fix z
  show "size (filter_mset (\<lambda>y. eq y z) (add_mset x M)) \<le> 1"
  proof (cases "eq x z")
    case True
    then have "\<forall>y \<in># M. \<not> eq y z" using assms(2,3) by (meson equivp_symp equivp_transp)
    then have "filter_mset (\<lambda>y. eq y z) M = filter_mset (\<lambda>_. False) M" by (simp cong: filter_mset_cong)
    then show ?thesis using True by simp
  next
    case False
    then show ?thesis using assms(1) by (simp add: uniq_def)
  qed
qed

lemma uniq_subset: "uniq eq M \<Longrightarrow> N \<subseteq># M \<Longrightarrow> uniq eq N"
  unfolding uniq_def by (meson le_trans multiset_filter_mono size_mset_mono)

text \<open>An element is stored at the first empty slot of its sequence.\<close>

lemma ht_store_new:
  assumes ok: "ht_ok htab" and reach: "ht_reach htab" and i: "i < unat (ht_size htab)"
    and free: "\<forall>y. ht_table htab ! i \<noteq> Entry y" and r: "reachable htab (ht_hash_f htab x) i"
  shows "ht_ok (htab\<lparr>ht_table := (ht_table htab)[i := Entry x]\<rparr>)"
    and "ht_reach (htab\<lparr>ht_table := (ht_table htab)[i := Entry x]\<rparr>)"
    and "mset (entries ((ht_table htab)[i := Entry x])) = add_mset x (ht_mset htab)"
    and "n_deleted ((ht_table htab)[i := Entry x]) + (if ht_table htab ! i = DELETED_ENTRY then 1 else 0) = n_deleted (ht_table htab)"
proof -
  have i': "i < length (ht_table htab)" using i ok by (simp add: ht_ok_def)
  show "ht_ok (htab\<lparr>ht_table := (ht_table htab)[i := Entry x]\<rparr>)" using ok by (simp add: ht_ok_def)
  show "ht_reach (htab\<lparr>ht_table := (ht_table htab)[i := Entry x]\<rparr>)"
    by (rule ht_reach_store [OF ok reach i]) (use r in auto)
  have "old_entry (ht_table htab ! i) = {#}" using free by (cases "ht_table htab ! i") (auto simp: old_entry_def)
  then show "mset (entries ((ht_table htab)[i := Entry x])) = add_mset x (ht_mset htab)"
    using mset_entries_update [OF i', of "Entry x"] by (simp add: old_entry_def ht_mset_def)
  show "n_deleted ((ht_table htab)[i := Entry x]) + (if ht_table htab ! i = DELETED_ENTRY then 1 else 0) = n_deleted (ht_table htab)"
    using n_deleted_update [OF i', of "Entry x"] by simp
qed


section \<open>Expansion\<close>

text \<open>The new table has no deleted slots, so that the elements fit when their number is below the size.\<close>

lemma rehash:
  assumes "ht_ok htab" "ht_reach htab" "n_deleted (ht_table htab) = 0"
    and "size (ht_mset htab) + length (entries es) < unat (ht_size htab)"
  shows "\<exists>tab. rehash es htab = Some (htab\<lparr>ht_table := tab\<rparr>) \<and> ht_ok (htab\<lparr>ht_table := tab\<rparr>) \<and>
    ht_reach (htab\<lparr>ht_table := tab\<rparr>) \<and> n_deleted tab = 0 \<and> mset (entries tab) = mset (entries es) + ht_mset htab"
  using assms
proof (induction es arbitrary: htab rule: entries.induct)
  case 1
  then show ?case by (intro exI [of _ "ht_table htab"]) (simp add: ht_mset_def)
next
  case (2 x es)
  let ?h = "ht_hash_f htab x"
  have len: "length (ht_table htab) = unat (ht_size htab)" using 2(2) by (simp add: ht_ok_def)
  have "n_empty (ht_table htab) > 0" using counts [of "ht_table htab"] 2(4,5) len by (simp add: ht_mset_def)
  then obtain m where m: "ht_table htab ! probe htab ?h m = EMPTY_ENTRY" "\<forall>j < m. ht_table htab ! probe htab ?h j \<noteq> EMPTY_ENTRY"
    using probe_least [OF exists_empty [OF 2(2)]] by metis
  let ?i = "probe htab ?h m"
  let ?htab = "htab\<lparr>ht_table := (ht_table htab)[?i := Entry x]\<rparr>"
  have slot: "htab_find_empty_slot htab ?h = Some (of_nat ?i)" by (rule htab_find_empty_slot_at [OF 2(2) m])
  have r: "reachable htab ?h ?i" using m(2) by (auto simp: reachable_def)
  have free: "\<forall>y. ht_table htab ! ?i \<noteq> Entry y" using m(1) by simp
  note st = ht_store_new [OF 2(2,3) probe_less [OF 2(2)] free r]
  have "n_deleted (ht_table ?htab) = 0" using st(4) 2(4) m(1) by simp
  moreover have ms: "ht_mset ?htab = add_mset x (ht_mset htab)" using st(3) by (simp add: ht_mset_def)
  moreover have "size (ht_mset ?htab) + length (entries es) < unat (ht_size ?htab)" using 2(5) ms by simp
  ultimately obtain tab where "rehash es ?htab = Some (?htab\<lparr>ht_table := tab\<rparr>)" "ht_ok (?htab\<lparr>ht_table := tab\<rparr>)"
      "ht_reach (?htab\<lparr>ht_table := tab\<rparr>)" "n_deleted tab = 0" "mset (entries tab) = mset (entries es) + ht_mset ?htab"
    using 2(1) [OF st(1,2)] by blast
  then show ?case using slot 2(2) ms by (intro exI [of _ tab]) simp
qed simp_all

definition live :: "'a htab \<Rightarrow> nat" where
  "live htab = unat (ht_n_elements htab) - unat (ht_n_deleted htab)"

lemma live:
  assumes "ht_counts htab"
  shows "unat (ht_n_elements htab - ht_n_deleted htab) = live htab"
  using assms by (subst unat_sub) (auto simp: ht_counts_def live_def word_le_nat_alt)

lemma small_higher_prime:
  assumes "unat n \<le> 1048573"
  shows "\<exists>p. get_higher_prime n = Some p \<and> p \<in> set small_primes \<and> unat n \<le> unat p"
proof -
  have max: "(1048573 :: u32) \<in> set primes" by (simp add: primes_def)
  have "n \<le> 1048573" using assms by (simp add: word_le_nat_alt)
  moreover from this have "n \<le> 2147483647" by (rule order_trans) simp
  ultimately obtain p where p: "get_higher_prime n = Some p" "p \<in> set primes" "n \<le> p" "p \<le> 1048573"
    using get_higher_prime [of n] max by blast
  then have "p \<in> set small_primes" by (auto simp: primes_def small_primes_def)
  then show ?thesis using p by (simp add: word_le_nat_alt)
qed

definition same_client :: "'a htab \<Rightarrow> 'a htab \<Rightarrow> bool" where
  "same_client htab htab' \<longleftrightarrow> ht_hash_f htab' = ht_hash_f htab \<and> ht_eq_f htab' = ht_eq_f htab \<and> ht_del_f htab' = ht_del_f htab"

lemma htab_expand:
  assumes inv: "ht_inv htab" and few: "live htab \<le> 524286"
  shows "\<exists>htab'. htab_expand htab = Some htab' \<and> ht_inv htab' \<and> ht_mset htab' = ht_mset htab \<and> same_client htab htab' \<and>
    ht_released htab' = ht_released htab \<and> live htab' = live htab \<and> 2 * unat (ht_n_elements htab') < unat (ht_size htab')"
proof -
  note inv' = ht_inv_simps [OF inv]
  let ?n = "ht_n_elements htab - ht_n_deleted htab"
  have n: "unat ?n = live htab" by (rule live [OF inv'(2)])
  have "unat (w * 2 + 1) = 2 * unat w + 1" if "unat w \<le> 524286" for w :: u32 using that by (simp add: unat_word_ariths)
  then have "unat (?n * 2 + 1) = 2 * live htab + 1" using n few by metis
  then obtain p where p: "get_higher_prime (?n * 2 + 1) = Some p" "p \<in> set small_primes" "2 * live htab + 1 \<le> unat p"
    using small_higher_prime [of "?n * 2 + 1"] few by auto
  let ?new = "htab\<lparr>ht_table := replicate (unat p) EMPTY_ENTRY, ht_size := p, ht_n_elements := ?n, ht_n_deleted := 0\<rparr>"
  have new: "ht_ok ?new" "ht_reach ?new" "n_deleted (ht_table ?new) = 0" "ht_mset ?new = {#}"
    using p(2) by (simp_all add: ht_ok_def ht_reach_def n_deleted_def ht_mset_def)
  have le: "length (entries (ht_table htab)) \<le> live htab" using inv'(2) by (auto simp: ht_counts_def live_def)
  then have "size (ht_mset ?new) + length (entries (ht_table htab)) < unat (ht_size ?new)" using new(4) p(3) by simp
  from rehash [OF new(1-3) this] obtain tab where tab: "rehash (ht_table htab) ?new = Some (?new\<lparr>ht_table := tab\<rparr>)"
      "ht_ok (?new\<lparr>ht_table := tab\<rparr>)" "ht_reach (?new\<lparr>ht_table := tab\<rparr>)" "n_deleted tab = 0"
      "mset (entries tab) = ht_mset htab"
    using new(4) by (auto simp: ht_mset_def)
  have "length (entries tab) = length (entries (ht_table htab))" using tab(5) by (metis ht_mset_def size_mset)
  then have counts: "ht_counts (?new\<lparr>ht_table := tab\<rparr>)" using tab(4) le n p(3) by (simp add: ht_counts_def)
  have "htab_expand htab = Some (?new\<lparr>ht_table := tab\<rparr>)" using p(1) tab(1) by (simp add: htab_expand_def)
  moreover have "ht_inv (?new\<lparr>ht_table := tab\<rparr>)"
    unfolding ht_inv_def using tab counts inv'(4) by (simp add: ht_mset_def)
  ultimately show ?thesis using tab(5) n p(3) by (simp add: ht_mset_def same_client_def live_def)
qed


section \<open>Insertion and deletion\<close>

lemma uniq_split:
  assumes "uniq eq M" "y \<in># M" "eq y x"
  shows "M = add_mset y (filter_mset (\<lambda>z. \<not> eq z x) M)"
proof -
  have "y \<in># filter_mset (\<lambda>z. eq z x) M" using assms(2,3) by simp
  then obtain N where N: "filter_mset (\<lambda>z. eq z x) M = add_mset y N" by (meson multi_member_split)
  then have "size (add_mset y N) \<le> 1" using assms(1) by (metis uniq_def)
  then have "N = {#}" by simp
  then show ?thesis using N multiset_partition [of M "\<lambda>z. eq z x"] by simp
qed

lemma filter_none: "\<forall>y \<in># M. \<not> eq y x \<Longrightarrow> filter_mset (\<lambda>z. \<not> eq z x) M = M"
  by (simp add: filter_mset_eq_conv)

lemma stops_reachable:
  assumes "\<forall>j < m. \<not> stops htab x (ht_table htab ! probe htab hash j)" "k \<le> m"
  shows "reachable htab hash (probe htab hash k)"
proof -
  have "\<forall>j < k. ht_table htab ! probe htab hash j \<noteq> EMPTY_ENTRY" using assms by (metis less_le_trans stops_Empty(1))
  then show ?thesis by (auto simp: reachable_def)
qed

lemma first_deleted_Some:
  assumes "first_deleted_of htab hash m = Some slot"
  shows "\<exists>k < m. slot = of_nat (probe htab hash k) \<and> ht_table htab ! probe htab hash k = DELETED_ENTRY"
proof -
  obtain k ks where f: "filter (\<lambda>k. ht_table htab ! probe htab hash k = DELETED_ENTRY) [0..<m] = k # ks"
      "slot = of_nat (probe htab hash k)"
    using assms by (auto simp: first_deleted_of_def split: list.splits)
  then have "k \<in> set (filter (\<lambda>k. ht_table htab ! probe htab hash k = DELETED_ENTRY) [0..<m])" by simp
  then show ?thesis using f(2) by auto
qed

text \<open>A table with room for one more element is not expanded.\<close>

definition roomy :: "'a htab \<Rightarrow> bool" where
  "roomy htab \<longleftrightarrow> 3 * unat (ht_n_elements htab) < 2 * unat (ht_size htab)"

lemma roomy:
  assumes "ht_ok htab" "ht_counts htab"
  shows "ht_size htab * 2 \<le> ht_n_elements htab * 3 \<longleftrightarrow> \<not> roomy htab"
proof -
  have "unat (ht_size htab) \<le> 1048573" "unat (ht_n_elements htab) \<le> 1048573"
    using ht_ok_bounds [OF assms(1)] assms(2) by (auto simp: ht_counts_def)
  then have "unat (ht_size htab * 2) = unat (ht_size htab) * 2" "unat (ht_n_elements htab * 3) = unat (ht_n_elements htab) * 3"
    by (simp_all add: unat_word_ariths)
  then show ?thesis by (simp add: word_le_nat_alt roomy_def not_less mult.commute)
qed

text \<open>The element that the search ends at is replaced.\<close>

lemma ht_insert_present:
  assumes inv: "ht_inv htab" and funs: "ht_funs P htab" and i: "i < unat (ht_size htab)"
    and old: "ht_table htab ! i = Entry y" "ht_eq_f htab y x" and r: "reachable htab (ht_hash_f htab x) i"
  shows "ht_inv (htab\<lparr>ht_table := (ht_table htab)[i := Entry x]\<rparr>)"
    and "ht_mset (htab\<lparr>ht_table := (ht_table htab)[i := Entry x]\<rparr>) = add_mset x (filter_mset (\<lambda>z. \<not> ht_eq_f htab z x) (ht_mset htab))"
proof -
  note inv' = ht_inv_simps [OF inv]
  let ?htab = "htab\<lparr>ht_table := (ht_table htab)[i := Entry x]\<rparr>"
  have i': "i < length (ht_table htab)" using i inv'(1) by (simp add: ht_ok_def)
  have ok: "ht_ok ?htab" using inv'(1) by (simp add: ht_ok_def)
  have reach: "ht_reach ?htab" by (rule ht_reach_store [OF inv'(1,3) i]) (use r in auto)
  have mem: "y \<in># ht_mset htab" unfolding in_ht_mset using i' old(1) by blast
  have "ht_mset ?htab + {#y#} = ht_mset htab + {#x#}"
    using mset_entries_update [OF i', of "Entry x"] old(1) by (simp add: ht_mset_def old_entry_def)
  then show ms: "ht_mset ?htab = add_mset x (filter_mset (\<lambda>z. \<not> ht_eq_f htab z x) (ht_mset htab))"
    using uniq_split [of "ht_eq_f htab" "ht_mset htab" y x, OF inv'(4) mem old(2)]
    by (metis add_mset_add_single add_mset_commute add_mset_remove_trivial)
  have "uniq (ht_eq_f htab) (filter_mset (\<lambda>z. \<not> ht_eq_f htab z x) (ht_mset htab))"
    by (rule uniq_subset [OF inv'(4)]) simp
  then have uniq: "uniq (ht_eq_f ?htab) (ht_mset ?htab)"
    using funs by (simp only: ms ht_funs_def) (simp add: uniq_add)
  have "size (ht_mset ?htab) = size (ht_mset htab)" using \<open>ht_mset ?htab + {#y#} = _\<close> by (metis add_right_cancel size_single size_union)
  moreover have "n_deleted (ht_table ?htab) = n_deleted (ht_table htab)" using n_deleted_update [OF i', of "Entry x"] old(1) by simp
  ultimately have "ht_counts ?htab" using inv'(2) by (simp add: ht_counts_def ht_mset_def)
  then show "ht_inv ?htab" using ok reach uniq by (simp add: ht_inv_def)
qed

text \<open>A new element takes a deleted slot or the empty one that the search ended at.\<close>

lemma ht_insert_absent:
  assumes inv: "ht_inv htab" and funs: "ht_funs P htab" and i: "i < unat (ht_size htab)"
    and free: "\<forall>y. ht_table htab ! i \<noteq> Entry y" and absent: "\<forall>y \<in># ht_mset htab. \<not> ht_eq_f htab y x"
    and r: "reachable htab (ht_hash_f htab x) i"
  shows "ht_mset (htab\<lparr>ht_table := (ht_table htab)[i := Entry x]\<rparr>) = add_mset x (filter_mset (\<lambda>z. \<not> ht_eq_f htab z x) (ht_mset htab))"
    and "ht_table htab ! i = DELETED_ENTRY \<Longrightarrow>
      ht_inv (htab\<lparr>ht_table := (ht_table htab)[i := Entry x], ht_n_deleted := ht_n_deleted htab - 1\<rparr>)"
    and "ht_table htab ! i = EMPTY_ENTRY \<Longrightarrow> unat (ht_n_elements htab) + 1 < unat (ht_size htab) \<Longrightarrow>
      ht_inv (htab\<lparr>ht_table := (ht_table htab)[i := Entry x], ht_n_elements := ht_n_elements htab + 1\<rparr>)"
proof -
  note inv' = ht_inv_simps [OF inv]
  note st = ht_store_new [OF inv'(1,3) i free r]
  have ms: "mset (entries ((ht_table htab)[i := Entry x])) = add_mset x (ht_mset htab)" by (rule st(3))
  then show "ht_mset (htab\<lparr>ht_table := (ht_table htab)[i := Entry x]\<rparr>) = add_mset x (filter_mset (\<lambda>z. \<not> ht_eq_f htab z x) (ht_mset htab))"
    using filter_none [of "ht_mset htab" "ht_eq_f htab" x, OF absent] by (simp add: ht_mset_def)
  have len: "length (entries ((ht_table htab)[i := Entry x])) = Suc (length (entries (ht_table htab)))"
    using ms by (metis ht_mset_def size_add_mset size_mset)
  have uniq: "uniq (ht_eq_f htab) (mset (entries ((ht_table htab)[i := Entry x])))"
    unfolding ms by (rule uniq_add [OF inv'(4)]) (use funs absent in \<open>auto simp: ht_funs_def\<close>)
  show "ht_inv (htab\<lparr>ht_table := (ht_table htab)[i := Entry x], ht_n_deleted := ht_n_deleted htab - 1\<rparr>)"
    if del: "ht_table htab ! i = DELETED_ENTRY"
  proof -
    have "n_deleted (ht_table htab) = Suc (n_deleted ((ht_table htab)[i := Entry x]))" using st(4) del by simp
    moreover from this have "unat (ht_n_deleted htab - 1) = unat (ht_n_deleted htab) - 1"
      using inv'(2) by (subst unat_sub) (auto simp: ht_counts_def word_le_nat_alt)
    ultimately have "ht_counts (htab\<lparr>ht_table := (ht_table htab)[i := Entry x], ht_n_deleted := ht_n_deleted htab - 1\<rparr>)"
      using inv'(2) len by (auto simp: ht_counts_def)
    then show ?thesis using st(1,2) uniq by (simp add: ht_inv_def ht_ok_def ht_mset_def)
  qed
  show "ht_inv (htab\<lparr>ht_table := (ht_table htab)[i := Entry x], ht_n_elements := ht_n_elements htab + 1\<rparr>)"
    if emp: "ht_table htab ! i = EMPTY_ENTRY" and room: "unat (ht_n_elements htab) + 1 < unat (ht_size htab)"
  proof -
    have "unat (ht_n_elements htab + 1) = unat (ht_n_elements htab) + 1"
      using room ht_ok_bounds [OF inv'(1)] by (simp add: unat_word_ariths)
    then have "ht_counts (htab\<lparr>ht_table := (ht_table htab)[i := Entry x], ht_n_elements := ht_n_elements htab + 1\<rparr>)"
      using inv'(2) len st(4) emp room by (simp add: ht_counts_def)
    then show ?thesis using st(1,2) uniq by (simp add: ht_inv_def ht_ok_def ht_mset_def)
  qed
qed

text \<open>The contract of an insertion.\<close>

definition inserted :: "'a \<Rightarrow> 'a htab \<Rightarrow> 'a htab \<Rightarrow> bool" where
  "inserted x htab htab' \<longleftrightarrow> ht_inv htab' \<and> same_client htab htab' \<and> ht_released htab' = ht_released htab \<and>
     ht_mset htab' = add_mset x (filter_mset (\<lambda>y. \<not> ht_eq_f htab y x) (ht_mset htab)) \<and>
     live htab' + size (ht_mset htab) = live htab + size (ht_mset htab')"

lemma find_slot_bind:
  assumes ok: "ht_ok htab" and m: "stops htab x (ht_table htab ! probe htab hash m)"
    "\<forall>j < m. \<not> stops htab x (ht_table htab ! probe htab hash j)"
    and exp: "\<not> (ins = INSERT \<and> ht_size htab * 2 \<le> ht_n_elements htab * 3)"
  shows "htab_find_slot_with_hash htab x hash ins =
    (if ht_table htab ! probe htab hash m \<noteq> EMPTY_ENTRY then Some (Some (of_nat (probe htab hash m)), htab)
     else if ins = NO_INSERT then Some (None, htab)
     else case first_deleted_of htab hash m of
       Some slot \<Rightarrow> Some (Some slot, htab\<lparr>ht_n_deleted := ht_n_deleted htab - 1, ht_table := (ht_table htab)[unat slot := EMPTY_ENTRY]\<rparr>)
     | None \<Rightarrow> Some (Some (of_nat (probe htab hash m)), htab\<lparr>ht_n_elements := ht_n_elements htab + 1\<rparr>))"
  unfolding htab_find_slot_with_hash_def if_not_P [OF exp] Option.bind.simps Let_def find_slot_at [OF ok m, unfolded Let_def]
  using ok by simp

text \<open>
  The slot for an element holds the equal element, if there is one, and is empty otherwise. The element may be stored
  there; a client that finds an equal element may also leave the table as it is.
\<close>

definition same_table :: "'a htab \<Rightarrow> 'a htab \<Rightarrow> bool" where
  "same_table htab htab' \<longleftrightarrow> ht_inv htab' \<and> same_client htab htab' \<and> ht_released htab' = ht_released htab \<and>
     ht_mset htab' = ht_mset htab \<and> live htab' = live htab"

definition slot_for :: "'a \<Rightarrow> 'a htab \<Rightarrow> u32 \<Rightarrow> 'a htab \<Rightarrow> bool" where
  "slot_for x htab slot htab' \<longleftrightarrow>
     (case ht_table htab' ! unat slot of
        Entry y \<Rightarrow> y \<in># ht_mset htab \<and> ht_eq_f htab y x \<and> same_table htab htab'
      | EMPTY_ENTRY \<Rightarrow> (\<forall>y \<in># ht_mset htab. \<not> ht_eq_f htab y x)
      | DELETED_ENTRY \<Rightarrow> False) \<and>
     inserted x htab (htab'\<lparr>ht_table := (ht_table htab')[unat slot := Entry x]\<rparr>)"

lemma counter_table_commute:
  "htab\<lparr>ht_n_elements := n, ht_table := t\<rparr> = htab\<lparr>ht_table := t, ht_n_elements := n\<rparr>"
  "htab\<lparr>ht_n_deleted := n, ht_table := t\<rparr> = htab\<lparr>ht_table := t, ht_n_deleted := n\<rparr>"
  by simp_all

lemma find_slot_roomy:
  assumes inv: "ht_inv htab" and funs: "ht_funs P htab" and P: "P x" and room: "roomy htab"
  shows "\<exists>slot htab'. htab_find_slot htab x INSERT = Some (Some slot, htab') \<and> slot_for x htab slot htab'"
proof -
  note inv' = ht_inv_simps [OF inv]
  let ?h = "ht_hash_f htab x"
  obtain m where m: "stops htab x (ht_table htab ! probe htab ?h m)"
      "\<forall>j < m. \<not> stops htab x (ht_table htab ! probe htab ?h j)"
    and found: "\<And>y. y \<in># ht_mset htab \<Longrightarrow> ht_eq_f htab y x \<Longrightarrow> ht_table htab ! probe htab ?h m = Entry y"
    using search [OF inv funs P] by metis
  have exp: "\<not> (INSERT = INSERT \<and> ht_size htab * 2 \<le> ht_n_elements htab * 3)" using roomy [OF inv'(1,2)] room by simp
  note slot = find_slot_bind [OF inv'(1) m exp]
  note less = probe_less [OF inv'(1)]
  have less': "probe htab ?h k < length (ht_table htab)" for k using less inv'(1) by (simp add: ht_ok_def)
  show ?thesis
  proof (cases "ht_table htab ! probe htab ?h m")
    case DELETED_ENTRY
    then show ?thesis using m(1) by simp
  next
    case (Entry y)
    note ins = ht_insert_present [OF inv funs less Entry _ stops_reachable [OF m(2) order_refl]]
    have eq: "ht_eq_f htab y x" using m(1) Entry by simp
    have mem: "y \<in># ht_mset htab" unfolding in_ht_mset using Entry less' by blast
    have "size (ht_mset htab) = Suc (size (filter_mset (\<lambda>z. \<not> ht_eq_f htab z x) (ht_mset htab)))"
      using arg_cong [OF uniq_split [of "ht_eq_f htab" "ht_mset htab" y x, OF inv'(4) mem eq], of size] by simp
    then have "slot_for x htab (of_nat (probe htab ?h m)) htab"
      using mem ins [OF eq] eq Entry inv inv'(1) by (simp add: slot_for_def inserted_def same_client_def same_table_def live_def)
    then show ?thesis using slot Entry by (simp add: htab_find_slot_def)
  next
    case EMPTY_ENTRY
    then have absent: "\<forall>y \<in># ht_mset htab. \<not> ht_eq_f htab y x" using found by (metis entry.distinct(3))
    show ?thesis
    proof (cases "first_deleted_of htab ?h m")
      case None
      note ins = ht_insert_absent [OF inv funs less _ absent stops_reachable [OF m(2) order_refl]]
      let ?htab = "htab\<lparr>ht_n_elements := ht_n_elements htab + 1\<rparr>"
      have n: "unat (ht_n_elements htab) + 1 < unat (ht_size htab)"
        using room ht_ok_bounds [OF inv'(1)] by (auto simp: roomy_def)
      have "unat (ht_n_elements htab + 1) = unat (ht_n_elements htab) + 1" using n ht_ok_bounds [OF inv'(1)] by (simp add: unat_word_ariths)
      then have "live ?htab = Suc (live htab)" using inv'(2) by (auto simp: live_def ht_counts_def Suc_diff_le)
      then have "slot_for x htab (of_nat (probe htab ?h m)) ?htab"
        using ins(1,3) n EMPTY_ENTRY absent filter_none [of "ht_mset htab" "ht_eq_f htab" x, OF absent] inv'(1) by (simp add: counter_table_commute slot_for_def inserted_def same_client_def ht_mset_def live_def)
      then show ?thesis using slot EMPTY_ENTRY None by (simp add: htab_find_slot_def)
    next
      case (Some s)
      then obtain k where k: "k < m" "s = of_nat (probe htab ?h k)" "ht_table htab ! probe htab ?h k = DELETED_ENTRY"
        using first_deleted_Some [OF Some] by blast
      note ins = ht_insert_absent [OF inv funs less _ absent stops_reachable [OF m(2) less_imp_le [OF k(1)]]]
      let ?htab = "htab\<lparr>ht_n_deleted := ht_n_deleted htab - 1, ht_table := (ht_table htab)[probe htab ?h k := EMPTY_ENTRY]\<rparr>"
      have "DELETED_ENTRY \<in> set (ht_table htab)" using k(3) less' by (metis nth_mem)
      then have "0 < n_deleted (ht_table htab)" by (auto simp: n_deleted_def filter_empty_conv)
      then have "unat (ht_n_deleted htab - 1) = unat (ht_n_deleted htab) - 1"
        using inv'(2) by (subst unat_sub) (auto simp: ht_counts_def word_le_nat_alt)
      then have "live ?htab = Suc (live htab)" using inv'(2) \<open>0 < n_deleted (ht_table htab)\<close> by (auto simp: live_def ht_counts_def)
      then have "slot_for x htab s ?htab"
        using ins(1,2) k(2,3) absent filter_none [of "ht_mset htab" "ht_eq_f htab" x, OF absent] inv'(1) less' by (simp add: counter_table_commute slot_for_def inserted_def same_client_def ht_mset_def live_def)
      then show ?thesis using slot EMPTY_ENTRY Some k(2) inv'(1) by (simp add: htab_find_slot_def)
    qed
  qed
qed

lemma find_slot_insert:
  assumes inv: "ht_inv htab" and funs: "ht_funs P htab" and P: "P x" and few: "live htab \<le> 524286"
  shows "\<exists>slot htab'. htab_find_slot htab x INSERT = Some (Some slot, htab') \<and> slot_for x htab slot htab'"
proof (cases "roomy htab")
  case True
  then show ?thesis by (rule find_slot_roomy [OF inv funs P])
next
  case False
  obtain new where new: "htab_expand htab = Some new" "ht_inv new" "ht_mset new = ht_mset htab" "same_client htab new"
      "ht_released new = ht_released htab" "live new = live htab" "2 * unat (ht_n_elements new) < unat (ht_size new)"
    using htab_expand [OF inv few] by blast
  have r: "roomy new" using new(7) by (simp add: roomy_def)
  have funs': "ht_funs P new" using funs new(3,4) by (simp add: ht_funs_def same_client_def)
  obtain slot htab' where h: "htab_find_slot new x INSERT = Some (Some slot, htab')" "slot_for x new slot htab'"
    using find_slot_roomy [OF new(2) funs' P r] by blast
  have "ht_size htab * 2 \<le> ht_n_elements htab * 3" "\<not> ht_size new * 2 \<le> ht_n_elements new * 3"
    using roomy [OF ht_inv_simps(1,2) [OF inv]] roomy [OF ht_inv_simps(1,2) [OF new(2)]] False r by simp_all
  then have "htab_find_slot htab x INSERT = htab_find_slot new x INSERT"
    using new(1,4) by (simp add: htab_find_slot_def htab_find_slot_with_hash_def same_client_def)
  moreover have "slot_for x htab slot htab'" using h(2) new(3-6)
    by (auto simp: slot_for_def inserted_def same_client_def same_table_def split: entry.splits)
  ultimately show ?thesis using h(1) by auto
qed

lemma ht_insert:
  assumes "ht_inv htab" and "ht_funs P htab" and "P x" and "live htab \<le> 524286"
  shows "\<exists>htab'. ht_insert x htab = Some htab' \<and> inserted x htab htab'"
  using find_slot_insert [OF assms] by (auto simp: ht_insert_def slot_for_def)

text \<open>The contract of a deletion: the element is passed to the cleanup function, if there is one.\<close>

definition deleted :: "'a \<Rightarrow> 'a htab \<Rightarrow> 'a htab \<Rightarrow> bool" where
  "deleted x htab htab' \<longleftrightarrow> ht_inv htab' \<and> same_client htab htab' \<and> live htab' + size (ht_mset htab) = live htab + size (ht_mset htab') \<and>
     ht_mset htab' = filter_mset (\<lambda>y. \<not> ht_eq_f htab y x) (ht_mset htab) \<and>
     mset (ht_released htab') = mset (ht_released htab) + (if ht_del_f htab then filter_mset (\<lambda>y. ht_eq_f htab y x) (ht_mset htab) else {#})"

lemma htab_clear_slot:
  assumes inv: "ht_inv htab" and i: "unat i < unat (ht_size htab)" and old: "ht_table htab ! unat i = Entry y" "ht_eq_f htab y x"
  shows "deleted x htab (htab_clear_slot i htab)"
proof -
  note inv' = ht_inv_simps [OF inv]
  let ?tab = "(ht_table htab)[unat i := DELETED_ENTRY]"
  have i': "unat i < length (ht_table htab)" using i inv'(1) by (simp add: ht_ok_def)
  have mem: "y \<in># ht_mset htab" unfolding in_ht_mset using i' old(1) by blast
  note split = uniq_split [of "ht_eq_f htab" "ht_mset htab" y x, OF inv'(4) mem old(2)]
  have "mset (entries ?tab) + {#y#} = ht_mset htab"
    using mset_entries_update [OF i', of DELETED_ENTRY] old(1) by (simp add: ht_mset_def old_entry_def)
  then have ms: "mset (entries ?tab) = filter_mset (\<lambda>z. \<not> ht_eq_f htab z x) (ht_mset htab)"
    using split by (metis add_mset_add_single add_mset_remove_trivial)
  have gone: "filter_mset (\<lambda>z. ht_eq_f htab z x) (ht_mset htab) = {#y#}"
    using split multiset_partition [of "ht_mset htab" "\<lambda>z. ht_eq_f htab z x"] by (metis add_mset_add_single add_right_cancel add.commute)
  have uniq: "uniq (ht_eq_f htab) (mset (entries ?tab))" unfolding ms by (rule uniq_subset [OF inv'(4)]) simp
  have reach: "ht_reach (htab\<lparr>ht_table := ?tab\<rparr>)" by (rule ht_reach_store [OF inv'(1,3) i]) simp_all
  have len: "length (entries (ht_table htab)) = Suc (length (entries ?tab))"
    using \<open>mset (entries ?tab) + {#y#} = _\<close> by (metis ht_mset_def add_mset_add_single size_add_mset size_mset)
  have nd: "n_deleted ?tab = Suc (n_deleted (ht_table htab))" using n_deleted_update [OF i', of DELETED_ENTRY] old(1) by simp
  have one: "unat (ht_n_deleted htab + 1) = unat (ht_n_deleted htab) + 1"
    using inv'(2) ht_ok_bounds [OF inv'(1)] by (simp add: ht_counts_def unat_word_ariths)
  have "ht_counts (htab\<lparr>ht_table := ?tab, ht_n_deleted := ht_n_deleted htab + 1\<rparr>)"
    using inv'(2) len nd one by (auto simp: ht_counts_def)
  then have "ht_inv (htab\<lparr>ht_table := ?tab, ht_n_deleted := ht_n_deleted htab + 1\<rparr>)"
    using inv'(1) reach uniq by (simp add: ht_inv_def ht_ok_def ht_mset_def)
  moreover from this have "ht_inv (htab\<lparr>ht_released := r, ht_table := ?tab, ht_n_deleted := ht_n_deleted htab + 1\<rparr>)" for r
    by (simp add: ht_inv_def ht_ok_def ht_counts_def ht_mset_def ht_reach_def reachable_def)
  moreover have "unat (ht_n_elements htab) - Suc (unat (ht_n_deleted htab)) + length (entries (ht_table htab)) =
      unat (ht_n_elements htab) - unat (ht_n_deleted htab) + length (entries ?tab)"
    using len inv'(2) by (auto simp: ht_counts_def)
  ultimately show ?thesis
    using old(1) one ms gone by (simp add: deleted_def htab_clear_slot_def Let_def same_client_def live_def ht_mset_def)
qed

text \<open>The slot of an element that is to be deleted.\<close>

definition slot_of :: "'a \<Rightarrow> 'a htab \<Rightarrow> u32 option \<Rightarrow> bool" where
  "slot_of x htab r \<longleftrightarrow>
     (case r of None \<Rightarrow> (\<forall>y \<in># ht_mset htab. \<not> ht_eq_f htab y x)
      | Some slot \<Rightarrow> \<exists>y. ht_table htab ! unat slot = Entry y \<and> y \<in># ht_mset htab \<and> ht_eq_f htab y x \<and>
          deleted x htab (htab_clear_slot slot htab))"

lemma find_slot_no_insert:
  assumes inv: "ht_inv htab" and funs: "ht_funs P htab" and P: "P x"
  shows "\<exists>r. htab_find_slot htab x NO_INSERT = Some (r, htab) \<and> slot_of x htab r"
proof -
  note inv' = ht_inv_simps [OF inv]
  let ?h = "ht_hash_f htab x"
  obtain m where m: "stops htab x (ht_table htab ! probe htab ?h m)"
      "\<forall>j < m. \<not> stops htab x (ht_table htab ! probe htab ?h j)"
    and found: "\<And>y. y \<in># ht_mset htab \<Longrightarrow> ht_eq_f htab y x \<Longrightarrow> ht_table htab ! probe htab ?h m = Entry y"
    using search [OF inv funs P] by metis
  have slot: "htab_find_slot htab x NO_INSERT = Some (if ht_table htab ! probe htab ?h m \<noteq> EMPTY_ENTRY then Some (of_nat (probe htab ?h m)) else None, htab)"
    using find_slot_bind [OF inv'(1) m, of NO_INSERT] by (simp add: htab_find_slot_def)
  show ?thesis
  proof (cases "ht_table htab ! probe htab ?h m")
    case DELETED_ENTRY
    then show ?thesis using m(1) by simp
  next
    case EMPTY_ENTRY
    then have absent: "\<forall>y \<in># ht_mset htab. \<not> ht_eq_f htab y x" using found by (metis entry.distinct(3))
    then show ?thesis using slot EMPTY_ENTRY by (simp add: slot_of_def)
  next
    case (Entry y)
    have "probe htab ?h m < length (ht_table htab)" using probe_less [OF inv'(1)] inv'(1) by (simp add: ht_ok_def)
    then have "y \<in># ht_mset htab" unfolding in_ht_mset using Entry by blast
    moreover have "deleted x htab (htab_clear_slot (of_nat (probe htab ?h m)) htab)"
      using htab_clear_slot [OF inv, of "of_nat (probe htab ?h m)" y x] inv'(1) m(1) Entry by simp
    ultimately show ?thesis using slot Entry m(1) inv'(1) by (simp add: slot_of_def)
  qed
qed

lemma ht_delete:
  assumes inv: "ht_inv htab" and funs: "ht_funs P htab" and P: "P x"
  shows "\<exists>htab'. ht_delete x htab = Some htab' \<and> deleted x htab htab'"
proof -
  obtain r where r: "htab_find_slot htab x NO_INSERT = Some (r, htab)" "slot_of x htab r"
    using find_slot_no_insert [OF assms] by blast
  show ?thesis
  proof (cases r)
    case None
    then have absent: "\<forall>y \<in># ht_mset htab. \<not> ht_eq_f htab y x" using r(2) by (simp add: slot_of_def)
    then have "filter_mset (\<lambda>y. ht_eq_f htab y x) (ht_mset htab) = {#}"
      by (simp add: filter_mset_False [symmetric] cong: filter_mset_cong del: filter_mset_False)
    then have "deleted x htab htab"
      using inv filter_none [of "ht_mset htab" "ht_eq_f htab" x, OF absent] by (simp add: deleted_def same_client_def)
    then show ?thesis using r(1) None by (simp add: ht_delete_def)
  next
    case (Some slot)
    then show ?thesis using r by (auto simp: ht_delete_def slot_of_def)
  qed
qed


section \<open>The other operations\<close>

lemma htab_create:
  assumes "unat n \<le> 1048573"
  shows "\<exists>htab. htab_create n hash_f eq_f del_f = Some htab \<and> ht_inv htab \<and> ht_mset htab = {#} \<and> live htab = 0 \<and>
    ht_hash_f htab = hash_f \<and> ht_eq_f htab = eq_f \<and> ht_del_f htab = del_f \<and> ht_released htab = []"
proof -
  obtain p where p: "get_higher_prime n = Some p" "p \<in> set small_primes" using small_higher_prime [OF assms] by blast
  then have "0 < unat p" using small_prime_bounds [of p] by simp
  then show ?thesis using p
    by (simp add: htab_create_def ht_inv_def ht_ok_def ht_counts_def ht_reach_def ht_mset_def uniq_def n_deleted_def live_def)
qed

lemma htab_empty:
  assumes "ht_inv htab"
  shows "ht_inv (htab_empty htab)" "ht_mset (htab_empty htab) = {#}" "live (htab_empty htab) = live htab"
    "same_client htab (htab_empty htab)"
    "ht_released (htab_empty htab) = ht_released htab @ (if ht_del_f htab then entries (ht_table htab) else [])"
  using ht_inv_simps [OF assms]
  by (simp_all add: htab_empty_def release_all_def Let_def ht_inv_def ht_ok_def ht_counts_def ht_reach_def ht_mset_def
      uniq_def n_deleted_def live_def same_client_def)

text \<open>A loop over the table, which may shrink the table first, visits every element once.\<close>

lemma visited_entries:
  "map ((!) es) (filter (\<lambda>i. case es ! i of Entry x \<Rightarrow> True | _ \<Rightarrow> False) [0..<length es]) = map Entry (entries es)"
proof -
  have "filter (\<lambda>e. case e of Entry x \<Rightarrow> True | _ \<Rightarrow> False) es = map Entry (entries es)"
    by (induction es rule: entries.induct) auto
  moreover have "filter (\<lambda>e. case e of Entry x \<Rightarrow> True | _ \<Rightarrow> False) (map ((!) es) [0..<length es]) =
      map ((!) es) (filter (\<lambda>i. case es ! i of Entry x \<Rightarrow> True | _ \<Rightarrow> False) [0..<length es])"
    by (simp add: filter_map comp_def)
  ultimately show ?thesis by (simp add: map_nth)
qed

definition visited :: "u32 list \<times> 'a htab \<Rightarrow> 'a entry list" where
  "visited r = map (\<lambda>slot. ht_table (snd r) ! unat slot) (fst r)"

lemma HTAB_FOR_EACH_SLOT:
  assumes inv: "ht_inv htab" and few: "live htab \<le> 524286"
  shows "\<exists>slots htab'. HTAB_FOR_EACH_SLOT htab = Some (slots, htab') \<and> ht_inv htab' \<and> ht_mset htab' = ht_mset htab \<and>
    same_client htab htab' \<and> ht_released htab' = ht_released htab \<and> live htab' = live htab \<and>
    visited (slots, htab') = map Entry (entries (ht_table htab'))"
proof -
  obtain htab' where h: "(if (ht_n_elements htab - ht_n_deleted htab) * 8 < ht_size htab then htab_expand htab else Some htab) = Some htab'"
      "ht_inv htab'" "ht_mset htab' = ht_mset htab" "same_client htab htab'" "ht_released htab' = ht_released htab" "live htab' = live htab"
    using htab_expand [OF inv few] inv by (cases "(ht_n_elements htab - ht_n_deleted htab) * 8 < ht_size htab") (auto simp: same_client_def)
  let ?P = "\<lambda>e. case e of Entry x \<Rightarrow> True | _ \<Rightarrow> False"
  let ?slots = "filter (\<lambda>i. ?P (ht_table htab' ! unat i)) (map of_nat [0..<unat (ht_size htab')] :: u32 list)"
  have ok: "ht_ok htab'" using h(2) by (simp add: ht_inv_def)
  have small: "unat (of_nat i :: u32) = i" if "i < unat (ht_size htab')" for i
    using that ht_ok_bounds [OF ok] by (simp add: unat_of_nat)
  have "map (\<lambda>i. ht_table htab' ! unat i) ?slots = map ((!) (ht_table htab')) (filter (\<lambda>i. ?P (ht_table htab' ! i)) [0..<unat (ht_size htab')])"
  proof -
    have "filter (\<lambda>i. ?P (ht_table htab' ! unat (of_nat i :: u32))) [0..<unat (ht_size htab')] =
        filter (\<lambda>i. ?P (ht_table htab' ! i)) [0..<unat (ht_size htab')]"
      by (rule filter_cong) (simp_all add: small)
    then show ?thesis by (simp add: filter_map comp_def small)
  qed
  then have "visited (?slots, htab') = map Entry (entries (ht_table htab'))"
    using visited_entries [of "ht_table htab'"] ok by (simp add: visited_def ht_ok_def)
  then show ?thesis using h by (intro exI [of _ ?slots] exI [of _ htab']) (simp add: HTAB_FOR_EACH_SLOT_def)
qed


section \<open>The table as a set of elements\<close>

text \<open>The operations of a client, and the set of elements that they promise to maintain.\<close>

datatype 'a ht_op = Ht_Insert 'a | Ht_Delete 'a | Ht_Empty | Ht_Walk

fun ht_step :: "'a ht_op \<Rightarrow> 'a htab \<Rightarrow> 'a htab option" where
  "ht_step (Ht_Insert x) htab = ht_insert x htab"
| "ht_step (Ht_Delete x) htab = ht_delete x htab"
| "ht_step Ht_Empty htab = Some (htab_empty htab)"
| "ht_step Ht_Walk htab = map_option snd (HTAB_FOR_EACH_SLOT htab)"

record 'a ht_value =
  hv_eq :: "'a \<Rightarrow> 'a \<Rightarrow> bool"
  hv_del :: bool
  hv_set :: "'a multiset"
  hv_released :: "'a multiset"

definition ht_value :: "'a htab \<Rightarrow> 'a ht_value" where
  "ht_value htab = \<lparr>hv_eq = ht_eq_f htab, hv_del = ht_del_f htab, hv_set = ht_mset htab, hv_released = mset (ht_released htab)\<rparr>"

definition hv_release :: "'a multiset \<Rightarrow> 'a ht_value \<Rightarrow> 'a ht_value" where
  "hv_release M v = (if hv_del v then v\<lparr>hv_released := hv_released v + M\<rparr> else v)"

fun ht_spec :: "'a ht_op \<Rightarrow> 'a ht_value \<Rightarrow> 'a ht_value" where
  "ht_spec (Ht_Insert x) v = v\<lparr>hv_set := add_mset x (filter_mset (\<lambda>y. \<not> hv_eq v y x) (hv_set v))\<rparr>"
| "ht_spec (Ht_Delete x) v =
     (hv_release (filter_mset (\<lambda>y. hv_eq v y x) (hv_set v)) v)\<lparr>hv_set := filter_mset (\<lambda>y. \<not> hv_eq v y x) (hv_set v)\<rparr>"
| "ht_spec Ht_Empty v = (hv_release (hv_set v) v)\<lparr>hv_set := {#}\<rparr>"
| "ht_spec Ht_Walk v = v"

text \<open>The elements of the operations.\<close>

fun ht_op_ok :: "('a \<Rightarrow> bool) \<Rightarrow> 'a ht_op \<Rightarrow> bool" where
  "ht_op_ok P (Ht_Insert x) \<longleftrightarrow> P x"
| "ht_op_ok P (Ht_Delete x) \<longleftrightarrow> P x"
| "ht_op_ok P Ht_Empty \<longleftrightarrow> True"
| "ht_op_ok P Ht_Walk \<longleftrightarrow> True"

definition ht_rep :: "('a \<Rightarrow> bool) \<Rightarrow> 'a htab \<Rightarrow> 'a ht_value \<Rightarrow> bool" where
  "ht_rep P htab v \<longleftrightarrow> ht_inv htab \<and> ht_funs P htab \<and> v = ht_value htab"

lemma ht_step:
  assumes rep: "ht_rep P htab v" and P: "ht_op_ok P op" and few: "live htab < 524287"
  shows "\<exists>htab'. ht_step op htab = Some htab' \<and> ht_rep P htab' (ht_spec op v) \<and> live htab' \<le> Suc (live htab)"
proof -
  have inv: "ht_inv htab" and funs: "ht_funs P htab" and v: "v = ht_value htab" and few': "live htab \<le> 524286"
    using rep few by (auto simp: ht_rep_def)
  show ?thesis
  proof (cases op)
    case (Ht_Insert x)
    then obtain htab' where htab': "ht_insert x htab = Some htab'" "inserted x htab htab'"
      using ht_insert [OF inv funs _ few', of x] P by auto
    have "size (ht_mset htab') \<le> Suc (size (ht_mset htab))"
      using htab'(2) size_filter_mset_lesseq [of "\<lambda>y. \<not> ht_eq_f htab y x" "ht_mset htab"] by (simp add: inserted_def)
    moreover have "live htab' + size (ht_mset htab) = live htab + size (ht_mset htab')" using htab'(2) by (simp add: inserted_def)
    ultimately have "live htab' \<le> Suc (live htab)" by linarith
    then show ?thesis using htab' funs v P Ht_Insert
      by (auto simp: ht_funs_def inserted_def ht_rep_def ht_value_def same_client_def)
  next
    case (Ht_Delete x)
    then obtain htab' where htab': "ht_delete x htab = Some htab'" "deleted x htab htab'"
      using ht_delete [OF inv funs, of x] P by auto
    have "size (ht_mset htab') \<le> size (ht_mset htab)"
      using htab'(2) size_filter_mset_lesseq [of "\<lambda>y. \<not> ht_eq_f htab y x" "ht_mset htab"] by (simp add: deleted_def)
    moreover have "live htab' + size (ht_mset htab) = live htab + size (ht_mset htab')" using htab'(2) by (simp add: deleted_def)
    ultimately have "live htab' \<le> Suc (live htab)" by linarith
    then show ?thesis using htab' funs v P Ht_Delete
      by (auto simp: ht_funs_def deleted_def ht_rep_def ht_value_def same_client_def hv_release_def)
  next
    case Ht_Empty
    then show ?thesis using htab_empty [OF inv] funs v
      by (auto simp: ht_funs_def ht_rep_def ht_value_def same_client_def hv_release_def ht_mset_def)
  next
    case Ht_Walk
    then show ?thesis using HTAB_FOR_EACH_SLOT [OF inv few'] funs v
      by (auto simp: ht_funs_def ht_rep_def ht_value_def same_client_def)
  qed
qed

interpretation ht: data_refinement ht_step ht_spec "ht_op_ok P" "ht_rep P" "\<lambda>htab _. live htab" 524287 for P
  by unfold_locales (rule ht_step)


section \<open>Properties\<close>

text \<open>C25. A new hash table, created with a size up to 1048573, behaves like a set of elements under any sequence of at most 524287 insertions,
  deletions, clearings and loops: no operation aborts or runs forever, the elements (and the elements
  passed to the cleanup function) are those of the specification, and a lookup returns the element
  equal to the given one, or nothing if there is none.\<close>
theorem hash_table_is_set:
  assumes "equivp eq_f" and "\<forall>x y. P x \<longrightarrow> P y \<longrightarrow> eq_f x y \<longrightarrow> hash_f x = hash_f y"
    and "unat n \<le> 1048573" and "length ops \<le> 524287" and "\<forall>op \<in> set ops. ht_op_ok P op"
  shows "\<exists>htab htab'. htab_create n hash_f eq_f del_f = Some htab \<and> run_ops ht_step ops htab = Some htab' \<and>
    ht_value htab' = fold ht_spec ops \<lparr>hv_eq = eq_f, hv_del = del_f, hv_set = {#}, hv_released = {#}\<rparr> \<and>
    (\<forall>x. P x \<longrightarrow> (\<exists>e. htab_find htab' x = Some e \<and>
      (case e of EMPTY_ENTRY \<Rightarrow> (\<forall>y \<in># hv_set (ht_value htab'). \<not> eq_f y x)
       | DELETED_ENTRY \<Rightarrow> False | Entry y \<Rightarrow> y \<in># hv_set (ht_value htab') \<and> eq_f y x)))"
proof -
  obtain htab where new: "htab_create n hash_f eq_f del_f = Some htab" "ht_inv htab" "ht_mset htab = {#}" "live htab = 0"
      "ht_hash_f htab = hash_f" "ht_eq_f htab = eq_f" "ht_del_f htab = del_f" "ht_released htab = []"
    using htab_create [OF assms(3)] by blast
  have "ht_rep P htab (ht_value htab)" using new assms(1,2) by (simp add: ht_rep_def ht_funs_def)
  then obtain htab' where run: "run_ops ht_step ops htab = Some htab'" "ht_rep P htab' (fold ht_spec ops (ht_value htab))"
    using ht.run_refines [of P htab "ht_value htab" ops] new(4) assms(4,5) by auto
  have v: "ht_value htab' = fold ht_spec ops (ht_value htab)" using run(2) by (simp add: ht_rep_def)
  have "hv_eq (fold ht_spec ops v) = hv_eq v" for v :: "'a ht_value"
  proof (induction ops arbitrary: v)
    case (Cons op ops)
    then show ?case by (cases op) (simp_all add: hv_release_def)
  qed simp
  then have eq: "ht_eq_f htab' = eq_f" using v new(6) by (metis ht_value.select_convs(1) ht_value_def)
  have find: "\<exists>e. htab_find htab' x = Some e \<and>
      (case e of EMPTY_ENTRY \<Rightarrow> (\<forall>y \<in># hv_set (ht_value htab'). \<not> eq_f y x)
       | DELETED_ENTRY \<Rightarrow> False | Entry y \<Rightarrow> y \<in># hv_set (ht_value htab') \<and> eq_f y x)" if "P x" for x
  proof -
    have set: "hv_set (ht_value htab') = ht_mset htab'" by (simp add: ht_value_def)
    have "ht_inv htab'" "ht_funs P htab'" using run(2) by (simp_all add: ht_rep_def)
    then show ?thesis unfolding set eq [symmetric] using that by (rule htab_find)
  qed
  have "ht_value htab = \<lparr>hv_eq = eq_f, hv_del = del_f, hv_set = {#}, hv_released = {#}\<rparr>" using new by (simp add: ht_value_def)
  then show ?thesis using new(1) run(1) v find by simp
qed

theorem hash_table_is_set_witness:
  "\<exists>htab htab'. htab_create 5 (\<lambda>x. x) (=) True = Some htab \<and>
     run_ops ht_step [Ht_Insert 3, Ht_Insert 10, Ht_Delete 3, Ht_Walk] htab = Some htab' \<and>
     hv_set (ht_value htab') = {#10 :: u32#} \<and> hv_released (ht_value htab') = {#3#}"
  using hash_table_is_set [of "(=)" "\<lambda>_. True" "\<lambda>x. x" 5 "[Ht_Insert (3 :: u32), Ht_Insert 10, Ht_Delete 3, Ht_Walk]" True]
  by (fastforce simp: hv_release_def identity_equivp)

text \<open>C26. Every operation on a table that satisfies the invariant and whose counters show fewer than 524287 elements in use
  returns, and it keeps the invariant of the hash table: the size is a prime of the table of primes,
  the counters bound the numbers of elements and deleted entries and leave an empty slot, every
  element is reached by its probe sequence, and no two elements are equal. The table keeps its client's functions, and the number of
  elements in use grows by at most one.\<close>
theorem hash_table_invariant:
  assumes "ht_inv htab" and "ht_funs P htab" and "ht_op_ok P op" and "live htab < 524287"
  shows "\<exists>htab'. ht_step op htab = Some htab' \<and> ht_inv htab' \<and> ht_funs P htab' \<and> live htab' \<le> Suc (live htab)"
  using ht.refines [of P htab "ht_value htab" op] assms by (auto simp: ht_rep_def)

lemma new_table:
  obtains htab :: "u32 htab" where "htab_create 5 (\<lambda>x. x) (=) False = Some htab" "ht_inv htab" "ht_funs (\<lambda>_. True) htab" "live htab = 0"
    "ht_mset htab = {#}"
  using htab_create [of 5 "\<lambda>x. x" "(=)" False] by (auto simp: ht_funs_def identity_equivp)

theorem hash_table_invariant_witness:
  "\<exists>htab htab'. htab_create 5 (\<lambda>x. x) (=) False = Some htab \<and> ht_step (Ht_Insert (3 :: u32)) htab = Some htab' \<and> ht_inv htab'"
proof -
  obtain htab :: "u32 htab" where "htab_create 5 (\<lambda>x. x) (=) False = Some htab" "ht_inv htab" "ht_funs (\<lambda>_. True) htab" "live htab = 0"
    by (rule new_table)
  then show ?thesis using hash_table_invariant [of htab "\<lambda>_. True" "Ht_Insert 3"] by fastforce
qed

text \<open>C27. A loop over the slots of the table, which may first rebuild the table, visits every element exactly once. It returns
  while the counters show at most 524286 elements in use.\<close>
theorem hash_table_walk:
  assumes "ht_inv htab" and "live htab \<le> 524286"
  shows "\<exists>slots htab'. HTAB_FOR_EACH_SLOT htab = Some (slots, htab') \<and> ht_inv htab' \<and>
    mset (visited (slots, htab')) = image_mset Entry (ht_mset htab)"
proof -
  obtain slots htab' where "HTAB_FOR_EACH_SLOT htab = Some (slots, htab')" "ht_inv htab'" "ht_mset htab' = ht_mset htab"
      "visited (slots, htab') = map Entry (entries (ht_table htab'))"
    using HTAB_FOR_EACH_SLOT [OF assms] by blast
  then show ?thesis by (intro exI [of _ slots] exI [of _ htab']) (simp add: ht_mset_def [symmetric] mset_map)
qed

theorem hash_table_walk_witness:
  "\<exists>htab htab' slots htab''. htab_create 5 (\<lambda>x. x) (=) False = Some htab \<and> ht_step (Ht_Insert (3 :: u32)) htab = Some htab' \<and>
     HTAB_FOR_EACH_SLOT htab' = Some (slots, htab'') \<and> visited (slots, htab'') = [Entry 3]"
proof -
  obtain htab :: "u32 htab" where h: "htab_create 5 (\<lambda>x. x) (=) False = Some htab" "ht_inv htab" "ht_funs (\<lambda>_. True) htab" "live htab = 0"
      "ht_mset htab = {#}"
    by (rule new_table)
  obtain htab' where h': "ht_step (Ht_Insert 3) htab = Some htab'" "ht_rep (\<lambda>_. True) htab' (ht_spec (Ht_Insert 3) (ht_value htab))"
      "live htab' \<le> Suc 0"
    using ht_step [of "\<lambda>_. True" htab "ht_value htab" "Ht_Insert 3"] h by (auto simp: ht_rep_def)
  then have "ht_inv htab'" "ht_mset htab' = {#3#}" using h(5) by (simp_all add: ht_rep_def ht_value_def)
  then show ?thesis using hash_table_walk [of htab'] h(1) h' by fastforce
qed

end
