(* ===== verification/Hashed_Chain.thy ===== *)
theory Hashed_Chain
  imports Chain Hash_Table
begin

text \<open>
  What the journals and the lists of hardlinks have in common: entries that are linked in a chain, in the order of their
  insertion, and found by a hash table. An element of the hash table is the address of an entry together with
  the contents of the entry; the fields that are hashed and compared do not change while an entry is in the table.
\<close>


section \<open>The operations\<close>

record 'e hchain =
  hc_htab :: "(ptr \<times> 'e) htab"
  hc_chain :: chain

type_synonym ('e, 'x) hc_state = "'e heap \<times> ('e, 'x) hchain_scheme"

text \<open>
  Take the entry at \<open>a\<close> out of the chain, return it to the pool and clear its slot.
\<close>

definition hc_remove :: "u32 \<Rightarrow> ptr \<Rightarrow> ('e, 'x) hc_state \<Rightarrow> ('e, 'x) hc_state option" where
  "hc_remove slot a = (\<lambda>(h, hc).
     map_option
       (\<lambda>(mem, ch). (release_entry a (h\<lparr>hp_mem := mem\<rparr>), hc\<lparr>hc_htab := htab_clear_slot slot (hc_htab hc), hc_chain := ch\<rparr>))
       (chain_unlink a (hp_mem h, hc_chain hc)))"

text \<open>Delete the entry that is equal to \<open>e\<close>. The address that goes with \<open>e\<close> is not used.\<close>

definition hc_delete :: "'e \<Rightarrow> ('e, 'x) hc_state \<Rightarrow> (bool \<times> ('e, 'x) hc_state) option" where
  "hc_delete e = (\<lambda>(h, hc).
     Option.bind (htab_find_slot (hc_htab hc) ((0, 0), e) NO_INSERT)
       (\<lambda>(slot, htab).
          case slot of
            None \<Rightarrow> Some (False, h, hc\<lparr>hc_htab := htab\<rparr>)
          | Some s \<Rightarrow>
              (case ht_table htab ! unat s of
                 Entry (a, _) \<Rightarrow> map_option (Pair True) (hc_remove s a (h, hc\<lparr>hc_htab := htab\<rparr>))
               | _ \<Rightarrow> None)))"

text \<open>Delete the entry at \<open>a\<close>.\<close>

definition hc_delete_entry :: "ptr \<Rightarrow> ('e, 'x) hc_state \<Rightarrow> (bool \<times> ('e, 'x) hc_state) option" where
  "hc_delete_entry a = (\<lambda>(h, hc).
     Option.bind (hp_mem h a)
       (\<lambda>c. Option.bind (htab_find_slot (hc_htab hc) (a, c_item c) NO_INSERT)
          (\<lambda>(slot, htab).
             case slot of
               None \<Rightarrow> Some (False, h, hc\<lparr>hc_htab := htab\<rparr>)
             | Some s \<Rightarrow> map_option (Pair True) (hc_remove s a (h, hc\<lparr>hc_htab := htab\<rparr>)))))"

definition hc_member :: "'e \<Rightarrow> ('e, 'x) hchain_scheme \<Rightarrow> bool option" where
  "hc_member e hc = map_option (\<lambda>r. r \<noteq> EMPTY_ENTRY) (htab_find (hc_htab hc) ((0, 0), e))"

text \<open>
  Release the entries of the chain. The chain has at most as many entries as the counter of the hash table says, which bounds the loop.
\<close>

definition hc_release :: "('e, 'x) hc_state \<Rightarrow> 'e heap option" where
  "hc_release = (\<lambda>(h, hc). release_entries (unat (ht_n_elements (hc_htab hc))) (ch_first (hc_chain hc)) h)"

definition hc_empty :: "('e, 'x) hc_state \<Rightarrow> ('e, 'x) hc_state option" where
  "hc_empty = (\<lambda>(h, hc).
     map_option (\<lambda>h. (h, hc\<lparr>hc_chain := \<lparr>ch_first = None, ch_last = None\<rparr>, hc_htab := htab_empty (hc_htab hc)\<rparr>))
       (hc_release (h, hc)))"

text \<open>Store a new entry into the slot that was found for it and append it to the chain.\<close>

definition hc_add :: "u32 \<Rightarrow> ptr \<Rightarrow> 'e \<Rightarrow> ('e, 'x) hc_state \<Rightarrow> ('e, 'x) hc_state option" where
  "hc_add slot a e = (\<lambda>(h, hc).
     map_option
       (\<lambda>(mem, ch). (h\<lparr>hp_mem := mem\<rparr>,
          hc\<lparr>hc_htab := (hc_htab hc)\<lparr>ht_table := (ht_table (hc_htab hc))[unat slot := Entry (a, e)]\<rparr>, hc_chain := ch\<rparr>))
       (chain_append a e (hp_mem h, hc_chain hc)))"


section \<open>Representation\<close>

text \<open>
  The structure holds the entries \<open>xs\<close>. The addresses with contents are those in use, by this or another structure
  with the same pool.
\<close>

definition hc_rep :: "('e \<Rightarrow> bool) \<Rightarrow> 'e heap \<Rightarrow> ('e, 'x) hchain_scheme \<Rightarrow> (ptr \<times> 'e) list \<Rightarrow> bool" where
  "hc_rep P h hc xs \<longleftrightarrow> ht_inv (hc_htab hc) \<and> ht_funs (P \<circ> snd) (hc_htab hc) \<and> \<not> ht_del_f (hc_htab hc) \<and>
     ht_mset (hc_htab hc) = mset xs \<and> chain_rep (hp_mem h) (hc_chain hc) xs \<and>
     pool_inv (hp_pool h) (dom (hp_mem h)) \<and> fst ` set xs \<subseteq> dom (hp_mem h)"

text \<open>The memory of other structures is left alone.\<close>

definition hc_frame :: "(ptr \<times> 'e) list \<Rightarrow> 'e heap \<Rightarrow> 'e heap \<Rightarrow> bool" where
  "hc_frame xs h h' \<longleftrightarrow> (\<forall>a \<in> dom (hp_mem h). a \<notin> fst ` set xs \<longrightarrow> hp_mem h' a = hp_mem h a)"

text \<open>A change of the entries from \<open>xs\<close> to \<open>ys\<close>.\<close>

definition hc_changes ::
  "('e \<Rightarrow> bool) \<Rightarrow> (ptr \<times> 'e) list \<Rightarrow> ('e, 'x) hc_state \<Rightarrow> (ptr \<times> 'e) list \<Rightarrow> ('e, 'x) hc_state \<Rightarrow> bool" where
  "hc_changes P xs s ys s' \<longleftrightarrow> hc_rep P (fst s') (snd s') ys \<and> hc_frame xs (fst s) (fst s') \<and>
     dom (hp_mem (fst s')) = dom (hp_mem (fst s)) - fst ` set xs \<union> fst ` set ys \<and>
     same_client (hc_htab (snd s)) (hc_htab (snd s')) \<and> hchain.more (snd s') = hchain.more (snd s) \<and>
     live (hc_htab (snd s')) + length xs = live (hc_htab (snd s)) + length ys"

lemma uniq_filter:
  assumes "uniq eq (mset xs)" "xs = us @ y # vs" "eq y x"
  shows "filter (\<lambda>z. \<not> eq z x) xs = us @ vs"
proof -
  have "size (filter_mset (\<lambda>z. eq z x) (mset xs)) \<le> 1" using assms(1) by (simp add: uniq_def)
  then have "length (filter (\<lambda>z. eq z x) xs) \<le> 1" by (metis mset_filter size_mset)
  then have "filter (\<lambda>z. eq z x) us = []" "filter (\<lambda>z. eq z x) vs = []" using assms(2,3) by auto
  then have "filter (\<lambda>z. \<not> eq z x) us = us" "filter (\<lambda>z. \<not> eq z x) vs = vs" by (auto simp: filter_empty_conv filter_id_conv)
  then show ?thesis using assms(2,3) by simp
qed

text \<open>Removing an entry.\<close>

lemma hc_remove:
  assumes rep: "hc_rep P h hc (us @ (a, e) # vs)" and del: "deleted x (hc_htab hc) (htab_clear_slot slot (hc_htab hc))"
    and eq: "ht_eq_f (hc_htab hc) (a, e) x"
  shows "\<exists>s'. hc_remove slot a (h, hc) = Some s' \<and> hc_changes P (us @ (a, e) # vs) (h, hc) (us @ vs) s'"
proof -
  let ?xs = "us @ (a, e) # vs" and ?htab = "htab_clear_slot slot (hc_htab hc)"
  have inv: "ht_inv (hc_htab hc)" and funs: "ht_funs (P \<circ> snd) (hc_htab hc)" and nodel: "\<not> ht_del_f (hc_htab hc)"
    and ms: "ht_mset (hc_htab hc) = mset ?xs" and ch: "chain_rep (hp_mem h) (hc_chain hc) ?xs"
    and pool: "pool_inv (hp_pool h) (dom (hp_mem h))" and sub: "fst ` set ?xs \<subseteq> dom (hp_mem h)"
    using rep unfolding hc_rep_def by blast+
  obtain mem' ch' where un: "chain_unlink a (hp_mem h, hc_chain hc) = Some (mem', ch')" "chain_rep mem' ch' (us @ vs)"
      "\<forall>b. b \<notin> fst ` set (us @ vs) \<longrightarrow> mem' b = hp_mem h b" "dom mem' = dom (hp_mem h)"
    using chain_unlink [OF ch] by blast
  let ?h = "release_entry a (h\<lparr>hp_mem := mem'\<rparr>)"
  have notin: "a \<notin> fst ` set (us @ vs)" using ch by (auto simp: chain_rep_def)
  have mem: "hp_mem ?h = mem'(a := None)" "hp_pool ?h = pool_free (hp_pool h) a" by (simp_all add: release_entry_def)
  have "uniq (ht_eq_f (hc_htab hc)) (mset ?xs)" using ht_inv_simps(4) [OF inv] ms by simp
  from uniq_filter [OF this refl, of x] have "filter (\<lambda>z. \<not> ht_eq_f (hc_htab hc) z x) ?xs = us @ vs" using eq by simp
  then have ms': "ht_mset ?htab = mset (us @ vs)" using del ms unfolding deleted_def by (metis mset_filter)
  have cl: "ht_inv ?htab" "same_client (hc_htab hc) ?htab" "live ?htab + size (ht_mset (hc_htab hc)) = live (hc_htab hc) + size (ht_mset ?htab)"
    using del unfolding deleted_def by blast+
  have funs': "ht_funs (P \<circ> snd) ?htab" using funs cl(2) ms ms' by (auto simp: ht_funs_def same_client_def)
  have "chain_rep (mem'(a := None)) ch' (us @ vs)"
    using un(2) notin unfolding chain_rep_def by (subst dseg_cong [of "us @ vs" _ mem']) auto
  moreover have dom: "dom (mem'(a := None)) = dom (hp_mem h) - {a}" using un(4) by simp
  moreover have "a \<in> dom (hp_mem h)" using sub by auto
  ultimately have "hc_rep P ?h (hc\<lparr>hc_htab := ?htab, hc_chain := ch'\<rparr>) (us @ vs)"
    unfolding hc_rep_def mem using cl funs' nodel ms' pool_free_inv [OF pool] sub notin
    by (auto simp: same_client_def)
  moreover have "hc_frame ?xs h ?h" unfolding hc_frame_def mem using un(3) by auto
  moreover have "hc_remove slot a (h, hc) = Some (?h, hc\<lparr>hc_htab := ?htab, hc_chain := ch'\<rparr>)" using un(1) by (simp add: hc_remove_def)
  moreover have "live ?htab + 1 = live (hc_htab hc)" using cl(3) ms ms' by simp
  moreover have "dom (hp_mem ?h) = dom (hp_mem h) - fst ` set ?xs \<union> fst ` set (us @ vs)" using sub notin dom mem by auto
  ultimately show ?thesis using cl(2)
    by (intro exI [of _ "(?h, hc\<lparr>hc_htab := ?htab, hc_chain := ch'\<rparr>)"]) (simp add: hc_changes_def)
qed

lemma hc_rep_simps:
  assumes "hc_rep P h hc xs"
  shows "ht_inv (hc_htab hc)" "ht_funs (P \<circ> snd) (hc_htab hc)" "ht_mset (hc_htab hc) = mset xs" "chain_rep (hp_mem h) (hc_chain hc) xs"
    "equivp (ht_eq_f (hc_htab hc))" "uniq (ht_eq_f (hc_htab hc)) (mset xs)" "pool_inv (hp_pool h) (dom (hp_mem h))" "fst ` set xs \<subseteq> dom (hp_mem h)"
  using assms ht_inv_simps(4) [of "hc_htab hc"] unfolding hc_rep_def ht_funs_def by auto

lemma hc_changes_refl: "hc_rep P h hc xs \<Longrightarrow> hc_changes P xs (h, hc) xs (h, hc)"
  by (auto simp: hc_changes_def hc_frame_def same_client_def hc_rep_def)

text \<open>Deleting by contents and by address.\<close>

lemma hc_delete:
  assumes rep: "hc_rep P h hc xs" and P: "P e"
  defines "eq \<equiv> ht_eq_f (hc_htab hc)"
  shows "\<exists>s'. hc_delete e (h, hc) = Some (\<exists>x \<in> set xs. eq x ((0, 0), e), s') \<and>
    hc_changes P xs (h, hc) (filter (\<lambda>x. \<not> eq x ((0, 0), e)) xs) s'"
proof -
  note r = hc_rep_simps [OF rep]
  obtain slot where slot: "htab_find_slot (hc_htab hc) ((0, 0), e) NO_INSERT = Some (slot, hc_htab hc)"
      "slot_of ((0, 0), e) (hc_htab hc) slot"
    using find_slot_no_insert [OF r(1,2), of "((0, 0), e)"] P by auto
  show ?thesis
  proof (cases slot)
    case None
    then have absent: "\<forall>x \<in> set xs. \<not> eq x ((0, 0), e)" using slot(2) r(3) by (simp add: slot_of_def eq_def)
    then have "filter (\<lambda>x. \<not> eq x ((0, 0), e)) xs = xs" by (simp add: filter_id_conv)
    then show ?thesis using slot(1) None absent hc_changes_refl [OF rep] by (auto simp: hc_delete_def)
  next
    case (Some s)
    then obtain y where y: "ht_table (hc_htab hc) ! unat s = Entry y" "y \<in> set xs" "eq y ((0, 0), e)"
        "deleted ((0, 0), e) (hc_htab hc) (htab_clear_slot s (hc_htab hc))"
      using slot(2) r(3) by (auto simp: slot_of_def eq_def)
    obtain a d where d: "y = (a, d)" by (rule prod.exhaust)
    obtain us vs where xs: "xs = us @ (a, d) # vs" using y(2) d by (metis split_list)
    have "filter (\<lambda>x. \<not> eq x ((0, 0), e)) xs = us @ vs" using uniq_filter [OF r(6) xs] y(3) d by (simp add: eq_def)
    moreover obtain s' where "hc_remove s a (h, hc) = Some s'" "hc_changes P xs (h, hc) (us @ vs) s'"
      using hc_remove [OF rep [unfolded xs] y(4)] y(3) d xs by (auto simp: eq_def)
    ultimately show ?thesis using slot(1) Some y d by (auto simp: hc_delete_def)
  qed
qed

lemma hc_delete_entry:
  assumes rep: "hc_rep P h hc xs" and a: "(a, e) \<in> set xs"
  shows "\<exists>s'. hc_delete_entry a (h, hc) = Some (True, s') \<and> hc_changes P xs (h, hc) (removeAll (a, e) xs) s'"
proof -
  note r = hc_rep_simps [OF rep]
  let ?eq = "ht_eq_f (hc_htab hc)"
  obtain c where c: "hp_mem h a = Some c" "c_item c = e" using dseg_mem [of "hp_mem h"] r(4) a unfolding chain_rep_def by fastforce
  have P: "P e" using r(2,3) a by (auto simp: ht_funs_def)
  have refl: "?eq (a, e) (a, e)" using r(5) by (simp add: equivp_reflp)
  obtain slot where slot: "htab_find_slot (hc_htab hc) (a, e) NO_INSERT = Some (slot, hc_htab hc)" "slot_of (a, e) (hc_htab hc) slot"
    using find_slot_no_insert [OF r(1,2), of "(a, e)"] P by auto
  have "slot \<noteq> None" using slot(2) r(3) refl a by (cases slot) (auto simp: slot_of_def)
  then obtain s where s: "slot = Some s" "deleted (a, e) (hc_htab hc) (htab_clear_slot s (hc_htab hc))"
    using slot(2) by (auto simp: slot_of_def)
  obtain us vs where xs: "xs = us @ (a, e) # vs" using a by (metis split_list)
  have "distinct (map fst xs)" using r(4) by (simp add: chain_rep_def)
  then have "(a, e) \<notin> set us" "(a, e) \<notin> set vs" unfolding xs by force+
  then have "removeAll (a, e) xs = us @ vs" using xs by simp
  moreover obtain s' where "hc_remove s a (h, hc) = Some s'" "hc_changes P xs (h, hc) (us @ vs) s'"
    using hc_remove [OF rep [unfolded xs] s(2) refl] xs by auto
  ultimately show ?thesis using slot(1) s(1) c by (auto simp: hc_delete_entry_def)
qed

lemma hc_member:
  assumes rep: "hc_rep P h hc xs" and P: "P e"
  shows "hc_member e hc = Some (\<exists>x \<in> set xs. ht_eq_f (hc_htab hc) x ((0, 0), e))"
proof -
  note r = hc_rep_simps [OF rep]
  obtain d where "htab_find (hc_htab hc) ((0, 0), e) = Some d"
      "case d of EMPTY_ENTRY \<Rightarrow> (\<forall>y \<in># ht_mset (hc_htab hc). \<not> ht_eq_f (hc_htab hc) y ((0, 0), e))
       | DELETED_ENTRY \<Rightarrow> False | Entry y \<Rightarrow> y \<in># ht_mset (hc_htab hc) \<and> ht_eq_f (hc_htab hc) y ((0, 0), e)"
    using htab_find [OF r(1,2), of "((0, 0), e)"] P by auto
  then show ?thesis using r(3) by (cases d) (auto simp: hc_member_def)
qed

text \<open>Emptying the structure.\<close>

lemma hc_length:
  assumes "hc_rep P h hc xs"
  shows "length xs \<le> unat (ht_n_elements (hc_htab hc))"
proof -
  have "length (entries (ht_table (hc_htab hc))) = length xs"
    using hc_rep_simps(3) [OF assms] by (metis ht_mset_def size_mset)
  then show ?thesis using ht_inv_simps(2) [OF hc_rep_simps(1) [OF assms]] by (simp add: ht_counts_def)
qed

lemma hc_release:
  assumes rep: "hc_rep P h hc xs"
  shows "\<exists>h'. hc_release (h, hc) = Some h' \<and> hp_mem h' = (\<lambda>a. if a \<in> fst ` set xs then None else hp_mem h a) \<and>
    pool_inv (hp_pool h') (dom (hp_mem h'))"
proof -
  note r = hc_rep_simps [OF rep]
  have d: "dseg (hp_mem h) None (ch_first (hc_chain hc)) xs (ch_last (hc_chain hc)) None" "distinct (map fst xs)"
    using r(4) by (simp_all add: chain_rep_def)
  from release_entries [OF d r(7,8) hc_length [OF rep]]
  obtain h' where h': "release_entries (unat (ht_n_elements (hc_htab hc))) (ch_first (hc_chain hc)) h = Some h'"
      "hp_mem h' = (\<lambda>a. if a \<in> fst ` set xs then None else hp_mem h a)" "pool_inv (hp_pool h') (dom (hp_mem h) - fst ` set xs)"
    by blast
  moreover have "dom (hp_mem h') = dom (hp_mem h) - fst ` set xs" unfolding h'(2) by (auto simp: dom_def)
  ultimately show ?thesis by (simp add: hc_release_def)
qed

lemma hc_empty:
  assumes rep: "hc_rep P h hc xs"
  shows "\<exists>h' hc'. hc_empty (h, hc) = Some (h', hc') \<and> hc_rep P h' hc' [] \<and> hc_frame xs h h' \<and>
    dom (hp_mem h') = dom (hp_mem h) - fst ` set xs \<and>
    same_client (hc_htab hc) (hc_htab hc') \<and> hchain.more hc' = hchain.more hc \<and> live (hc_htab hc') = live (hc_htab hc)"
proof -
  note r = hc_rep_simps [OF rep]
  obtain h' where h': "hc_release (h, hc) = Some h'" "hp_mem h' = (\<lambda>a. if a \<in> fst ` set xs then None else hp_mem h a)"
      "pool_inv (hp_pool h') (dom (hp_mem h'))"
    using hc_release [OF rep] by blast
  let ?hc = "hc\<lparr>hc_chain := \<lparr>ch_first = None, ch_last = None\<rparr>, hc_htab := htab_empty (hc_htab hc)\<rparr>"
  note e = htab_empty [OF r(1)]
  have "ht_funs (P \<circ> snd) (htab_empty (hc_htab hc))" using r(2) e(2,4) by (simp add: ht_funs_def same_client_def)
  then have "hc_rep P h' ?hc []"
    using rep e h'(3) by (simp add: hc_rep_def chain_rep_def same_client_def)
  moreover have "hc_frame xs h h'" unfolding hc_frame_def h'(2) by simp
  moreover have "dom (hp_mem h') = dom (hp_mem h) - fst ` set xs" unfolding h'(2) by (auto simp: dom_def)
  ultimately show ?thesis using h'(1) e by (simp add: hc_empty_def)
qed

text \<open>Adding an entry, possibly instead of an equal one that was removed before.\<close>

lemma hc_add:
  assumes rep: "hc_rep P h hc xs" and P: "P e" and ins: "inserted (a, e) (hc_htab hc) (htab\<lparr>ht_table := (ht_table htab)[unat slot := Entry (a, e)]\<rparr>)"
    and ys: "ys = filter (\<lambda>x. \<not> ht_eq_f (hc_htab hc) x (a, e)) xs"
    and ch: "chain_rep mem ch ys" "dom mem = dom (hp_mem h) - fst ` set xs \<union> fst ` set ys" and pool: "pool_inv pool (insert a (dom mem))" "a \<notin> dom mem"
    and frame: "\<forall>b \<in> dom (hp_mem h). b \<notin> fst ` set xs \<longrightarrow> mem b = hp_mem h b"
  shows "\<exists>s'. hc_add slot a e (h\<lparr>hp_mem := mem, hp_pool := pool\<rparr>, hc\<lparr>hc_htab := htab, hc_chain := ch\<rparr>) = Some s' \<and>
    hc_changes P xs (h, hc) (ys @ [(a, e)]) s'"
proof -
  note r = hc_rep_simps [OF rep]
  let ?htab = "htab\<lparr>ht_table := (ht_table htab)[unat slot := Entry (a, e)]\<rparr>"
  have fresh: "a \<notin> fst ` set ys" using ch(2) pool(2) by auto
  obtain mem' ch' where ap: "chain_append a e (mem, ch) = Some (mem', ch')" "chain_rep mem' ch' (ys @ [(a, e)])"
      "\<forall>b. b \<noteq> a \<longrightarrow> b \<notin> fst ` set ys \<longrightarrow> mem' b = mem b" "dom mem' = insert a (dom mem)"
    using chain_append [OF ch(1) fresh, of e] by blast
  have i: "ht_inv ?htab" "same_client (hc_htab hc) ?htab" "ht_mset ?htab = add_mset (a, e) (filter_mset (\<lambda>y. \<not> ht_eq_f (hc_htab hc) y (a, e)) (mset xs))"
      "live ?htab + size (ht_mset (hc_htab hc)) = live (hc_htab hc) + size (ht_mset ?htab)"
    using ins r(3) unfolding inserted_def by auto
  have ms: "ht_mset ?htab = mset (ys @ [(a, e)])" unfolding i(3) ys by simp
  have "ht_funs (P \<circ> snd) ?htab" using r(2,3) i(2) P ys unfolding ht_funs_def ms by (auto simp: same_client_def)
  moreover have "fst ` set (ys @ [(a, e)]) \<subseteq> dom mem'" using ap(4) ch(2) by auto
  ultimately have "hc_rep P (h\<lparr>hp_mem := mem', hp_pool := pool\<rparr>) (hc\<lparr>hc_htab := ?htab, hc_chain := ch'\<rparr>) (ys @ [(a, e)])"
    using rep i(1,2) ms ap(2,4) pool(1) by (simp add: hc_rep_def same_client_def)
  moreover have "hc_frame xs h (h\<lparr>hp_mem := mem', hp_pool := pool\<rparr>)"
  proof -
    have "mem' b = hp_mem h b" if b: "b \<in> dom (hp_mem h)" "b \<notin> fst ` set xs" for b
    proof -
      have "mem b = hp_mem h b" using frame b by blast
      then have "b \<noteq> a" using b(1) pool(2) by (metis domIff)
      moreover have "b \<notin> fst ` set ys" using b(2) ys by auto
      ultimately show ?thesis using ap(3) \<open>mem b = _\<close> by metis
    qed
    then show ?thesis by (simp add: hc_frame_def)
  qed
  moreover have "live ?htab + length xs = live (hc_htab hc) + length (ys @ [(a, e)])" using i(4) ms r(3) by simp
  moreover have "dom mem' = dom (hp_mem h) - fst ` set xs \<union> fst ` set (ys @ [(a, e)])" using ap(4) ch(2) by auto
  ultimately show ?thesis using ap(1) i(2)
    by (intro exI [of _ "(h\<lparr>hp_mem := mem', hp_pool := pool\<rparr>, hc\<lparr>hc_htab := ?htab, hc_chain := ch'\<rparr>)"]) (simp add: hc_add_def hc_changes_def)
qed

end
