(* ===== verification/Keyed_List.thy ===== *)
theory Keyed_List
  imports Hashed_Chain Data_Refinement
begin

text \<open>
  Entries with keys, kept in a hash table and a chain. The hash table compares and hashes entries by functions of the client; when
  those agree with the keys of the entries, the structure is a list of entries with different keys, in the order of insertion.
\<close>

definition has_key :: "('e \<Rightarrow> 'k) \<Rightarrow> 'k \<Rightarrow> 'e list \<Rightarrow> bool" where
  "has_key key k es \<longleftrightarrow> (\<exists>e \<in> set es. key e = k)"

definition drop_key :: "('e \<Rightarrow> 'k) \<Rightarrow> 'k \<Rightarrow> 'e list \<Rightarrow> 'e list" where
  "drop_key key k es = filter (\<lambda>e. key e \<noteq> k) es"

lemma has_key_simps [simp]:
  "has_key key k [] \<longleftrightarrow> False"
  "has_key key k (drop_key key k' es) \<longleftrightarrow> k \<noteq> k' \<and> has_key key k es"
  "has_key key k (es @ [e]) \<longleftrightarrow> has_key key k es \<or> key e = k"
  by (auto simp: has_key_def drop_key_def)

lemma drop_key_absent: "\<not> has_key key k es \<Longrightarrow> drop_key key k es = es"
  by (auto simp: has_key_def drop_key_def filter_id_conv)

text \<open>The address of an entry in the chain.\<close>

fun entry_at :: "nat \<Rightarrow> ptr option \<Rightarrow> (ptr \<rightharpoonup> 'e cell) \<Rightarrow> ptr option" where
  "entry_at i None mem = None"
| "entry_at 0 (Some a) mem = Some a"
| "entry_at (Suc i) (Some a) mem = Option.bind (mem a) (\<lambda>c. entry_at i (c_next c) mem)"

lemma entry_at:
  "dseg mem pr p xs lst None \<Longrightarrow> entry_at i p mem = (if i < length xs then Some (fst (xs ! i)) else None)"
proof (induction xs arbitrary: i pr p)
  case (Cons x xs)
  obtain a e where "x = (a, e)" by (rule prod.exhaust)
  then show ?case using Cons by (cases i) auto
qed simp

lemma remove_nth:
  assumes "distinct (map fst xs)" "i < length xs"
  shows "map snd (removeAll (xs ! i) xs) = take i (map snd xs) @ drop (Suc i) (map snd xs)"
proof -
  have xs: "xs = take i xs @ xs ! i # drop (Suc i) xs" using assms(2) by (rule id_take_nth_drop)
  have "distinct xs" using assms(1) by (simp add: distinct_map)
  then have "xs ! i \<notin> set (take i xs)" "xs ! i \<notin> set (drop (Suc i) xs)" using xs by (metis distinct_append not_distinct_conv_prefix distinct.simps(2))+
  then have "removeAll (xs ! i) xs = take i xs @ drop (Suc i) xs" by (subst (2) xs) simp
  then show ?thesis by (simp add: take_map drop_map)
qed

text \<open>
  The structure holds the entries \<open>es\<close>. It is the only client of the pool, so that the elements of the pool in use are its entries.
\<close>

definition kl_rep ::
  "('e \<Rightarrow> bool) \<Rightarrow> (ptr \<times> 'e \<Rightarrow> u32) \<Rightarrow> (ptr \<times> 'e \<Rightarrow> ptr \<times> 'e \<Rightarrow> bool) \<Rightarrow> ('e, 'x) hc_state \<Rightarrow> 'e list \<Rightarrow> bool" where
  "kl_rep proper hash eq s es \<longleftrightarrow>
     (\<exists>xs. hc_rep proper (fst s) (snd s) xs \<and> map snd xs = es \<and> dom (hp_mem (fst s)) = fst ` set xs \<and>
        ht_hash_f (hc_htab (snd s)) = hash \<and> ht_eq_f (hc_htab (snd s)) = eq)"

definition kl_live :: "('e, 'x) hc_state \<Rightarrow> nat" where
  "kl_live s = live (hc_htab (snd s))"

locale keyed_entries =
  fixes proper :: "'e \<Rightarrow> bool" and key :: "'e \<Rightarrow> 'k" and hash :: "ptr \<times> 'e \<Rightarrow> u32" and eq :: "ptr \<times> 'e \<Rightarrow> ptr \<times> 'e \<Rightarrow> bool"
  assumes eq_key: "proper (snd x) \<Longrightarrow> proper (snd y) \<Longrightarrow> eq x y \<longleftrightarrow> key (snd x) = key (snd y)"
    and hash_key: "proper (snd x) \<Longrightarrow> proper (snd y) \<Longrightarrow> key (snd x) = key (snd y) \<Longrightarrow> hash x = hash y"
    and eq_equivp: "equivp eq"
begin

lemma filter_keys:
  assumes "\<forall>x \<in> set xs. proper (snd x)" "proper e"
  shows "map snd (filter (\<lambda>x. \<not> eq x (a, e)) xs) = drop_key key (key e) (map snd xs)"
    and "(\<exists>x \<in> set xs. eq x (a, e)) \<longleftrightarrow> has_key key (key e) (map snd xs)"
proof -
  have eq: "eq x (a, e) \<longleftrightarrow> key (snd x) = key e" if "x \<in> set xs" for x
    using eq_key [of x "(a, e)"] assms that by simp
  then have "filter (\<lambda>x. \<not> eq x (a, e)) xs = filter (\<lambda>x. key (snd x) \<noteq> key e) xs"
    by (intro filter_cong) auto
  then show "map snd (filter (\<lambda>x. \<not> eq x (a, e)) xs) = drop_key key (key e) (map snd xs)"
    by (simp add: drop_key_def filter_map comp_def)
  show "(\<exists>x \<in> set xs. eq x (a, e)) \<longleftrightarrow> has_key key (key e) (map snd xs)"
    using eq by (auto simp: has_key_def)
qed

lemma repE:
  assumes "kl_rep proper hash eq (h, j) es"
  obtains xs where "hc_rep proper h j xs" "map snd xs = es" "dom (hp_mem h) = fst ` set xs"
    "ht_hash_f (hc_htab j) = hash" "ht_eq_f (hc_htab j) = eq" "\<forall>x \<in> set xs. proper (snd x)"
proof -
  obtain xs where xs: "hc_rep proper h j xs" "map snd xs = es" "dom (hp_mem h) = fst ` set xs"
      "ht_hash_f (hc_htab j) = hash" "ht_eq_f (hc_htab j) = eq"
    using assms by (auto simp: kl_rep_def)
  moreover have "\<forall>x \<in> set xs. proper (snd x)" using hc_rep_simps(2,3) [OF xs(1)] by (auto simp: ht_funs_def)
  ultimately show thesis using that by blast
qed

lemma all_proper:
  assumes "kl_rep proper hash eq (h, j) es" and "e \<in> set es"
  shows "proper e"
  using assms(1) by (rule repE) (use assms(2) in auto)

text \<open>What a change of the entries in memory means for the list.\<close>

lemma changes:
  assumes ch: "hc_changes proper xs (h, j) ys s'" and dom: "dom (hp_mem h) = fst ` set xs"
    and funs: "ht_hash_f (hc_htab j) = hash" "ht_eq_f (hc_htab j) = eq"
  shows "kl_rep proper hash eq s' (map snd ys)" "kl_live s' + length xs = kl_live (h, j) + length ys"
    "hchain.more (snd s') = hchain.more j"
proof -
  have c: "hc_rep proper (fst s') (snd s') ys" "dom (hp_mem (fst s')) = fst ` set ys" "same_client (hc_htab j) (hc_htab (snd s'))"
      "live (hc_htab (snd s')) + length xs = live (hc_htab j) + length ys" "hchain.more (snd s') = hchain.more j"
    using ch dom by (simp_all add: hc_changes_def)
  show "kl_rep proper hash eq s' (map snd ys)"
    unfolding kl_rep_def using c(1-3) funs by (auto simp: same_client_def intro!: exI [of _ ys])
  show "kl_live s' + length xs = kl_live (h, j) + length ys" "hchain.more (snd s') = hchain.more j" using c(4,5) by (simp_all add: kl_live_def)
qed

lemma delete:
  assumes rep: "kl_rep proper hash eq (h, j) es" and e: "proper e"
  shows "\<exists>s'. hc_delete e (h, j) = Some (has_key key (key e) es, s') \<and> kl_rep proper hash eq s' (drop_key key (key e) es) \<and>
    kl_live s' + length es = kl_live (h, j) + length (drop_key key (key e) es)"
proof -
  obtain xs where xs: "hc_rep proper h j xs" "map snd xs = es" "dom (hp_mem h) = fst ` set xs"
    "ht_hash_f (hc_htab j) = hash" "ht_eq_f (hc_htab j) = eq" "\<forall>x \<in> set xs. proper (snd x)"
    using rep by (rule repE) blast
  obtain s' where s': "hc_delete e (h, j) = Some (\<exists>x \<in> set xs. eq x ((0, 0), e), s')"
      "hc_changes proper xs (h, j) (filter (\<lambda>x. \<not> eq x ((0, 0), e)) xs) s'"
    using hc_delete [OF xs(1) e] xs(5) by auto
  note k = filter_keys [OF xs(6) e, of "(0, 0)"]
  have "length (filter (\<lambda>x. \<not> eq x ((0, 0), e)) xs) = length (drop_key key (key e) es)" using k(1) xs(2) by (metis length_map)
  then show ?thesis using s'(1) changes [OF s'(2) xs(3-5)] k xs(2) by auto
qed

lemma delete_nth:
  assumes rep: "kl_rep proper hash eq (h, j) es"
  shows "case entry_at i (ch_first (hc_chain j)) (hp_mem h) of
      None \<Rightarrow> length es \<le> i
    | Some a \<Rightarrow> i < length es \<and> (\<exists>s'. hc_delete_entry a (h, j) = Some (True, s') \<and> kl_rep proper hash eq s' (take i es @ drop (Suc i) es) \<and>
        kl_live s' + 1 = kl_live (h, j))"
proof -
  obtain xs where xs: "hc_rep proper h j xs" "map snd xs = es" "dom (hp_mem h) = fst ` set xs"
    "ht_hash_f (hc_htab j) = hash" "ht_eq_f (hc_htab j) = eq" "\<forall>x \<in> set xs. proper (snd x)"
    using rep by (rule repE) blast
  have ch: "dseg (hp_mem h) None (ch_first (hc_chain j)) xs (ch_last (hc_chain j)) None" "distinct (map fst xs)"
    using hc_rep_simps(4) [OF xs(1)] by (simp_all add: chain_rep_def)
  show ?thesis
  proof (cases "i < length xs")
    case True
    obtain s' where s': "hc_delete_entry (fst (xs ! i)) (h, j) = Some (True, s')" "hc_changes proper xs (h, j) (removeAll (xs ! i) xs) s'"
      using hc_delete_entry [OF xs(1), of "fst (xs ! i)" "snd (xs ! i)"] True by auto
    have m: "map snd (removeAll (xs ! i) xs) = take i es @ drop (Suc i) es" using remove_nth [OF ch(2) True] xs(2) by simp
    have "length (map snd (removeAll (xs ! i) xs)) + 1 = length es" unfolding m using True xs(2) by auto
    then have "length (removeAll (xs ! i) xs) + 1 = length xs" using xs(2) by auto
    then have "kl_live s' + 1 = kl_live (h, j)" using changes(2) [OF s'(2) xs(3-5)] by linarith
    moreover have "kl_rep proper hash eq s' (take i es @ drop (Suc i) es)" using changes(1) [OF s'(2) xs(3-5)] m by simp
    ultimately show ?thesis using s'(1) True xs(2) entry_at [OF ch(1), of i] by auto
  qed (use xs(2) entry_at [OF ch(1), of i] in auto)
qed

lemma member:
  assumes rep: "kl_rep proper hash eq (h, j) es" and e: "proper e"
  shows "hc_member e j = Some (has_key key (key e) es)"
proof -
  obtain xs where xs: "hc_rep proper h j xs" "map snd xs = es" "ht_eq_f (hc_htab j) = eq" "\<forall>x \<in> set xs. proper (snd x)"
    using rep by (rule repE) blast
  show ?thesis using hc_member [OF xs(1) e] filter_keys(2) [OF xs(4) e, of "(0, 0)"] xs(2,3) by simp
qed

lemma empty:
  assumes rep: "kl_rep proper hash eq (h, j) es"
  shows "\<exists>s'. hc_empty (h, j) = Some s' \<and> kl_rep proper hash eq s' [] \<and> kl_live s' = kl_live (h, j)"
proof -
  obtain xs where xs: "hc_rep proper h j xs" "dom (hp_mem h) = fst ` set xs" "ht_hash_f (hc_htab j) = hash" "ht_eq_f (hc_htab j) = eq"
    using rep by (rule repE) blast
  obtain h' j' where e: "hc_empty (h, j) = Some (h', j')" "hc_rep proper h' j' []" "dom (hp_mem h') = dom (hp_mem h) - fst ` set xs"
      "same_client (hc_htab j) (hc_htab j')" "live (hc_htab j') = live (hc_htab j)"
    using hc_empty [OF xs(1)] by blast
  then show ?thesis using xs(2-4) by (auto simp: kl_rep_def kl_live_def same_client_def)
qed

text \<open>A new structure with a new pool.\<close>

lemma hash_eq: "(proper \<circ> snd) x \<Longrightarrow> (proper \<circ> snd) y \<Longrightarrow> eq x y \<Longrightarrow> hash x = hash y"
  unfolding comp_def by (rule hash_key) (auto simp: eq_key)

lemma create:
  assumes "unat nelem \<le> 1048573" and sz: "unat sz \<le> 4096"
    and mk: "\<And>htab. hc_htab (mk htab) = htab" "\<And>htab. hc_chain (mk htab) = \<lparr>ch_first = None, ch_last = None\<rparr>"
  shows "\<exists>htab. htab_create nelem hash eq False = Some htab \<and>
    kl_rep proper hash eq (\<lparr>hp_mem = Map.empty, hp_pool = create_alloc_pool sz 1020\<rparr>, mk htab) [] \<and>
    kl_live (\<lparr>hp_mem = Map.empty, hp_pool = create_alloc_pool sz 1020\<rparr>, mk htab) = 0"
proof -
  obtain htab where h: "htab_create nelem hash eq False = Some htab" "ht_inv htab" "ht_mset htab = {#}" "live htab = 0"
      "ht_hash_f htab = hash" "ht_eq_f htab = eq" "\<not> ht_del_f htab"
    using htab_create [OF assms(1), of hash eq False] by auto
  have pool: "pool_inv (create_alloc_pool sz 1020) {}"
    by (rule create_alloc_pool_inv) (use sz in simp_all)
  have "ht_funs (proper \<circ> snd) htab" unfolding ht_funs_def h(3,5,6) using eq_equivp hash_eq by (simp del: split_paired_All comp_apply)
  then have "hc_rep proper \<lparr>hp_mem = Map.empty, hp_pool = create_alloc_pool sz 1020\<rparr> (mk htab) []"
    using mk h pool by (simp add: hc_rep_def chain_rep_def)
  then show ?thesis using h mk(1) by (simp add: kl_rep_def kl_live_def)
qed

text \<open>The entries in memory are those of the list, and destroying the structure releases them.\<close>

lemma memory:
  assumes rep: "kl_rep proper hash eq (h, j) es"
  shows "elts_allocated (hp_pool h) - elts_free (hp_pool h) = of_nat (length es)"
    and "\<exists>h'. hc_release (h, j) = Some h' \<and> hp_mem h' = Map.empty \<and> elts_allocated (hp_pool h') = elts_free (hp_pool h')"
proof -
  obtain xs where xs: "hc_rep proper h j xs" "map snd xs = es" "dom (hp_mem h) = fst ` set xs"
    using rep by (rule repE) blast
  have pool: "pool_inv (hp_pool h) (fst ` set xs)" "distinct (map fst xs)"
    using hc_rep_simps(4,7) [OF xs(1)] xs(3) by (simp_all add: chain_rep_def)
  have "card (fst ` set xs) = length es" using distinct_card [OF pool(2)] xs(2) by auto
  then show "elts_allocated (hp_pool h) - elts_free (hp_pool h) = of_nat (length es)"
    using pool(1) by (simp add: pool_inv_def)
  obtain h' where h': "hc_release (h, j) = Some h'" "hp_mem h' = (\<lambda>a. if a \<in> fst ` set xs then None else hp_mem h a)"
      "pool_inv (hp_pool h') (dom (hp_mem h'))"
    using hc_release [OF xs(1)] by blast
  have "hp_mem h' = Map.empty" unfolding h'(2) using xs(3) by (auto simp: fun_eq_iff domIff)
  moreover from this have "elts_allocated (hp_pool h') = elts_free (hp_pool h')" using h'(3) by (simp add: pool_inv_def)
  ultimately show "\<exists>h'. hc_release (h, j) = Some h' \<and> hp_mem h' = Map.empty \<and> elts_allocated (hp_pool h') = elts_free (hp_pool h')"
    using h'(1) by blast
qed

end

end
