(* ===== verification/Crc32.thy ===== *)
theory Crc32
  imports Zfs_Prelude
begin

text \<open>
  The checksum of \<^verbatim>\<open>lib/crc32/crc32.c\<close>. The source computes a byte at a time with a table of 256
  words; the comment above the table says that the entries are the results of eight shift and xor
  operations with the polynomial \<^verbatim>\<open>edb88320\<close>. The theorems show that this is so for every entry, that the
  table driven code computes the bit by bit definition of the checksum, and that a checksum can be
  computed piece by piece. The daemon uses it as the hash function of its tables.
\<close>

section \<open>The code\<close>

definition crc32_table :: "u32 list" where
  "crc32_table = [
    0x00000000, 0x77073096, 0xee0e612c, 0x990951ba, 0x076dc419, 0x706af48f, 0xe963a535, 0x9e6495a3,
    0x0edb8832, 0x79dcb8a4, 0xe0d5e91e, 0x97d2d988, 0x09b64c2b, 0x7eb17cbd, 0xe7b82d07, 0x90bf1d91,
    0x1db71064, 0x6ab020f2, 0xf3b97148, 0x84be41de, 0x1adad47d, 0x6ddde4eb, 0xf4d4b551, 0x83d385c7,
    0x136c9856, 0x646ba8c0, 0xfd62f97a, 0x8a65c9ec, 0x14015c4f, 0x63066cd9, 0xfa0f3d63, 0x8d080df5,
    0x3b6e20c8, 0x4c69105e, 0xd56041e4, 0xa2677172, 0x3c03e4d1, 0x4b04d447, 0xd20d85fd, 0xa50ab56b,
    0x35b5a8fa, 0x42b2986c, 0xdbbbc9d6, 0xacbcf940, 0x32d86ce3, 0x45df5c75, 0xdcd60dcf, 0xabd13d59,
    0x26d930ac, 0x51de003a, 0xc8d75180, 0xbfd06116, 0x21b4f4b5, 0x56b3c423, 0xcfba9599, 0xb8bda50f,
    0x2802b89e, 0x5f058808, 0xc60cd9b2, 0xb10be924, 0x2f6f7c87, 0x58684c11, 0xc1611dab, 0xb6662d3d,
    0x76dc4190, 0x01db7106, 0x98d220bc, 0xefd5102a, 0x71b18589, 0x06b6b51f, 0x9fbfe4a5, 0xe8b8d433,
    0x7807c9a2, 0x0f00f934, 0x9609a88e, 0xe10e9818, 0x7f6a0dbb, 0x086d3d2d, 0x91646c97, 0xe6635c01,
    0x6b6b51f4, 0x1c6c6162, 0x856530d8, 0xf262004e, 0x6c0695ed, 0x1b01a57b, 0x8208f4c1, 0xf50fc457,
    0x65b0d9c6, 0x12b7e950, 0x8bbeb8ea, 0xfcb9887c, 0x62dd1ddf, 0x15da2d49, 0x8cd37cf3, 0xfbd44c65,
    0x4db26158, 0x3ab551ce, 0xa3bc0074, 0xd4bb30e2, 0x4adfa541, 0x3dd895d7, 0xa4d1c46d, 0xd3d6f4fb,
    0x4369e96a, 0x346ed9fc, 0xad678846, 0xda60b8d0, 0x44042d73, 0x33031de5, 0xaa0a4c5f, 0xdd0d7cc9,
    0x5005713c, 0x270241aa, 0xbe0b1010, 0xc90c2086, 0x5768b525, 0x206f85b3, 0xb966d409, 0xce61e49f,
    0x5edef90e, 0x29d9c998, 0xb0d09822, 0xc7d7a8b4, 0x59b33d17, 0x2eb40d81, 0xb7bd5c3b, 0xc0ba6cad,
    0xedb88320, 0x9abfb3b6, 0x03b6e20c, 0x74b1d29a, 0xead54739, 0x9dd277af, 0x04db2615, 0x73dc1683,
    0xe3630b12, 0x94643b84, 0x0d6d6a3e, 0x7a6a5aa8, 0xe40ecf0b, 0x9309ff9d, 0x0a00ae27, 0x7d079eb1,
    0xf00f9344, 0x8708a3d2, 0x1e01f268, 0x6906c2fe, 0xf762575d, 0x806567cb, 0x196c3671, 0x6e6b06e7,
    0xfed41b76, 0x89d32be0, 0x10da7a5a, 0x67dd4acc, 0xf9b9df6f, 0x8ebeeff9, 0x17b7be43, 0x60b08ed5,
    0xd6d6a3e8, 0xa1d1937e, 0x38d8c2c4, 0x4fdff252, 0xd1bb67f1, 0xa6bc5767, 0x3fb506dd, 0x48b2364b,
    0xd80d2bda, 0xaf0a1b4c, 0x36034af6, 0x41047a60, 0xdf60efc3, 0xa867df55, 0x316e8eef, 0x4669be79,
    0xcb61b38c, 0xbc66831a, 0x256fd2a0, 0x5268e236, 0xcc0c7795, 0xbb0b4703, 0x220216b9, 0x5505262f,
    0xc5ba3bbe, 0xb2bd0b28, 0x2bb45a92, 0x5cb36a04, 0xc2d7ffa7, 0xb5d0cf31, 0x2cd99e8b, 0x5bdeae1d,
    0x9b64c2b0, 0xec63f226, 0x756aa39c, 0x026d930a, 0x9c0906a9, 0xeb0e363f, 0x72076785, 0x05005713,
    0x95bf4a82, 0xe2b87a14, 0x7bb12bae, 0x0cb61b38, 0x92d28e9b, 0xe5d5be0d, 0x7cdcefb7, 0x0bdbdf21,
    0x86d3d2d4, 0xf1d4e242, 0x68ddb3f8, 0x1fda836e, 0x81be16cd, 0xf6b9265b, 0x6fb077e1, 0x18b74777,
    0x88085ae6, 0xff0f6a70, 0x66063bca, 0x11010b5c, 0x8f659eff, 0xf862ae69, 0x616bffd3, 0x166ccf45,
    0xa00ae278, 0xd70dd2ee, 0x4e048354, 0x3903b3c2, 0xa7672661, 0xd06016f7, 0x4969474d, 0x3e6e77db,
    0xaed16a4a, 0xd9d65adc, 0x40df0b66, 0x37d83bf0, 0xa9bcae53, 0xdebb9ec5, 0x47b2cf7f, 0x30b5ffe9,
    0xbdbdf21c, 0xcabac28a, 0x53b39330, 0x24b4a3a6, 0xbad03605, 0xcdd70693, 0x54de5729, 0x23d967bf,
    0xb3667a2e, 0xc4614ab8, 0x5d681b02, 0x2a6f2b94, 0xb40bbe37, 0xc30c8ea1, 0x5a05df1b, 0x2d02ef8d]"

definition crc32_next :: "u32 \<Rightarrow> u8 \<Rightarrow> u32" where
  "crc32_next crc c = crc32_table ! unat ((crc XOR ucast c) AND 0xff) XOR drop_bit 8 crc"

definition crc32_update :: "u32 \<Rightarrow> u8 list \<Rightarrow> u32" where
  "crc32_update crc buf = foldl crc32_next (crc XOR 0xffffffff) buf XOR 0xffffffff"

definition crc32_buffer :: "u8 list \<Rightarrow> u32" where
  "crc32_buffer buf = foldl crc32_next 0xffffffff buf XOR 0xffffffff"

text \<open>The string is the bytes before the first zero.\<close>

definition crc32_string :: "u8 list \<Rightarrow> u32" where
  "crc32_string s = foldl crc32_next 0xffffffff (takeWhile (\<lambda>c. c \<noteq> 0) s) XOR 0xffffffff"


section \<open>The definition of the checksum\<close>

definition crc_step :: "u32 \<Rightarrow> u32" where
  "crc_step x = (if bit x 0 then drop_bit 1 x XOR 0xedb88320 else drop_bit 1 x)"

definition crc_byte :: "u32 \<Rightarrow> u8 \<Rightarrow> u32" where
  "crc_byte crc c = (crc_step ^^ 8) (crc XOR ucast c)"

definition crc_ref :: "u8 list \<Rightarrow> u32" where
  "crc_ref buf = NOT (foldl crc_byte (NOT 0) buf)"


section \<open>The table\<close>

lemma crc_step_xor: "crc_step (x XOR y) = crc_step x XOR crc_step y"
proof -
  have eq: "crc_step z = drop_bit 1 z XOR (if bit z 0 then 0xedb88320 else 0)" for z
    by (simp add: crc_step_def)
  have swap: "(a XOR b) XOR c XOR d = (a XOR c) XOR b XOR d" for a b c d :: u32
    by (simp only: xor.assoc xor.left_commute)
  show ?thesis
    unfolding eq drop_bit_xor swap by (cases "bit x 0"; cases "bit y 0") (simp_all only: bit_xor_iff, simp_all)
qed

lemma crc_steps_xor: "(crc_step ^^ n) (x XOR y) = (crc_step ^^ n) x XOR (crc_step ^^ n) y"
  by (induction n) (simp_all add: crc_step_xor)

text \<open>The table grows by one input bit at a time.\<close>

definition extend_table :: "u32 \<Rightarrow> u32 list \<Rightarrow> u32 list" where
  "extend_table b t = t @ map (\<lambda>x. b XOR x) t"

definition table_for :: "nat \<Rightarrow> u32 list \<Rightarrow> bool" where
  "table_for k t \<longleftrightarrow> length t = 2 ^ k \<and> (\<forall>i < 2 ^ k. t ! i = (crc_step ^^ 8) (of_nat i))"

lemma of_nat_xor_top:
  assumes "i < 2 ^ k"
  shows "(of_nat (2 ^ k + i) :: u32) = of_nat (2 ^ k) XOR of_nat i"
proof -
  have "\<not> bit i k"
    using bit_take_bit_iff [of k i k] take_bit_nat_eq_self [OF assms] by simp
  then have "2 ^ k AND i = 0"
    by (intro bit_eqI) (auto simp: bit_and_iff bit_exp_iff)
  then have "2 ^ k + i = 2 ^ k XOR i"
    by (rule disjunctive_add_eq_xor)
  then show ?thesis by (metis of_nat_xor_eq)
qed

lemma table_for_extend:
  assumes t: "table_for k t" and b: "b = (crc_step ^^ 8) (2 ^ k)"
  shows "table_for (Suc k) (extend_table b t)"
proof -
  have "extend_table b t ! i = (crc_step ^^ 8) (of_nat i)" if i: "i < 2 ^ Suc k" for i
  proof (cases "i < 2 ^ k")
    case True
    then show ?thesis using t by (simp add: table_for_def extend_table_def nth_append)
  next
    case False
    define j where "j = i - 2 ^ k"
    have j: "i = 2 ^ k + j" "j < 2 ^ k" using False i by (simp_all add: j_def)
    have "extend_table b t ! i = b XOR t ! j"
      using t j by (simp add: table_for_def extend_table_def nth_append)
    also have "t ! j = (crc_step ^^ 8) (of_nat j)"
      using t j(2) unfolding table_for_def by blast
    also have "b XOR (crc_step ^^ 8) (of_nat j) = (crc_step ^^ 8) (of_nat (2 ^ k) XOR of_nat j)"
      by (simp only: b crc_steps_xor of_nat_power of_nat_numeral)
    finally show ?thesis
      by (simp only: j(1) of_nat_xor_top [OF j(2)])
  qed
  then show ?thesis using t by (simp add: table_for_def extend_table_def)
qed

text \<open>Evaluation from the inside out: a step is unfolded on a number only.\<close>

lemma crc_step_eval:
  "crc_step (numeral n) = (if bit (numeral n :: u32) 0 then drop_bit 1 (numeral n) XOR 0xedb88320 else drop_bit 1 (numeral n))"
  "crc_step 1 = 0xedb88320" "crc_step 0 = 0"
  by (simp_all add: crc_step_def)

lemma funpow_8: "(f ^^ 8) x = f (f (f (f (f (f (f (f x)))))))"
  by (simp add: eval_nat_numeral)

lemma basis:
  "0x77073096 = (crc_step ^^ 8) (2 ^ 0)"
  "0xee0e612c = (crc_step ^^ 8) (2 ^ Suc 0)"
  "0x076dc419 = (crc_step ^^ 8) (2 ^ Suc (Suc (0)))"
  "0x0edb8832 = (crc_step ^^ 8) (2 ^ Suc (Suc (Suc (0))))"
  "0x1db71064 = (crc_step ^^ 8) (2 ^ Suc (Suc (Suc (Suc (0)))))"
  "0x3b6e20c8 = (crc_step ^^ 8) (2 ^ Suc (Suc (Suc (Suc (Suc (0))))))"
  "0x76dc4190 = (crc_step ^^ 8) (2 ^ Suc (Suc (Suc (Suc (Suc (Suc (0)))))))"
  "0xedb88320 = (crc_step ^^ 8) (2 ^ Suc (Suc (Suc (Suc (Suc (Suc (Suc (0))))))))"
  unfolding funpow_8 by (simp_all add: crc_step_eval)

lemma numeral_8_eq_Suc: "(8 :: nat) = Suc (Suc (Suc (Suc (Suc (Suc (Suc (Suc 0)))))))"
  by simp

lemma crc32_table_correct: "length crc32_table = 256 \<and> (\<forall>i < 256. crc32_table ! i = (crc_step ^^ 8) (of_nat i))"
proof -
  have t0: "table_for 0 [0]"
    by (simp add: table_for_def funpow_8 crc_step_eval)
  have "table_for 8 (extend_table 0xedb88320 (extend_table 0x76dc4190 (extend_table 0x3b6e20c8 (extend_table 0x1db71064 (extend_table 0x0edb8832 (extend_table 0x076dc419 (extend_table 0xee0e612c (extend_table 0x77073096 [0]))))))))"
      (is "table_for 8 ?t")
    unfolding numeral_8_eq_Suc
    by (intro table_for_extend t0 basis)
  then have t: "length ?t = 256" "\<And>i. i < 256 \<Longrightarrow> ?t ! i = (crc_step ^^ 8) (of_nat i)"
    by (simp_all add: table_for_def)
  have "crc32_table = ?t"
    by (simp add: crc32_table_def extend_table_def)
  then show ?thesis using t by simp
qed


section \<open>The table driven code computes the checksum\<close>

lemma crc_steps_high: "(\<And>i. i < n \<Longrightarrow> \<not> bit x i) \<Longrightarrow> (crc_step ^^ n) x = drop_bit n x"
proof (induction n)
  case (Suc n)
  have "\<not> bit (drop_bit n x) 0" using Suc.prems [of n] by (simp add: bit_drop_bit_eq)
  then have "crc_step (drop_bit n x) = drop_bit 1 (drop_bit n x)" by (simp only: crc_step_def if_False)
  with Suc show ?case by (simp only: funpow.simps comp_apply drop_bit_drop_bit) simp
qed simp

lemma split_byte: "x = (x AND m) XOR (x AND NOT m)" for x m :: u32
  by (intro bit_eqI) (auto simp: bit_xor_iff bit_and_iff bit_not_iff)

lemma mask_8: "(0xff :: u32) = mask 8"
  by (simp add: mask_eq_exp_minus_1)

lemma unat_low_byte: "unat (x AND 0xff) < 256" for x :: u32
  unfolding mask_8 take_bit_eq_mask [symmetric] by (simp add: unsigned_take_bit_eq take_bit_nat_def)

lemma crc_byte_eq_next: "crc32_next crc c = crc_byte crc c"
proof -
  let ?x = "crc XOR ucast c"
  let ?lo = "?x AND 0xff" and ?hi = "?x AND NOT 0xff"
  have lo: "unat ?lo < 256"
    by (rule unat_low_byte)
  have hi: "(crc_step ^^ 8) ?hi = drop_bit 8 ?hi"
    by (rule crc_steps_high) (simp add: mask_8 bit_and_iff bit_not_iff bit_mask_iff)
  have "drop_bit 8 ?hi = drop_bit 8 crc"
    unfolding mask_8
    by (intro bit_eqI) (auto simp: bit_drop_bit_eq bit_and_iff bit_not_iff bit_mask_iff bit_xor_iff bit_ucast_iff
        dest: bit_imp_le_length)
  moreover have "(crc_step ^^ 8) ?x = (crc_step ^^ 8) ?lo XOR (crc_step ^^ 8) ?hi"
    using crc_steps_xor [of 8 ?lo ?hi] split_byte [of ?x "0xff"] by (metis (no_types))
  moreover have "crc32_table ! unat ?lo = (crc_step ^^ 8) ?lo"
    using crc32_table_correct lo by simp
  ultimately show ?thesis
    by (simp only: crc32_next_def crc_byte_def hi)
qed

lemma foldl_crc: "foldl crc32_next crc buf = foldl crc_byte crc buf"
  by (simp add: crc_byte_eq_next [abs_def] cong: foldl_cong)

text \<open>
  C8. The code with the table computes the checksum that is defined bit by bit: eight shift and xor
  steps with the reflected polynomial for every byte, between two complements.
\<close>

theorem crc32_buffer_correct: "crc32_buffer buf = crc_ref buf"
proof -
  have ones: "(0xffffffff :: u32) = NOT 0" by simp
  show ?thesis
    unfolding crc32_buffer_def crc_ref_def foldl_crc ones by simp
qed

text \<open>
  C9. A checksum can be computed in pieces: updating the checksum of a buffer with a second buffer
  gives the checksum of both, and the checksum of a string is the one of its bytes.
\<close>

theorem crc32_update_append:
  "crc32_update (crc32_buffer a) b = crc32_buffer (a @ b)
    \<and> (0 \<notin> set s \<longrightarrow> crc32_string (s @ 0 # rest) = crc32_buffer s)"
proof -
  have "crc XOR m XOR m = crc" for crc m :: u32 by (simp add: xor.assoc)
  moreover have "takeWhile (\<lambda>c. c \<noteq> 0) (s @ 0 # rest) = s" if "0 \<notin> set s"
    using that by (induction s) auto
  ultimately show ?thesis
    by (simp add: crc32_update_def crc32_buffer_def crc32_string_def xor.assoc)
qed

theorem crc32_update_append_witness:
  "crc32_update (crc32_buffer [1]) [2] = crc32_buffer [1, 2] \<and> crc32_string [102, 0, 7] = crc32_buffer [102]"
  using crc32_update_append [of "[1]" "[2]" "[102]" "[7]"] by simp

end
