(* ===== verification/C_String.thy ===== *)
theory C_String
  imports Data_Coding
begin

text \<open>
  Names as they are kept in the memory of the daemon: a length and a string that ends with a zero byte. Hash
  functions read the number of bytes that the length says, comparisons with \<^verbatim>\<open>strcmp\<close> read
  up to the first zero byte. The two agree on proper names, which have no zero byte inside.
\<close>

definition c_str :: "u8 list \<Rightarrow> u8 list" where
  "c_str s = takeWhile (\<lambda>b. b \<noteq> 0) s"

text \<open>The result of \<^verbatim>\<open>strcmp (s, t) == 0\<close>.\<close>

definition strcmp_eq :: "u8 list \<Rightarrow> u8 list \<Rightarrow> bool" where
  "strcmp_eq s t \<longleftrightarrow> c_str s = c_str t"

definition str_bytes :: "zstring \<Rightarrow> u8 list" where
  "str_bytes x = take (unat (str_len x)) (str_str x)"

definition proper_name :: "zstring \<Rightarrow> bool" where
  "proper_name x \<longleftrightarrow> length (str_str x) = Suc (unat (str_len x)) \<and> str_str x ! unat (str_len x) = 0 \<and> 0 \<notin> set (str_bytes x)"

definition same_name :: "zstring \<Rightarrow> zstring \<Rightarrow> bool" where
  "same_name x y \<longleftrightarrow> str_len x = str_len y \<and> strcmp_eq (str_str x) (str_str y)"

lemma proper_name_c_str:
  assumes "proper_name x"
  shows "c_str (str_str x) = str_bytes x" "str_str x = str_bytes x @ [0]"
proof -
  show s: "str_str x = str_bytes x @ [0]"
    using assms take_Suc_conv_app_nth [of "unat (str_len x)" "str_str x"] by (simp add: proper_name_def str_bytes_def)
  have "takeWhile (\<lambda>b. b \<noteq> 0) (str_bytes x @ [0]) = str_bytes x"
    using assms by (subst takeWhile_append2) (auto simp: proper_name_def)
  then show "c_str (str_str x) = str_bytes x" unfolding c_str_def by (metis s)
qed

lemma same_name_proper:
  assumes "proper_name x" "proper_name y"
  shows "same_name x y \<longleftrightarrow> x = y"
proof
  assume "same_name x y"
  then have "str_len x = str_len y" "str_str x = str_str y"
    using proper_name_c_str [OF assms(1)] proper_name_c_str [OF assms(2)] unfolding same_name_def strcmp_eq_def by metis+
  then show "x = y" by simp
qed (simp add: same_name_def strcmp_eq_def)

text \<open>The name with given bytes.\<close>

definition name_of :: "u8 list \<Rightarrow> zstring" where
  "name_of bs = \<lparr>str_len = of_nat (length bs), str_str = bs @ [0]\<rparr>"

lemma proper_name_of: "0 \<notin> set bs \<Longrightarrow> length bs < 2 ^ 32 \<Longrightarrow> proper_name (name_of bs)"
  by (simp add: proper_name_def name_of_def str_bytes_def unat_of_nat)

end
