(* ===== verification/Journal.thy ===== *)
theory Journal
  imports Keyed_List Crc32 C_String Zfs_Protocol
begin

text \<open>
  The journals of \<^verbatim>\<open>src/zfsd/fs-entities/journal/journal.c\<close>, which record the changes of a directory
  that the master of its volume has not seen yet. A deletion annihilates the addition of the same
  name. A journal is shown to be an ordered list of entries with different keys that releases the memory of every entry it drops,
  and to lead from the directory the master knows to the local one.
\<close>


section \<open>The journal\<close>

datatype journal_operation = JOURNAL_OPERATION_ADD | JOURNAL_OPERATION_DEL

definition journal_operation_num :: "journal_operation \<Rightarrow> u32" where
  "journal_operation_num oper = (case oper of JOURNAL_OPERATION_ADD \<Rightarrow> 0 | JOURNAL_OPERATION_DEL \<Rightarrow> 1)"

record journal_entry =
  je_dev :: u32
  je_ino :: u32
  je_gen :: u32
  je_oper :: journal_operation
  je_name :: zstring
  je_master_fh :: zfs_fh
  je_master_version :: u64

definition JOURNAL_HASH :: "journal_entry \<Rightarrow> u32" where
  "JOURNAL_HASH j = crc32_update (crc32_buffer (str_bytes (je_name j))) (le_bytes 4 (journal_operation_num (je_oper j)))"

definition journal_hash :: "ptr \<times> journal_entry \<Rightarrow> u32" where
  "journal_hash x = JOURNAL_HASH (snd x)"

definition journal_eq :: "ptr \<times> journal_entry \<Rightarrow> ptr \<times> journal_entry \<Rightarrow> bool" where
  "journal_eq x y \<longleftrightarrow> je_oper (snd x) = je_oper (snd y) \<and> str_len (je_name (snd x)) = str_len (je_name (snd y)) \<and>
     strcmp_eq (str_str (je_name (snd x))) (str_str (je_name (snd y)))"

record journal = "journal_entry hchain" +
  jr_fd :: int
  jr_generation :: u32

type_synonym journal_state = "journal_entry heap \<times> journal"

definition sizeof_journal_entry :: u64 where
  "sizeof_journal_entry = 80"

text \<open>The memory pool of the entries, and the entries in it.\<close>

definition initialize_journal_c :: "journal_entry heap" where
  "initialize_journal_c = \<lparr>hp_mem = Map.empty, hp_pool = create_alloc_pool sizeof_journal_entry 1020\<rparr>"

definition cleanup_journal_c :: "journal_entry heap \<Rightarrow> nat list" where
  "cleanup_journal_c h = free_alloc_pool (hp_pool h)"

definition journal_create :: "u32 \<Rightarrow> journal option" where
  "journal_create nelem =
     map_option
       (\<lambda>htab. \<lparr>hc_htab = htab, hc_chain = \<lparr>ch_first = None, ch_last = None\<rparr>, jr_fd = - 1, jr_generation = 0\<rparr>)
       (htab_create nelem journal_hash journal_eq False)"

definition journal_empty :: "journal_state \<Rightarrow> journal_state option" where
  "journal_empty s = hc_empty s"

definition journal_destroy :: "journal_state \<Rightarrow> journal_entry heap option" where
  "journal_destroy s = hc_release s"

text \<open>An entry that is looked up has only an operation and a name; the other fields are not read.\<close>

definition journal_key :: "journal_operation \<Rightarrow> zstring \<Rightarrow> journal_entry" where
  "journal_key oper name =
     \<lparr>je_dev = 0, je_ino = 0, je_gen = 0, je_oper = oper, je_name = name,
      je_master_fh = \<lparr>fh_sid = 0, fh_vid = 0, fh_dev = 0, fh_ino = 0, fh_gen = 0\<rparr>, je_master_version = 0\<rparr>"

definition journal_member :: "journal_operation \<Rightarrow> zstring \<Rightarrow> journal \<Rightarrow> bool option" where
  "journal_member oper name j = hc_member (journal_key oper name) j"

definition journal_delete :: "journal_operation \<Rightarrow> zstring \<Rightarrow> journal_state \<Rightarrow> (bool \<times> journal_state) option" where
  "journal_delete oper name s = hc_delete (journal_key oper name) s"

definition journal_delete_entry :: "ptr \<Rightarrow> journal_state \<Rightarrow> (bool \<times> journal_state) option" where
  "journal_delete_entry a s = hc_delete_entry a s"

text \<open>Take an entry that is replaced out of the chain and release it.\<close>

definition drop_old :: "ptr \<Rightarrow> journal_state \<Rightarrow> journal_state option" where
  "drop_old old = (\<lambda>(h, j).
     map_option (\<lambda>(mem, ch). (release_entry old (h\<lparr>hp_mem := mem\<rparr>), j\<lparr>hc_chain := ch\<rparr>))
       (chain_unlink old (hp_mem h, hc_chain j)))"

text \<open>
  Add an entry. If there is one with the same operation and name, it is replaced. The memory of the name, which the parameter
  \<^verbatim>\<open>copy\<close> of the code is about, is not modelled.
\<close>

definition journal_add :: "journal_entry \<Rightarrow> journal_state \<Rightarrow> journal_state option" where
  "journal_add e = (\<lambda>(h, j).
     Option.bind (pool_alloc (hp_pool h))
       (\<lambda>(a, pool). Option.bind (htab_find_slot (hc_htab j) (a, e) INSERT)
          (\<lambda>(slot, htab). Option.bind slot
             (\<lambda>slot. Option.bind
                (case ht_table htab ! unat slot of
                   EMPTY_ENTRY \<Rightarrow> Some (h\<lparr>hp_pool := pool\<rparr>, j\<lparr>hc_htab := htab\<rparr>)
                 | DELETED_ENTRY \<Rightarrow> None
                 | Entry (old, _) \<Rightarrow> drop_old old (h\<lparr>hp_pool := pool\<rparr>, j\<lparr>hc_htab := htab\<rparr>))
                (hc_add slot a e)))))"

definition journal_insert ::
  "journal_operation \<Rightarrow> zfs_fh \<Rightarrow> zfs_fh \<Rightarrow> u64 \<Rightarrow> zstring \<Rightarrow> journal_state \<Rightarrow> (bool \<times> journal_state) option" where
  "journal_insert oper local_fh master_fh master_version name s =
     Option.bind (if oper = JOURNAL_OPERATION_DEL then journal_delete JOURNAL_OPERATION_ADD name s else Some (False, s))
       (\<lambda>(annihilated, s).
          if annihilated then Some (True, s)
          else map_option (Pair True)
            (journal_add
               \<lparr>je_dev = fh_dev local_fh, je_ino = fh_ino local_fh, je_gen = fh_gen local_fh, je_oper = oper, je_name = name,
                je_master_fh = master_fh, je_master_version = master_version\<rparr> s))"


section \<open>Keys\<close>

definition je_proper :: "journal_entry \<Rightarrow> bool" where
  "je_proper e \<longleftrightarrow> proper_name (je_name e)"

definition je_key :: "journal_entry \<Rightarrow> journal_operation \<times> zstring" where
  "je_key e = (je_oper e, je_name e)"

lemma journal_eq_key:
  "je_proper (snd x) \<Longrightarrow> je_proper (snd y) \<Longrightarrow> journal_eq x y \<longleftrightarrow> je_key (snd x) = je_key (snd y)"
  using same_name_proper [of "je_name (snd x)" "je_name (snd y)"] by (auto simp: journal_eq_def je_proper_def je_key_def same_name_def)

interpretation je: keyed_entries je_proper je_key journal_hash journal_eq
proof unfold_locales
  show "equivp journal_eq" by (intro equivpI reflpI sympI transpI) (auto simp: journal_eq_def strcmp_eq_def)
  show "je_key (snd x) = je_key (snd y) \<Longrightarrow> journal_hash x = journal_hash y" for x y
    by (simp add: journal_hash_def JOURNAL_HASH_def je_key_def)
qed (rule journal_eq_key)

lemma je_simps [simp]:
  "je_proper (journal_key oper name) \<longleftrightarrow> proper_name name" "je_key (journal_key oper name) = (oper, name)"
  by (simp_all add: je_proper_def je_key_def journal_key_def)


section \<open>The operations on the list of entries\<close>

lemma drop_old:
  assumes ch: "chain_rep (hp_mem h) (hc_chain j) (us @ (old, d) # vs)"
  shows "\<exists>mem ch. drop_old old (h, j) = Some (h\<lparr>hp_mem := mem, hp_pool := pool_free (hp_pool h) old\<rparr>, j\<lparr>hc_chain := ch\<rparr>) \<and>
    chain_rep mem ch (us @ vs) \<and> (\<forall>b. b \<noteq> old \<longrightarrow> b \<notin> fst ` set (us @ vs) \<longrightarrow> mem b = hp_mem h b) \<and> dom mem = dom (hp_mem h) - {old}"
proof -
  obtain mem' ch' where un: "chain_unlink old (hp_mem h, hc_chain j) = Some (mem', ch')" "chain_rep mem' ch' (us @ vs)"
      "\<forall>b. b \<notin> fst ` set (us @ vs) \<longrightarrow> mem' b = hp_mem h b" "dom mem' = dom (hp_mem h)"
    using chain_unlink [OF ch] by blast
  have notin: "old \<notin> fst ` set (us @ vs)" using ch by (auto simp: chain_rep_def)
  have "chain_rep (mem'(old := None)) ch' (us @ vs)"
    using un(2) notin unfolding chain_rep_def by (subst dseg_cong [of "us @ vs" _ mem']) auto
  moreover have "drop_old old (h, j) = Some (h\<lparr>hp_mem := mem'(old := None), hp_pool := pool_free (hp_pool h) old\<rparr>, j\<lparr>hc_chain := ch'\<rparr>)"
    using un(1) by (simp add: drop_old_def release_entry_def)
  ultimately show ?thesis using un(3,4) by (intro exI [of _ "mem'(old := None)"] exI [of _ ch']) simp
qed

lemma journal_add:
  assumes rep: "hc_rep P h j xs" and P: "P e" and few: "live (hc_htab j) \<le> 524286"
  shows "\<exists>a s'. journal_add e (h, j) = Some s' \<and>
    hc_changes P xs (h, j) (filter (\<lambda>x. \<not> ht_eq_f (hc_htab j) x (a, e)) xs @ [(a, e)]) s'"
proof -
  note r = hc_rep_simps [OF rep]
  let ?eq = "ht_eq_f (hc_htab j)"
  obtain a pool where a: "pool_alloc (hp_pool h) = Some (a, pool)" "a \<notin> dom (hp_mem h)" "pool_inv pool (insert a (dom (hp_mem h)))"
    using pool_alloc_inv [OF r(7)] by blast
  obtain slot htab where slot: "htab_find_slot (hc_htab j) (a, e) INSERT = Some (Some slot, htab)" "slot_for (a, e) (hc_htab j) slot htab"
    using find_slot_insert [OF r(1,2), of "(a, e)"] P few by auto
  have ins: "inserted (a, e) (hc_htab j) (htab\<lparr>ht_table := (ht_table htab)[unat slot := Entry (a, e)]\<rparr>)"
    using slot(2) by (simp add: slot_for_def)
  show ?thesis
  proof (cases "ht_table htab ! unat slot")
    case DELETED_ENTRY
    then show ?thesis using slot(2) by (simp add: slot_for_def)
  next
    case EMPTY_ENTRY
    then have "\<forall>x \<in> set xs. \<not> ?eq x (a, e)" using slot(2) r(3) by (simp add: slot_for_def)
    then have ys: "filter (\<lambda>x. \<not> ?eq x (a, e)) xs = xs" by (simp add: filter_id_conv)
    have "dom (hp_mem h) = dom (hp_mem h) - fst ` set xs \<union> fst ` set xs" using r(8) by auto
    then obtain s' where "hc_add slot a e (h\<lparr>hp_mem := hp_mem h, hp_pool := pool\<rparr>, j\<lparr>hc_htab := htab, hc_chain := hc_chain j\<rparr>) = Some s'"
        "hc_changes P xs (h, j) (xs @ [(a, e)]) s'"
      using hc_add [OF rep P ins ys [symmetric] r(4) _ a(3,2)] by blast
    then show ?thesis using a(1) slot(1) EMPTY_ENTRY ys by (intro exI [of _ a] exI [of _ s']) (simp add: journal_add_def)
  next
    case (Entry y)
    obtain old d where d: "y = (old, d)" by (rule prod.exhaust)
    have y: "(old, d) \<in> set xs" "?eq (old, d) (a, e)" using slot(2) Entry d r(3) by (simp_all add: slot_for_def)
    obtain us vs where xs: "xs = us @ (old, d) # vs" using y(1) by (metis split_list)
    have ys: "filter (\<lambda>x. \<not> ?eq x (a, e)) xs = us @ vs" using uniq_filter [OF r(6) xs] y(2) by simp
    obtain mem ch where un: "drop_old old (h\<lparr>hp_pool := pool\<rparr>, j\<lparr>hc_htab := htab\<rparr>) =
          Some (h\<lparr>hp_mem := mem, hp_pool := pool_free pool old\<rparr>, j\<lparr>hc_htab := htab, hc_chain := ch\<rparr>)"
        "chain_rep mem ch (us @ vs)" "\<forall>b. b \<noteq> old \<longrightarrow> b \<notin> fst ` set (us @ vs) \<longrightarrow> mem b = hp_mem h b" "dom mem = dom (hp_mem h) - {old}"
      using drop_old [of "h\<lparr>hp_pool := pool\<rparr>" "j\<lparr>hc_htab := htab\<rparr>" us old d vs] r(4) xs by auto
    have old: "old \<in> dom (hp_mem h)" "old \<noteq> a" "old \<notin> fst ` set (us @ vs)" "fst ` set (us @ vs) \<subseteq> dom (hp_mem h)"
      using r(4,8) xs a(2) by (auto simp: chain_rep_def)
    have "insert a (dom (hp_mem h)) - {old} = insert a (dom mem)" using old(2) un(4) by auto
    then have pool: "pool_inv (pool_free pool old) (insert a (dom mem))" using pool_free_inv [OF a(3), of old] old(1) by simp
    have dom: "dom mem = dom (hp_mem h) - fst ` set xs \<union> fst ` set (us @ vs)" using old(3,4) un(4) xs by auto
    have "a \<notin> dom mem" using a(2) un(4) by simp
    moreover have "\<forall>b \<in> dom (hp_mem h). b \<notin> fst ` set xs \<longrightarrow> mem b = hp_mem h b" using un(3) xs by (simp del: split_paired_All)
    ultimately obtain s' where "hc_add slot a e (h\<lparr>hp_mem := mem, hp_pool := pool_free pool old\<rparr>, j\<lparr>hc_htab := htab, hc_chain := ch\<rparr>) = Some s'"
        "hc_changes P xs (h, j) (us @ vs @ [(a, e)]) s'"
      using hc_add [OF rep P ins ys [symmetric] un(2) dom pool] by auto
    then show ?thesis using a(1) slot(1) Entry d un(1) ys by (intro exI [of _ a] exI [of _ s']) (simp add: journal_add_def)
  qed
qed


section \<open>A journal and its client\<close>

text \<open>What a client does with a journal, the results it gets, and the list of entries it sees.\<close>

datatype j_op =
    J_Insert journal_operation zfs_fh zfs_fh u64 zstring
  | J_Delete journal_operation zstring
  | J_Delete_Nth nat
  | J_Member journal_operation zstring
  | J_Empty

fun j_op_ok :: "j_op \<Rightarrow> bool" where
  "j_op_ok (J_Insert oper lfh mfh ver name) \<longleftrightarrow> proper_name name"
| "j_op_ok (J_Delete oper name) \<longleftrightarrow> proper_name name"
| "j_op_ok (J_Delete_Nth i) \<longleftrightarrow> True"
| "j_op_ok (J_Member oper name) \<longleftrightarrow> proper_name name"
| "j_op_ok J_Empty \<longleftrightarrow> True"

definition j_log :: "bool list \<Rightarrow> (bool \<times> journal_state) option \<Rightarrow> (journal_state \<times> bool list) option" where
  "j_log rs r = map_option (\<lambda>(b, s). (s, rs @ [b])) r"

fun j_step :: "j_op \<Rightarrow> journal_state \<times> bool list \<Rightarrow> (journal_state \<times> bool list) option" where
  "j_step (J_Insert oper lfh mfh ver name) (s, rs) = j_log rs (journal_insert oper lfh mfh ver name s)"
| "j_step (J_Delete oper name) (s, rs) = j_log rs (journal_delete oper name s)"
| "j_step (J_Delete_Nth i) (s, rs) =
     (case entry_at i (ch_first (hc_chain (snd s))) (hp_mem (fst s)) of
        None \<Rightarrow> Some (s, rs) | Some a \<Rightarrow> j_log rs (journal_delete_entry a s))"
| "j_step (J_Member oper name) (s, rs) = map_option (\<lambda>b. (s, rs @ [b])) (journal_member oper name (snd s))"
| "j_step J_Empty (s, rs) = map_option (\<lambda>s. (s, rs)) (journal_empty s)"

abbreviation has_entry :: "journal_operation \<Rightarrow> zstring \<Rightarrow> journal_entry list \<Rightarrow> bool" where
  "has_entry oper name es \<equiv> has_key je_key (oper, name) es"

abbreviation drop_entry :: "journal_operation \<Rightarrow> zstring \<Rightarrow> journal_entry list \<Rightarrow> journal_entry list" where
  "drop_entry oper name es \<equiv> drop_key je_key (oper, name) es"

fun j_spec :: "j_op \<Rightarrow> journal_entry list \<times> bool list \<Rightarrow> journal_entry list \<times> bool list" where
  "j_spec (J_Insert oper lfh mfh ver name) (es, rs) =
     (if oper = JOURNAL_OPERATION_DEL \<and> has_entry JOURNAL_OPERATION_ADD name es
      then (drop_entry JOURNAL_OPERATION_ADD name es, rs @ [True])
      else (drop_entry oper name es @
              [\<lparr>je_dev = fh_dev lfh, je_ino = fh_ino lfh, je_gen = fh_gen lfh, je_oper = oper, je_name = name,
                je_master_fh = mfh, je_master_version = ver\<rparr>], rs @ [True]))"
| "j_spec (J_Delete oper name) (es, rs) = (drop_entry oper name es, rs @ [has_entry oper name es])"
| "j_spec (J_Delete_Nth i) (es, rs) = (if i < length es then (take i es @ drop (Suc i) es, rs @ [True]) else (es, rs))"
| "j_spec (J_Member oper name) (es, rs) = (es, rs @ [has_entry oper name es])"
| "j_spec J_Empty (es, rs) = ([], rs)"

text \<open>The journal has the entries, and the results are those that were promised.\<close>

definition j_rep :: "journal_state \<times> bool list \<Rightarrow> journal_entry list \<times> bool list \<Rightarrow> bool" where
  "j_rep s v \<longleftrightarrow> snd s = snd v \<and> kl_rep je_proper journal_hash journal_eq (fst s) (fst v)"

definition j_used :: "journal_state \<times> bool list \<Rightarrow> journal_entry list \<times> bool list \<Rightarrow> nat" where
  "j_used s v = kl_live (fst s)"

abbreviation je_rep :: "journal_state \<Rightarrow> journal_entry list \<Rightarrow> bool" where
  "je_rep \<equiv> kl_rep je_proper journal_hash journal_eq"

lemma add_entry:
  assumes rep: "je_rep (h, j) es" and e: "je_proper e" and few: "kl_live (h, j) \<le> 524286"
  shows "\<exists>s'. journal_add e (h, j) = Some s' \<and> je_rep s' (drop_key je_key (je_key e) es @ [e]) \<and> kl_live s' \<le> Suc (kl_live (h, j))"
proof -
  obtain xs where xs: "hc_rep je_proper h j xs" "map snd xs = es" "dom (hp_mem h) = fst ` set xs"
    "ht_hash_f (hc_htab j) = journal_hash" "ht_eq_f (hc_htab j) = journal_eq" "\<forall>x \<in> set xs. je_proper (snd x)"
    using rep by (rule je.repE) blast
  obtain a s' where s': "journal_add e (h, j) = Some s'"
      "hc_changes je_proper xs (h, j) (filter (\<lambda>x. \<not> journal_eq x (a, e)) xs @ [(a, e)]) s'"
    using journal_add [OF xs(1) e] few xs(5) by (auto simp: kl_live_def)
  note c = je.changes [OF s'(2) xs(3-5)]
  have "map snd (filter (\<lambda>x. \<not> journal_eq x (a, e)) xs @ [(a, e)]) = drop_key je_key (je_key e) es @ [e]"
    using je.filter_keys(1) [OF xs(6) e, of a] xs(2) by simp
  moreover have "kl_live s' \<le> Suc (kl_live (h, j))"
    using c(2) length_filter_le [of "\<lambda>x. \<not> journal_eq x (a, e)" xs] by (simp del: length_filter_le)
  ultimately show ?thesis using s'(1) c(1) by auto
qed

lemma delete_entry:
  assumes rep: "je_rep (h, j) es" and name: "proper_name name"
  shows "\<exists>s'. journal_delete oper name (h, j) = Some (has_entry oper name es, s') \<and> je_rep s' (drop_entry oper name es) \<and> kl_live s' \<le> kl_live (h, j)"
proof -
  obtain s' where "hc_delete (journal_key oper name) (h, j) = Some (has_entry oper name es, s')" "je_rep s' (drop_entry oper name es)"
      "kl_live s' + length es = kl_live (h, j) + length (drop_entry oper name es)"
    using je.delete [OF rep, of "journal_key oper name"] name by auto
  moreover have "length (drop_entry oper name es) \<le> length es" by (simp add: drop_key_def)
  ultimately show ?thesis by (auto simp: journal_delete_def)
qed

lemma journal_insert:
  assumes rep: "je_rep (h, j) es" and name: "proper_name name" and few: "kl_live (h, j) \<le> 524286"
  shows "\<exists>s'. journal_insert oper lfh mfh ver name (h, j) = Some (True, s') \<and>
    j_rep (s', rs @ [True]) (j_spec (J_Insert oper lfh mfh ver name) (es, rs)) \<and> kl_live s' \<le> Suc (kl_live (h, j))"
proof -
  define e where "e = \<lparr>je_dev = fh_dev lfh, je_ino = fh_ino lfh, je_gen = fh_gen lfh, je_oper = oper, je_name = name,
    je_master_fh = mfh, je_master_version = ver\<rparr>"
  have e: "je_proper e" "je_key e = (oper, name)" using name by (simp_all add: e_def je_proper_def je_key_def)
  obtain s1 where s1: "journal_delete JOURNAL_OPERATION_ADD name (h, j) = Some (has_entry JOURNAL_OPERATION_ADD name es, s1)"
      "je_rep s1 (drop_entry JOURNAL_OPERATION_ADD name es)" "kl_live s1 \<le> kl_live (h, j)"
    using delete_entry [OF rep name] by blast
  let ?ann = "oper = JOURNAL_OPERATION_DEL \<and> has_entry JOURNAL_OPERATION_ADD name es"
  show ?thesis
  proof (cases ?ann)
    case True
    then show ?thesis using s1 by (auto simp: journal_insert_def j_rep_def)
  next
    case False
    define s2 where "s2 = (if oper = JOURNAL_OPERATION_DEL then s1 else (h, j))"
    have s2: "je_rep s2 es" "kl_live s2 \<le> kl_live (h, j)" using s1(2,3) rep False by (auto simp: s2_def drop_key_absent)
    obtain s' where "journal_add e s2 = Some s'" "je_rep s' (drop_entry oper name es @ [e])" "kl_live s' \<le> Suc (kl_live s2)"
      using add_entry [of "fst s2" "snd s2" es, OF _ e(1)] s2 few e(2) by auto
    moreover from this have "journal_insert oper lfh mfh ver name (h, j) = Some (True, s')"
      using s1(1) False by (cases s') (auto simp: journal_insert_def e_def s2_def split: if_splits)
    ultimately show ?thesis using s2(2) False by (intro exI [of _ s']) (auto simp: j_rep_def e_def)
  qed
qed

lemma j_step:
  assumes rep: "j_rep s v" and ok: "j_op_ok op" and few: "j_used s v < 524287"
  shows "\<exists>s'. j_step op s = Some s' \<and> j_rep s' (j_spec op v) \<and> j_used s' (j_spec op v) \<le> Suc (j_used s v)"
proof -
  obtain h j rs es where sv: "s = ((h, j), rs)" "v = (es, rs)" using rep by (metis j_rep_def prod.exhaust_sel)
  then have rep': "je_rep (h, j) es" using rep by (simp add: j_rep_def)
  have few': "kl_live (h, j) \<le> 524286" using few sv by (simp add: j_used_def)
  show ?thesis
  proof (cases op)
    case (J_Insert oper lfh mfh ver name)
    then show ?thesis using journal_insert [OF rep' _ few', of name oper lfh mfh ver rs] ok sv
      by (auto simp: j_log_def j_used_def simp del: j_spec.simps)
  next
    case (J_Delete oper name)
    then show ?thesis using delete_entry [OF rep', of name oper] ok sv by (auto simp: j_log_def j_used_def j_rep_def)
  next
    case (J_Delete_Nth i)
    show ?thesis
    proof (cases "entry_at i (ch_first (hc_chain j)) (hp_mem h)")
      case (Some a)
      then obtain s' where "i < length es" "hc_delete_entry a (h, j) = Some (True, s')" "je_rep s' (take i es @ drop (Suc i) es)"
          "kl_live s' \<le> Suc (kl_live (h, j))"
        using je.delete_nth [OF rep', of i] by auto
      then show ?thesis using J_Delete_Nth Some sv by (simp add: j_log_def journal_delete_entry_def j_used_def j_rep_def)
    qed (use je.delete_nth [OF rep', of i] J_Delete_Nth sv rep in auto)
  next
    case (J_Member oper name)
    then show ?thesis using je.member [OF rep', of "journal_key oper name"] ok sv rep by (auto simp: j_used_def j_rep_def journal_member_def)
  next
    case J_Empty
    then show ?thesis using je.empty [OF rep'] sv by (auto simp: journal_empty_def j_used_def j_rep_def)
  qed
qed

interpretation journal: data_refinement j_step j_spec j_op_ok j_rep j_used 524287
  by unfold_locales (rule j_step)

lemma journal_create:
  assumes "unat nelem \<le> 1048573"
  shows "\<exists>j. journal_create nelem = Some j \<and> j_rep ((initialize_journal_c, j), []) ([], []) \<and> j_used ((initialize_journal_c, j), []) ([], []) = 0"
  using je.create [OF assms, of sizeof_journal_entry
    "\<lambda>htab. \<lparr>hc_htab = htab, hc_chain = \<lparr>ch_first = None, ch_last = None\<rparr>, jr_fd = - 1, jr_generation = 0\<rparr>"]
  by (auto simp: sizeof_journal_entry_def journal_create_def j_rep_def j_used_def initialize_journal_c_def)


section \<open>The directory that the journal describes\<close>

text \<open>
  The names in a directory after the changes that were put into the journal. A name is added only when it is not in the directory and
  deleted only when it is.
\<close>

fun dir_change :: "j_op \<Rightarrow> zstring set \<Rightarrow> zstring set" where
  "dir_change (J_Insert JOURNAL_OPERATION_ADD lfh mfh ver name) D = insert name D"
| "dir_change (J_Insert JOURNAL_OPERATION_DEL lfh mfh ver name) D = D - {name}"
| "dir_change _ D = D"

fun dir_changes_ok :: "j_op list \<Rightarrow> zstring set \<Rightarrow> bool" where
  "dir_changes_ok [] D \<longleftrightarrow> True"
| "dir_changes_ok (op # ops) D \<longleftrightarrow>
     (case op of
        J_Insert oper lfh mfh ver name \<Rightarrow> proper_name name \<and> (name \<in> D \<longleftrightarrow> oper = JOURNAL_OPERATION_DEL)
      | _ \<Rightarrow> False) \<and> dir_changes_ok ops (dir_change op D)"

definition adds :: "journal_entry list \<Rightarrow> zstring set" where
  "adds es = {name. has_entry JOURNAL_OPERATION_ADD name es}"

definition dels :: "journal_entry list \<Rightarrow> zstring set" where
  "dels es = {name. has_entry JOURNAL_OPERATION_DEL name es}"

definition describes :: "zstring set \<Rightarrow> journal_entry list \<Rightarrow> zstring set \<Rightarrow> bool" where
  "describes D0 es D \<longleftrightarrow> D = D0 - dels es \<union> adds es \<and> adds es \<inter> (D0 - dels es) = {}"

lemma describes_step:
  assumes d: "describes D0 es D" and ok: "dir_changes_ok [op] D"
  shows "describes D0 (fst (j_spec op (es, rs))) (dir_change op D)"
proof -
  obtain oper lfh mfh ver name where op: "op = J_Insert oper lfh mfh ver name" using ok by (cases op) auto
  then have mem: "name \<in> D \<longleftrightarrow> oper = JOURNAL_OPERATION_DEL" using ok by simp
  have D: "D = D0 - dels es \<union> adds es" "adds es \<inter> (D0 - dels es) = {}" using d by (simp_all add: describes_def)
  show ?thesis
  proof (cases oper)
    case JOURNAL_OPERATION_ADD
    let ?es = "fst (j_spec op (es, rs))"
    have "adds ?es = insert name (adds es)" "dels ?es = dels es"
      using op JOURNAL_OPERATION_ADD by (auto simp: adds_def dels_def je_key_def)
    then show ?thesis using D mem op JOURNAL_OPERATION_ADD by (auto simp: describes_def)
  next
    case JOURNAL_OPERATION_DEL
    let ?es = "fst (j_spec op (es, rs))"
    have "name \<in> D" using mem JOURNAL_OPERATION_DEL by simp
    have "adds ?es = adds es - {name} \<and> dels ?es = dels es" if "name \<in> adds es"
      using that op JOURNAL_OPERATION_DEL by (auto simp: adds_def dels_def je_key_def)
    moreover have "adds ?es = adds es \<and> dels ?es = insert name (dels es)" if "name \<notin> adds es"
      using that op JOURNAL_OPERATION_DEL by (auto simp: adds_def dels_def je_key_def)
    ultimately show ?thesis using D \<open>name \<in> D\<close> op JOURNAL_OPERATION_DEL by (cases "name \<in> adds es") (auto simp: describes_def)
  qed
qed

lemma describes_steps:
  "describes D0 es D \<Longrightarrow> dir_changes_ok ops D \<Longrightarrow> describes D0 (fst (fold j_spec ops (es, rs))) (fold dir_change ops D)"
proof (induction ops arbitrary: es rs D)
  case (Cons op ops)
  obtain es' rs' where v: "j_spec op (es, rs) = (es', rs')" by (rule prod.exhaust)
  have "describes D0 es' (dir_change op D)" using describes_step [OF Cons.prems(1), of op rs] Cons.prems(2) v by simp
  then show ?case using Cons.IH Cons.prems(2) v by simp
qed simp

text \<open>The names that lookups find.\<close>

lemma journal_member:
  assumes rep: "je_rep (h, j) es"
  shows "proper_name name \<and> journal_member oper name j = Some True \<longleftrightarrow> has_entry oper name es"
proof -
  have "proper_name name" if "has_entry oper name es"
    using that je.all_proper [OF rep] by (auto simp: has_key_def je_key_def je_proper_def)
  then show ?thesis using je.member [OF rep, of "journal_key oper name"] by (auto simp: journal_member_def)
qed

lemma dir_changes_op_ok: "dir_changes_ok ops D \<Longrightarrow> op \<in> set ops \<Longrightarrow> j_op_ok op"
  by (induction ops arbitrary: D) (auto split: j_op.splits)


section \<open>Properties\<close>

text \<open>C33. A new journal, created with a size up to 1048573, behaves like an ordered list of entries with different keys, under any sequence of
  at most 524287 insertions, deletions by key and by position, lookups and clearings with names without zero bytes: no operation fails, the results are
  those of the list, every entry that is dropped is returned to the pool, and destroying the journal returns the rest.\<close>
theorem journal_is_list:
  assumes "unat nelem \<le> 1048573" and "\<forall>op \<in> set ops. j_op_ok op" and "length ops \<le> 524287"
  shows "\<exists>j s. journal_create nelem = Some j \<and> run_ops j_step ops ((initialize_journal_c, j), []) = Some s \<and>
    j_rep s (fold j_spec ops ([], [])) \<and> snd s = snd (fold j_spec ops ([], [])) \<and>
    elts_allocated (hp_pool (fst (fst s))) - elts_free (hp_pool (fst (fst s))) = of_nat (length (fst (fold j_spec ops ([], [])))) \<and>
    (\<exists>h. journal_destroy (fst s) = Some h \<and> hp_mem h = Map.empty \<and> elts_allocated (hp_pool h) = elts_free (hp_pool h))"
proof -
  obtain j where j: "journal_create nelem = Some j" "j_rep ((initialize_journal_c, j), []) ([], [])" "j_used ((initialize_journal_c, j), []) ([], []) = 0"
    using journal_create [OF assms(1)] by blast
  obtain s where s: "run_ops j_step ops ((initialize_journal_c, j), []) = Some s" "j_rep s (fold j_spec ops ([], []))"
    using journal.run_refines [OF j(2) assms(2)] j(3) assms(3) by auto
  then have v: "snd s = snd (fold j_spec ops ([], []))" "je_rep (fst (fst s), snd (fst s)) (fst (fold j_spec ops ([], [])))"
    by (simp_all add: j_rep_def)
  then show ?thesis using j(1) s je.memory [OF v(2)] by (intro exI [of _ j] exI [of _ s]) (simp add: journal_destroy_def)
qed

theorem journal_is_list_witness:
  "\<exists>j s. journal_create 5 = Some j \<and>
     run_ops j_step
       [J_Insert JOURNAL_OPERATION_ADD \<lparr>fh_sid = 1, fh_vid = 2, fh_dev = 3, fh_ino = 4, fh_gen = 5\<rparr> \<lparr>fh_sid = 1, fh_vid = 2, fh_dev = 3, fh_ino = 4, fh_gen = 5\<rparr> 7 (name_of [65]),
        J_Member JOURNAL_OPERATION_ADD (name_of [65]),
        J_Insert JOURNAL_OPERATION_DEL \<lparr>fh_sid = 1, fh_vid = 2, fh_dev = 3, fh_ino = 4, fh_gen = 5\<rparr> \<lparr>fh_sid = 1, fh_vid = 2, fh_dev = 3, fh_ino = 4, fh_gen = 5\<rparr> 8 (name_of [65]),
        J_Member JOURNAL_OPERATION_ADD (name_of [65])] ((initialize_journal_c, j), []) = Some s \<and>
     snd s = [True, True, True, False] \<and> elts_allocated (hp_pool (fst (fst s))) = elts_free (hp_pool (fst (fst s)))"
proof -
  let ?fh = "\<lparr>fh_sid = 1, fh_vid = 2, fh_dev = 3, fh_ino = 4, fh_gen = 5\<rparr>"
  let ?ops = "[J_Insert JOURNAL_OPERATION_ADD ?fh ?fh 7 (name_of [65]), J_Member JOURNAL_OPERATION_ADD (name_of [65]),
    J_Insert JOURNAL_OPERATION_DEL ?fh ?fh 8 (name_of [65]), J_Member JOURNAL_OPERATION_ADD (name_of [65])]"
  have ok: "\<forall>op \<in> set ?ops. j_op_ok op" using proper_name_of [of "[65]"] by simp
  have "fold j_spec ?ops ([], []) = ([], [True, True, True, False])" by (simp add: has_key_def drop_key_def je_key_def)
  then show ?thesis using journal_is_list [of 5 ?ops, OF _ ok] by (simp del: fold_simps j_spec.simps) (metis eq_iff_diff_eq_0)
qed

text \<open>C32. The journal says how to get from the directory the master knows to the local one: take away the names with a deletion entry,
  then add the names with an addition entry, which are not there then. This holds for a journal created with a size up to 1048573 and any
  sequence of at most 524287 changes, each of which is put into the journal when it is made.\<close>
theorem journal_describes_changes:
  assumes "unat nelem \<le> 1048573" and "dir_changes_ok ops D" and "length ops \<le> 524287"
  shows "\<exists>j s. journal_create nelem = Some j \<and> run_ops j_step ops ((initialize_journal_c, j), []) = Some s \<and>
    fold dir_change ops D =
      D - {name. proper_name name \<and> journal_member JOURNAL_OPERATION_DEL name (snd (fst s)) = Some True} \<union>
      {name. proper_name name \<and> journal_member JOURNAL_OPERATION_ADD name (snd (fst s)) = Some True}"
proof -
  obtain j where j: "journal_create nelem = Some j" "j_rep ((initialize_journal_c, j), []) ([], [])" "j_used ((initialize_journal_c, j), []) ([], []) = 0"
    using journal_create [OF assms(1)] by blast
  have ok: "\<forall>op \<in> set ops. j_op_ok op" using dir_changes_op_ok [OF assms(2)] by blast
  obtain s where s: "run_ops j_step ops ((initialize_journal_c, j), []) = Some s" "j_rep s (fold j_spec ops ([], []))"
    using journal.run_refines [OF j(2) ok] j(3) assms(3) by auto
  obtain es rs where v: "fold j_spec ops ([], []) = (es, rs)" by (rule prod.exhaust)
  obtain h j' where s': "s = ((h, j'), rs)" using s(2) v by (cases s) (auto simp: j_rep_def)
  have rep: "je_rep (h, j') es" using s(2) v s' by (simp add: j_rep_def)
  have "describes D es (fold dir_change ops D)"
    using describes_steps [of D "[]" D ops "[]"] assms(2) v by (simp add: describes_def adds_def dels_def)
  moreover have "{name. proper_name name \<and> journal_member oper name j' = Some True} = {name. has_entry oper name es}" for oper
    using journal_member [OF rep] by auto
  ultimately show ?thesis using j(1) s(1) s' by (auto simp: describes_def adds_def dels_def)
qed

theorem journal_describes_changes_witness:
  "\<exists>j s. journal_create 5 = Some j \<and>
     run_ops j_step
       [J_Insert JOURNAL_OPERATION_DEL \<lparr>fh_sid = 1, fh_vid = 2, fh_dev = 3, fh_ino = 4, fh_gen = 5\<rparr> \<lparr>fh_sid = 1, fh_vid = 2, fh_dev = 3, fh_ino = 4, fh_gen = 5\<rparr> 7 (name_of [65])]
       ((initialize_journal_c, j), []) = Some s \<and>
     {} = {name_of [65]} - {name. proper_name name \<and> journal_member JOURNAL_OPERATION_DEL name (snd (fst s)) = Some True} \<union>
      {name. proper_name name \<and> journal_member JOURNAL_OPERATION_ADD name (snd (fst s)) = Some True}"
  using journal_describes_changes [of 5 "[J_Insert JOURNAL_OPERATION_DEL \<lparr>fh_sid = 1, fh_vid = 2, fh_dev = 3, fh_ino = 4, fh_gen = 5\<rparr>
      \<lparr>fh_sid = 1, fh_vid = 2, fh_dev = 3, fh_ino = 4, fh_gen = 5\<rparr> 7 (name_of [65])]" "{name_of [65]}"]
    proper_name_of [of "[65]"] by simp

end
