(* ===== verification/Hardlink_List.thy ===== *)
theory Hardlink_List
  imports Keyed_List Crc32 C_String
begin

text \<open>
  The lists of hard links of \<^verbatim>\<open>src/zfsd/fs-entities/hardlink/hardlink-list.c\<close>: the places (parent directory and name) in which a file
  is found. A list is shown to be an ordered list without repetitions, and its length to be right as long as the list is
  not emptied.
\<close>


section \<open>The hard link list\<close>

record hardlink_list_entry =
  hl_parent_dev :: u32
  hl_parent_ino :: u32
  hl_name :: zstring

definition HARDLINK_LIST_HASH :: "hardlink_list_entry \<Rightarrow> u32" where
  "HARDLINK_LIST_HASH h =
     crc32_update (crc32_update (crc32_buffer (str_bytes (hl_name h))) (le_bytes 4 (hl_parent_dev h))) (le_bytes 4 (hl_parent_ino h))"

definition hardlink_list_hash :: "ptr \<times> hardlink_list_entry \<Rightarrow> u32" where
  "hardlink_list_hash x = HARDLINK_LIST_HASH (snd x)"

definition hardlink_list_eq :: "ptr \<times> hardlink_list_entry \<Rightarrow> ptr \<times> hardlink_list_entry \<Rightarrow> bool" where
  "hardlink_list_eq x y \<longleftrightarrow> hl_parent_ino (snd x) = hl_parent_ino (snd y) \<and> hl_parent_dev (snd x) = hl_parent_dev (snd y) \<and>
     str_len (hl_name (snd x)) = str_len (hl_name (snd y)) \<and> strcmp_eq (str_str (hl_name (snd x))) (str_str (hl_name (snd y)))"

type_synonym hardlink_list = "hardlink_list_entry hchain"
type_synonym hl_state = "hardlink_list_entry heap \<times> hardlink_list"

definition sizeof_hardlink_list_entry :: u64 where
  "sizeof_hardlink_list_entry = 40"

definition initialize_hardlink_list_c :: "hardlink_list_entry heap" where
  "initialize_hardlink_list_c = \<lparr>hp_mem = Map.empty, hp_pool = create_alloc_pool sizeof_hardlink_list_entry 1020\<rparr>"

definition cleanup_hardlink_list_c :: "hardlink_list_entry heap \<Rightarrow> nat list" where
  "cleanup_hardlink_list_c h = free_alloc_pool (hp_pool h)"

definition hardlink_list_create :: "u32 \<Rightarrow> hardlink_list option" where
  "hardlink_list_create nelem =
     map_option (\<lambda>htab. \<lparr>hc_htab = htab, hc_chain = \<lparr>ch_first = None, ch_last = None\<rparr>\<rparr>)
       (htab_create nelem hardlink_list_hash hardlink_list_eq False)"

definition hardlink_list_empty :: "hl_state \<Rightarrow> hl_state option" where
  "hardlink_list_empty s = hc_empty s"

definition hardlink_list_destroy :: "hl_state \<Rightarrow> hardlink_list_entry heap option" where
  "hardlink_list_destroy s = hc_release s"

definition link_of :: "u32 \<Rightarrow> u32 \<Rightarrow> zstring \<Rightarrow> hardlink_list_entry" where
  "link_of parent_dev parent_ino name = \<lparr>hl_parent_dev = parent_dev, hl_parent_ino = parent_ino, hl_name = name\<rparr>"

text \<open>
  Insert a hard link. The entry is allocated before it is looked up, and released again when there is an equal one.
  The memory of the name, which the parameter \<^verbatim>\<open>copy\<close> of the code is about, is not modelled.
\<close>

definition hardlink_list_insert :: "u32 \<Rightarrow> u32 \<Rightarrow> zstring \<Rightarrow> hl_state \<Rightarrow> (bool \<times> hl_state) option" where
  "hardlink_list_insert parent_dev parent_ino name = (\<lambda>(h, hl).
     (let e = link_of parent_dev parent_ino name in
      Option.bind (pool_alloc (hp_pool h))
        (\<lambda>(a, pool). Option.bind (htab_find_slot (hc_htab hl) (a, e) INSERT)
           (\<lambda>(slot, htab). Option.bind slot
              (\<lambda>slot.
                 case ht_table htab ! unat slot of
                   EMPTY_ENTRY \<Rightarrow> map_option (Pair True) (hc_add slot a e (h\<lparr>hp_pool := pool\<rparr>, hl\<lparr>hc_htab := htab\<rparr>))
                 | _ \<Rightarrow> Some (False, h\<lparr>hp_pool := pool_free pool a\<rparr>, hl\<lparr>hc_htab := htab\<rparr>))))))"

definition hardlink_list_member :: "u32 \<Rightarrow> u32 \<Rightarrow> zstring \<Rightarrow> hardlink_list \<Rightarrow> bool option" where
  "hardlink_list_member parent_dev parent_ino name hl = hc_member (link_of parent_dev parent_ino name) hl"

definition hardlink_list_delete :: "u32 \<Rightarrow> u32 \<Rightarrow> zstring \<Rightarrow> hl_state \<Rightarrow> (bool \<times> hl_state) option" where
  "hardlink_list_delete parent_dev parent_ino name s = hc_delete (link_of parent_dev parent_ino name) s"

definition hardlink_list_delete_entry :: "ptr \<Rightarrow> hl_state \<Rightarrow> (bool \<times> hl_state) option" where
  "hardlink_list_delete_entry a s = hc_delete_entry a s"

definition hardlink_list_length :: "hardlink_list \<Rightarrow> u32" where
  "hardlink_list_length hl = ht_n_elements (hc_htab hl) - ht_n_deleted (hc_htab hl)"


section \<open>Keys\<close>

definition hl_proper :: "hardlink_list_entry \<Rightarrow> bool" where
  "hl_proper e \<longleftrightarrow> proper_name (hl_name e)"

lemma hardlink_eq_key:
  "hl_proper (snd x) \<Longrightarrow> hl_proper (snd y) \<Longrightarrow> hardlink_list_eq x y \<longleftrightarrow> id (snd x) = id (snd y)"
  using same_name_proper [of "hl_name (snd x)" "hl_name (snd y)"]
  by (cases "snd x"; cases "snd y") (auto simp: hardlink_list_eq_def hl_proper_def same_name_def)

interpretation hl: keyed_entries hl_proper id hardlink_list_hash hardlink_list_eq
proof unfold_locales
  show "equivp hardlink_list_eq" by (intro equivpI reflpI sympI transpI) (auto simp: hardlink_list_eq_def strcmp_eq_def)
  show "id (snd x) = id (snd y) \<Longrightarrow> hardlink_list_hash x = hardlink_list_hash y" for x y
    by (simp add: hardlink_list_hash_def)
qed (rule hardlink_eq_key)

abbreviation hl_rep :: "hl_state \<Rightarrow> hardlink_list_entry list \<Rightarrow> bool" where
  "hl_rep \<equiv> kl_rep hl_proper hardlink_list_hash hardlink_list_eq"


section \<open>The operations on the list of hard links\<close>

lemma pool_take_back:
  assumes "a \<notin> A" "pool_inv pool (insert a A)"
  shows "pool_inv (pool_free pool a) A"
  using pool_free_inv [OF assms(2), of a] assms(1) by simp

lemma hardlink_list_insert:
  fixes dev ino :: u32
  assumes rep: "hl_rep (h, hl) es" and name: "proper_name name" and few: "kl_live (h, hl) \<le> 524286"
  defines "e \<equiv> link_of dev ino name"
  shows "\<exists>s'. hardlink_list_insert dev ino name (h, hl) = Some (e \<notin> set es, s') \<and>
    hl_rep s' (if e \<in> set es then es else es @ [e]) \<and> kl_live s' = kl_live (h, hl) + (if e \<in> set es then 0 else 1)"
proof -
  obtain xs where xs: "hc_rep hl_proper h hl xs" "map snd xs = es" "dom (hp_mem h) = fst ` set xs"
    "ht_hash_f (hc_htab hl) = hardlink_list_hash" "ht_eq_f (hc_htab hl) = hardlink_list_eq" "\<forall>x \<in> set xs. hl_proper (snd x)"
    using rep by (rule hl.repE) blast
  note r = hc_rep_simps [OF xs(1)]
  have e: "hl_proper e" using name by (simp add: e_def hl_proper_def link_of_def)
  obtain a pool where a: "pool_alloc (hp_pool h) = Some (a, pool)" "a \<notin> dom (hp_mem h)" "pool_inv pool (insert a (dom (hp_mem h)))"
    using pool_alloc_inv [OF r(7)] by blast
  obtain slot htab where slot: "htab_find_slot (hc_htab hl) (a, e) INSERT = Some (Some slot, htab)" "slot_for (a, e) (hc_htab hl) slot htab"
    using find_slot_insert [OF r(1,2), of "(a, e)"] e few by (auto simp: kl_live_def)
  have mem: "(\<exists>x \<in> set xs. hardlink_list_eq x (a, e)) \<longleftrightarrow> e \<in> set es"
    using hl.filter_keys(2) [OF xs(6) e, of a] xs(2) by (auto simp: has_key_def)
  show ?thesis
  proof (cases "ht_table htab ! unat slot")
    case DELETED_ENTRY
    then show ?thesis using slot(2) by (simp add: slot_for_def)
  next
    case EMPTY_ENTRY
    have absent: "\<forall>x \<in> set xs. \<not> hardlink_list_eq x (a, e)" using slot(2) r(3) xs(5) EMPTY_ENTRY by (simp add: slot_for_def)
    have ins: "inserted (a, e) (hc_htab hl) (htab\<lparr>ht_table := (ht_table htab)[unat slot := Entry (a, e)]\<rparr>)"
      using slot(2) by (simp add: slot_for_def)
    have ys: "filter (\<lambda>x. \<not> ht_eq_f (hc_htab hl) x (a, e)) xs = xs" using absent xs(5) by (simp add: filter_id_conv)
    have dom: "dom (hp_mem h) = dom (hp_mem h) - fst ` set xs \<union> fst ` set xs" using r(8) by auto
    obtain s' where s': "hc_add slot a e (h\<lparr>hp_mem := hp_mem h, hp_pool := pool\<rparr>, hl\<lparr>hc_htab := htab, hc_chain := hc_chain hl\<rparr>) = Some s'"
        "hc_changes hl_proper xs (h, hl) (xs @ [(a, e)]) s'"
      using hc_add [OF xs(1) e ins ys [symmetric] r(4) dom a(3,2)] by auto
    have "e \<notin> set es" using absent mem by simp
    moreover have "hl_rep s' (es @ [e])" "kl_live s' = kl_live (h, hl) + 1" using hl.changes(1,2) [OF s'(2) xs(3-5)] xs(2) by simp_all
    moreover have "hardlink_list_insert dev ino name (h, hl) = Some (True, s')"
      using a(1) slot(1) EMPTY_ENTRY s'(1) by (simp add: hardlink_list_insert_def e_def)
    ultimately show ?thesis by simp
  next
    case (Entry y)
    have y: "y \<in> set xs" "hardlink_list_eq y (a, e)" "same_table (hc_htab hl) htab" using slot(2) Entry r(3) xs(5) by (simp_all add: slot_for_def)
    let ?s = "(h\<lparr>hp_pool := pool_free pool a\<rparr>, hl\<lparr>hc_htab := htab\<rparr>)"
    have "pool_inv (pool_free pool a) (dom (hp_mem h))" by (rule pool_take_back [OF a(2,3)])
    moreover have "ht_funs (hl_proper \<circ> snd) htab" using r(2) y(3) by (simp add: ht_funs_def same_table_def same_client_def)
    ultimately have "hc_rep hl_proper (fst ?s) (snd ?s) xs"
      using xs(1) y(3) by (auto simp: hc_rep_def same_table_def same_client_def)
    then have "hl_rep ?s es" unfolding kl_rep_def using xs(2-5) y(3) by (auto simp: same_table_def same_client_def)
    moreover have "e \<in> set es" using mem y(1,2) by blast
    moreover have "kl_live ?s = kl_live (h, hl)" using y(3) by (simp add: kl_live_def same_table_def)
    moreover have "hardlink_list_insert dev ino name (h, hl) = Some (False, ?s)"
      using a(1) slot(1) Entry by (simp add: hardlink_list_insert_def e_def)
    ultimately show ?thesis by simp
  qed
qed

text \<open>The length is computed from the counters of the hash table.\<close>

lemma hardlink_list_length:
  assumes "hl_rep (h, hl) es"
  shows "hardlink_list_length hl = of_nat (kl_live (h, hl))"
proof -
  obtain xs where "hc_rep hl_proper h hl xs" using assms by (rule hl.repE)
  then have "ht_counts (hc_htab hl)" using hc_rep_simps(1) ht_inv_simps(2) by blast
  then have "unat (ht_n_deleted (hc_htab hl)) \<le> unat (ht_n_elements (hc_htab hl))" by (simp add: ht_counts_def)
  then show ?thesis by (simp add: hardlink_list_length_def kl_live_def live_def of_nat_diff)
qed


section \<open>A hard link list and its client\<close>

datatype h_op =
    H_Insert u32 u32 zstring
  | H_Delete u32 u32 zstring
  | H_Delete_Nth nat
  | H_Member u32 u32 zstring
  | H_Length
  | H_Empty

datatype h_result = H_Bool bool | H_Count u32

fun h_op_ok :: "h_op \<Rightarrow> bool" where
  "h_op_ok (H_Insert dev ino name) \<longleftrightarrow> proper_name name"
| "h_op_ok (H_Delete dev ino name) \<longleftrightarrow> proper_name name"
| "h_op_ok (H_Member dev ino name) \<longleftrightarrow> proper_name name"
| "h_op_ok _ \<longleftrightarrow> True"

definition h_log :: "h_result list \<Rightarrow> (bool \<times> hl_state) option \<Rightarrow> (hl_state \<times> h_result list) option" where
  "h_log rs r = map_option (\<lambda>(b, s). (s, rs @ [H_Bool b])) r"

fun h_step :: "h_op \<Rightarrow> hl_state \<times> h_result list \<Rightarrow> (hl_state \<times> h_result list) option" where
  "h_step (H_Insert dev ino name) (s, rs) = h_log rs (hardlink_list_insert dev ino name s)"
| "h_step (H_Delete dev ino name) (s, rs) = h_log rs (hardlink_list_delete dev ino name s)"
| "h_step (H_Delete_Nth i) (s, rs) =
     (case entry_at i (ch_first (hc_chain (snd s))) (hp_mem (fst s)) of
        None \<Rightarrow> Some (s, rs) | Some a \<Rightarrow> h_log rs (hardlink_list_delete_entry a s))"
| "h_step (H_Member dev ino name) (s, rs) = map_option (\<lambda>b. (s, rs @ [H_Bool b])) (hardlink_list_member dev ino name (snd s))"
| "h_step H_Length (s, rs) = Some (s, rs @ [H_Count (hardlink_list_length (snd s))])"
| "h_step H_Empty (s, rs) = map_option (\<lambda>s. (s, rs)) (hardlink_list_empty s)"

text \<open>
  The list that the client sees, the number of hard links that were emptied away, which the
  counters still include, and the results.
\<close>

fun h_spec :: "h_op \<Rightarrow> hardlink_list_entry list \<times> nat \<times> h_result list \<Rightarrow> hardlink_list_entry list \<times> nat \<times> h_result list" where
  "h_spec (H_Insert dev ino name) (es, k, rs) =
     (let e = link_of dev ino name in (if e \<in> set es then es else es @ [e], k, rs @ [H_Bool (e \<notin> set es)]))"
| "h_spec (H_Delete dev ino name) (es, k, rs) =
     (let e = link_of dev ino name in (remove1 e es, k, rs @ [H_Bool (e \<in> set es)]))"
| "h_spec (H_Delete_Nth i) (es, k, rs) =
     (if i < length es then (take i es @ drop (Suc i) es, k, rs @ [H_Bool True]) else (es, k, rs))"
| "h_spec (H_Member dev ino name) (es, k, rs) = (es, k, rs @ [H_Bool (link_of dev ino name \<in> set es)])"
| "h_spec H_Length (es, k, rs) = (es, k, rs @ [H_Count (of_nat (length es + k))])"
| "h_spec H_Empty (es, k, rs) = ([], length es + k, rs)"

fun h_rep :: "hl_state \<times> h_result list \<Rightarrow> hardlink_list_entry list \<times> nat \<times> h_result list \<Rightarrow> bool" where
  "h_rep (s, rs) (es, k, rs') \<longleftrightarrow> rs = rs' \<and> hl_rep s es \<and> distinct es \<and> kl_live s = length es + k"

fun h_used :: "hl_state \<times> h_result list \<Rightarrow> hardlink_list_entry list \<times> nat \<times> h_result list \<Rightarrow> nat" where
  "h_used (s, rs) v = kl_live s"

lemma link_of_simps [simp]: "hl_proper (link_of dev ino name) \<longleftrightarrow> proper_name name"
  by (simp add: hl_proper_def link_of_def)

lemma drop_key_id: "distinct es \<Longrightarrow> drop_key id e es = remove1 e es"
  by (simp add: drop_key_def distinct_remove1_removeAll removeAll_filter_not_eq eq_commute)

lemma has_key_id [simp]: "has_key id e es \<longleftrightarrow> e \<in> set es"
  by (simp add: has_key_def)

lemma h_delete:
  fixes dev ino :: u32
  assumes rep: "hl_rep (h, hl) es" "distinct es" and name: "proper_name name"
  defines "e \<equiv> link_of dev ino name"
  shows "\<exists>s'. hardlink_list_delete dev ino name (h, hl) = Some (e \<in> set es, s') \<and> hl_rep s' (remove1 e es) \<and>
    kl_live s' + length es = kl_live (h, hl) + length (remove1 e es)"
  using hl.delete [OF rep(1), of e] name rep(2) by (simp add: hardlink_list_delete_def e_def drop_key_id)

lemma distinct_take_drop: "distinct xs \<Longrightarrow> distinct (take i xs @ drop (Suc i) xs)"
  by (metis distinct_append distinct_drop distinct_take disjoint_iff le_SucI order_refl set_take_disj_set_drop_if_distinct)

lemma h_step:
  assumes rep: "h_rep s v" and ok: "h_op_ok op" and few: "h_used s v < 524287"
  shows "\<exists>s'. h_step op s = Some s' \<and> h_rep s' (h_spec op v) \<and> h_used s' (h_spec op v) \<le> Suc (h_used s v)"
proof -
  obtain h hl rs where s: "s = ((h, hl), rs)" by (metis prod.exhaust)
  obtain es k where v: "v = (es, k, rs)" "hl_rep (h, hl) es" "distinct es" "kl_live (h, hl) = length es + k"
    using rep s by (cases v) auto
  have few': "kl_live (h, hl) \<le> 524286" using few s by simp
  show ?thesis
  proof (cases op)
    case (H_Insert dev ino name)
    then obtain s' where "hardlink_list_insert dev ino name (h, hl) = Some (link_of dev ino name \<notin> set es, s')"
        "hl_rep s' (if link_of dev ino name \<in> set es then es else es @ [link_of dev ino name])"
        "kl_live s' = kl_live (h, hl) + (if link_of dev ino name \<in> set es then 0 else 1)"
      using hardlink_list_insert [OF v(2) _ few'] ok by force
    then show ?thesis using H_Insert s v(1,3,4) by (simp add: h_log_def Let_def)
  next
    case (H_Delete dev ino name)
    then obtain s' where s': "hardlink_list_delete dev ino name (h, hl) = Some (link_of dev ino name \<in> set es, s')"
        "hl_rep s' (remove1 (link_of dev ino name) es)"
        "kl_live s' + length es = kl_live (h, hl) + length (remove1 (link_of dev ino name) es)"
      using h_delete [OF v(2,3)] ok by force
    then have "kl_live s' = length (remove1 (link_of dev ino name) es) + k" using v(4) by simp
    moreover have "length (remove1 (link_of dev ino name) es) \<le> length es" by (simp add: length_remove1)
    ultimately show ?thesis using H_Delete s v(1,3,4) s' by (simp add: h_log_def Let_def)
  next
    case (H_Delete_Nth i)
    show ?thesis
    proof (cases "entry_at i (ch_first (hc_chain hl)) (hp_mem h)")
      case (Some a)
      then obtain s' where "i < length es" "hc_delete_entry a (h, hl) = Some (True, s')" "hl_rep s' (take i es @ drop (Suc i) es)"
          "kl_live s' + 1 = kl_live (h, hl)"
        using hl.delete_nth [OF v(2), of i] by auto
      then show ?thesis using H_Delete_Nth Some s v(1,4) distinct_take_drop [OF v(3), of i]
        by (simp add: h_log_def hardlink_list_delete_entry_def del: distinct_append)
    qed (use hl.delete_nth [OF v(2), of i] H_Delete_Nth s v rep in auto)
  next
    case (H_Member dev ino name)
    then show ?thesis using hl.member [OF v(2), of "link_of dev ino name"] ok s v by (simp add: hardlink_list_member_def)
  next
    case H_Length
    then show ?thesis using hardlink_list_length [OF v(2)] s v by simp
  next
    case H_Empty
    then show ?thesis using hl.empty [OF v(2)] s v by (auto simp: hardlink_list_empty_def)
  qed
qed

interpretation hardlinks: data_refinement h_step h_spec h_op_ok h_rep h_used 524287
  by unfold_locales (rule h_step)

lemma hardlink_list_create:
  assumes "unat nelem \<le> 1048573"
  shows "\<exists>hl. hardlink_list_create nelem = Some hl \<and> h_rep ((initialize_hardlink_list_c, hl), []) ([], 0, []) \<and>
    h_used ((initialize_hardlink_list_c, hl), []) ([], 0, []) = 0"
  using hl.create [OF assms, of sizeof_hardlink_list_entry "\<lambda>htab. \<lparr>hc_htab = htab, hc_chain = \<lparr>ch_first = None, ch_last = None\<rparr>\<rparr>"]
  by (auto simp: sizeof_hardlink_list_entry_def hardlink_list_create_def initialize_hardlink_list_c_def)

lemma hardlink_run:
  assumes "unat nelem \<le> 1048573" "\<forall>op \<in> set ops. h_op_ok op" "length ops \<le> 524287"
  shows "\<exists>hl s. hardlink_list_create nelem = Some hl \<and> run_ops h_step ops ((initialize_hardlink_list_c, hl), []) = Some s \<and>
    h_rep s (fold h_spec ops ([], 0, []))"
proof -
  obtain hl where hl: "hardlink_list_create nelem = Some hl" "h_rep ((initialize_hardlink_list_c, hl), []) ([], 0, [])"
      "h_used ((initialize_hardlink_list_c, hl), []) ([], 0, []) = 0"
    using hardlink_list_create [OF assms(1)] by blast
  then show ?thesis using hardlinks.run_refines [OF hl(2) assms(2)] assms(3) by auto
qed

text \<open>Without emptying, nothing is counted that is not in the list.\<close>

lemma h_spec_count: "H_Empty \<notin> set ops \<Longrightarrow> fst (snd (fold h_spec ops (es, k, rs))) = k"
proof (induction ops arbitrary: es rs)
  case (Cons op ops)
  have "fst (snd (h_spec op (es, k, rs))) = k" using Cons.prems by (cases op) (auto simp: Let_def)
  then obtain es' rs' where "h_spec op (es, k, rs) = (es', k, rs')" by (metis prod.collapse)
  then show ?case using Cons by simp
qed simp


section \<open>Properties\<close>

text \<open>C34. A new hard link list, created with a size up to 1048573, behaves like an ordered list without repetitions under any sequence of at
  most 524287 operations with names without zero bytes: no operation fails, the chain holds the hard links of the list in their order and without
  repetitions, the results are those of the list, the elements of the pool in use are the hard links of the list, and destroying the list
  returns them. The reported length counts also the hard links that were emptied away.\<close>
theorem hardlink_list_is_list:
  assumes "unat nelem \<le> 1048573" and "\<forall>op \<in> set ops. h_op_ok op" and "length ops \<le> 524287"
  shows "\<exists>hl s. hardlink_list_create nelem = Some hl \<and> run_ops h_step ops ((initialize_hardlink_list_c, hl), []) = Some s \<and>
    h_rep s (fold h_spec ops ([], 0, [])) \<and> snd s = snd (snd (fold h_spec ops ([], 0, []))) \<and>
    elts_allocated (hp_pool (fst (fst s))) - elts_free (hp_pool (fst (fst s))) = of_nat (length (fst (fold h_spec ops ([], 0, [])))) \<and>
    (\<exists>h. hardlink_list_destroy (fst s) = Some h \<and> hp_mem h = Map.empty \<and> elts_allocated (hp_pool h) = elts_free (hp_pool h))"
proof -
  obtain hl s where s: "hardlink_list_create nelem = Some hl" "run_ops h_step ops ((initialize_hardlink_list_c, hl), []) = Some s"
      "h_rep s (fold h_spec ops ([], 0, []))"
    using hardlink_run [OF assms] by blast
  obtain es k rs where v: "fold h_spec ops ([], 0, []) = (es, k, rs)" by (metis prod.exhaust)
  obtain h' hl' where s': "s = ((h', hl'), rs)" "hl_rep (h', hl') es" using s(3) v by (cases s) auto
  show ?thesis using s s' v hl.memory [OF s'(2)] by (intro exI [of _ hl] exI [of _ s]) (simp add: hardlink_list_destroy_def)
qed

theorem hardlink_list_is_list_witness:
  "\<exists>hl s. hardlink_list_create 5 = Some hl \<and>
     run_ops h_step [H_Insert 1 2 (name_of [65]), H_Insert 1 2 (name_of [65]), H_Insert 1 3 (name_of [65]), H_Length]
       ((initialize_hardlink_list_c, hl), []) = Some s \<and>
     snd s = [H_Bool True, H_Bool False, H_Bool True, H_Count 2]"
proof -
  let ?ops = "[H_Insert 1 2 (name_of [65]), H_Insert 1 2 (name_of [65]), H_Insert 1 3 (name_of [65]), H_Length]"
  have "snd (snd (fold h_spec ?ops ([], 0, []))) = [H_Bool True, H_Bool False, H_Bool True, H_Count 2]"
    by (simp add: Let_def link_of_def)
  moreover have "\<forall>op \<in> set ?ops. h_op_ok op" using proper_name_of [of "[65]"] by simp
  ultimately show ?thesis using hardlink_list_is_list [of 5 ?ops] by auto
qed

text \<open>C35. As long as a new hard link list (of a size up to 1048573, and for at most 524287 operations) is not emptied, the length it reports is the number of its hard links.\<close>
theorem hardlink_list_length_correct:
  assumes "unat nelem \<le> 1048573" and "\<forall>op \<in> set ops. h_op_ok op" and "length ops \<le> 524287" and "H_Empty \<notin> set ops"
  shows "\<exists>hl s. hardlink_list_create nelem = Some hl \<and> run_ops h_step ops ((initialize_hardlink_list_c, hl), []) = Some s \<and>
    hardlink_list_length (snd (fst s)) = of_nat (length (fst (fold h_spec ops ([], 0, []))))"
proof -
  obtain hl s where s: "hardlink_list_create nelem = Some hl" "run_ops h_step ops ((initialize_hardlink_list_c, hl), []) = Some s"
      "h_rep s (fold h_spec ops ([], 0, []))"
    using hardlink_run [OF assms(1-3)] by blast
  obtain es k rs where v: "fold h_spec ops ([], 0, []) = (es, k, rs)" by (metis prod.exhaust)
  have "k = 0" using h_spec_count [OF assms(4), of "[]" 0 "[]"] v by simp
  moreover obtain h' hl' where "s = ((h', hl'), rs)" "hl_rep (h', hl') es" "kl_live (h', hl') = length es + k" using s(3) v by (cases s) auto
  ultimately have "hardlink_list_length (snd (fst s)) = of_nat (length es)" using hardlink_list_length by simp
  then show ?thesis using s(1,2) v by (intro exI [of _ hl] exI [of _ s]) simp
qed

theorem hardlink_list_length_correct_witness:
  "\<exists>hl s. hardlink_list_create 5 = Some hl \<and>
     run_ops h_step [H_Insert 1 2 (name_of [65]), H_Insert 1 3 (name_of [65]), H_Delete 1 2 (name_of [65])]
       ((initialize_hardlink_list_c, hl), []) = Some s \<and> hardlink_list_length (snd (fst s)) = 1"
  using hardlink_list_length_correct [of 5 "[H_Insert 1 2 (name_of [65]), H_Insert 1 3 (name_of [65]), H_Delete 1 2 (name_of [65])]"]
    proper_name_of [of "[65]"] by (simp add: Let_def link_of_def)

text \<open>C36. Emptying does not reset the length. Take a new list (of a size up to 1048573) and any sequence of at most 524287
  operations with names without zero bytes that does not empty it: when the list is emptied then, it has no first hard link and no
  hard link is a member of it, but the length it reports is the number of hard links it had before.\<close>
theorem hardlink_list_length_after_empty:
  assumes "unat nelem \<le> 1048573" and "\<forall>op \<in> set ops. h_op_ok op" and "length ops \<le> 524287" and "H_Empty \<notin> set ops"
  shows "\<exists>hl s s'. hardlink_list_create nelem = Some hl \<and> run_ops h_step ops ((initialize_hardlink_list_c, hl), []) = Some s \<and>
    hardlink_list_empty (fst s) = Some s' \<and> ch_first (hc_chain (snd s')) = None \<and>
    (\<forall>dev ino name. proper_name name \<longrightarrow> hardlink_list_member dev ino name (snd s') = Some False) \<and>
    hardlink_list_length (snd s') = of_nat (length (fst (fold h_spec ops ([], 0, []))))"
proof -
  obtain hl s where s: "hardlink_list_create nelem = Some hl" "run_ops h_step ops ((initialize_hardlink_list_c, hl), []) = Some s"
      "h_rep s (fold h_spec ops ([], 0, []))"
    using hardlink_run [OF assms(1-3)] by blast
  obtain es k rs where v: "fold h_spec ops ([], 0, []) = (es, k, rs)" by (metis prod.exhaust)
  have "k = 0" using h_spec_count [OF assms(4), of "[]" 0 "[]"] v by simp
  then obtain h hl1 where s1: "s = ((h, hl1), rs)" "hl_rep (h, hl1) es" "kl_live (h, hl1) = length es" using s(3) v by (cases s) auto
  obtain h' hl' where s': "hardlink_list_empty (h, hl1) = Some (h', hl')" "hl_rep (h', hl') []" "kl_live (h', hl') = length es"
    using hl.empty [OF s1(2)] s1(3) by (auto simp: hardlink_list_empty_def)
  have "ch_first (hc_chain hl') = None" using s'(2) by (auto simp: kl_rep_def hc_rep_def chain_rep_def)
  moreover have "hardlink_list_member dev ino name hl' = Some False" if "proper_name name" for dev ino name
    using hl.member [OF s'(2), of "link_of dev ino name"] that by (simp add: hardlink_list_member_def)
  moreover have "hardlink_list_length hl' = of_nat (length es)" using hardlink_list_length [OF s'(2)] s'(3) by simp
  ultimately show ?thesis using s(1,2) s1(1) s'(1) v by (intro exI [of _ hl] exI [of _ s] exI [of _ "(h', hl')"]) simp
qed

theorem hardlink_list_length_after_empty_witness:
  "\<exists>hl s s'. hardlink_list_create 5 = Some hl \<and>
     run_ops h_step [H_Insert 1 2 (name_of [65])] ((initialize_hardlink_list_c, hl), []) = Some s \<and>
     hardlink_list_empty (fst s) = Some s' \<and> ch_first (hc_chain (snd s')) = None \<and>
     hardlink_list_member 1 2 (name_of [65]) (snd s') = Some False \<and> hardlink_list_length (snd s') = 1"
  using hardlink_list_length_after_empty [of 5 "[H_Insert 1 2 (name_of [65])]"] proper_name_of [of "[65]"]
  by (fastforce simp: Let_def link_of_def)

end
