(* ===== verification/Md5.thy ===== *)
theory Md5
  imports Zfs_Prelude
begin

unbundle bit_operations_syntax

text \<open>
  The message digest MD5 of \<^verbatim>\<open>src/zfsd/lib/md5/md5.c\<close>, which capabilities and file checksums are made
  with. The digest of a message that is passed in pieces is shown to be the digest that RFC 1321 defines, the unrolled rounds to be
  the loop of the RFC, and the context to stay within its arrays.
\<close>


section \<open>The rounds\<close>

text \<open>The registers of a round.\<close>

datatype md5_reg = Ra | Rb | Rc | Rd

record md5_regs =
  md5_a :: u32
  md5_b :: u32
  md5_c :: u32
  md5_d :: u32

fun get_reg :: "md5_reg \<Rightarrow> md5_regs \<Rightarrow> u32" where
  "get_reg Ra r = md5_a r"
| "get_reg Rb r = md5_b r"
| "get_reg Rc r = md5_c r"
| "get_reg Rd r = md5_d r"

fun put_reg :: "md5_reg \<Rightarrow> u32 \<Rightarrow> md5_regs \<Rightarrow> md5_regs" where
  "put_reg Ra v r = r\<lparr>md5_a := v\<rparr>"
| "put_reg Rb v r = r\<lparr>md5_b := v\<rparr>"
| "put_reg Rc v r = r\<lparr>md5_c := v\<rparr>"
| "put_reg Rd v r = r\<lparr>md5_d := v\<rparr>"

definition F1 :: "u32 \<Rightarrow> u32 \<Rightarrow> u32 \<Rightarrow> u32" where
  "F1 x y z = z XOR (x AND (y XOR z))"

definition F2 :: "u32 \<Rightarrow> u32 \<Rightarrow> u32 \<Rightarrow> u32" where
  "F2 x y z = F1 z x y"

definition F3 :: "u32 \<Rightarrow> u32 \<Rightarrow> u32 \<Rightarrow> u32" where
  "F3 x y z = x XOR y XOR z"

definition F4 :: "u32 \<Rightarrow> u32 \<Rightarrow> u32 \<Rightarrow> u32" where
  "F4 x y z = y XOR (x OR NOT z)"

definition MD5STEP ::
  "(u32 \<Rightarrow> u32 \<Rightarrow> u32 \<Rightarrow> u32) \<Rightarrow> md5_reg \<Rightarrow> md5_reg \<Rightarrow> md5_reg \<Rightarrow> md5_reg \<Rightarrow> u32 \<Rightarrow> nat \<Rightarrow> md5_regs \<Rightarrow> md5_regs" where
  "MD5STEP f w x y z data s r =
     (let v = get_reg w r + (f (get_reg x r) (get_reg y r) (get_reg z r) + data);
          v = push_bit s v OR drop_bit (32 - s) v
      in put_reg w (v + get_reg x r) r)"

text \<open>The steps of \<^verbatim>\<open>MD5Transform\<close>, each with the function, the registers, the index of the input word, the constant and the shift.\<close>

definition md5_steps ::
  "((u32 \<Rightarrow> u32 \<Rightarrow> u32 \<Rightarrow> u32) \<times> md5_reg \<times> md5_reg \<times> md5_reg \<times> md5_reg \<times> nat \<times> u32 \<times> nat) list" where
  "md5_steps = [
     (F1, Ra, Rb, Rc, Rd, 0, 0xd76aa478, 7),
     (F1, Rd, Ra, Rb, Rc, 1, 0xe8c7b756, 12),
     (F1, Rc, Rd, Ra, Rb, 2, 0x242070db, 17),
     (F1, Rb, Rc, Rd, Ra, 3, 0xc1bdceee, 22),
     (F1, Ra, Rb, Rc, Rd, 4, 0xf57c0faf, 7),
     (F1, Rd, Ra, Rb, Rc, 5, 0x4787c62a, 12),
     (F1, Rc, Rd, Ra, Rb, 6, 0xa8304613, 17),
     (F1, Rb, Rc, Rd, Ra, 7, 0xfd469501, 22),
     (F1, Ra, Rb, Rc, Rd, 8, 0x698098d8, 7),
     (F1, Rd, Ra, Rb, Rc, 9, 0x8b44f7af, 12),
     (F1, Rc, Rd, Ra, Rb, 10, 0xffff5bb1, 17),
     (F1, Rb, Rc, Rd, Ra, 11, 0x895cd7be, 22),
     (F1, Ra, Rb, Rc, Rd, 12, 0x6b901122, 7),
     (F1, Rd, Ra, Rb, Rc, 13, 0xfd987193, 12),
     (F1, Rc, Rd, Ra, Rb, 14, 0xa679438e, 17),
     (F1, Rb, Rc, Rd, Ra, 15, 0x49b40821, 22),
     (F2, Ra, Rb, Rc, Rd, 1, 0xf61e2562, 5),
     (F2, Rd, Ra, Rb, Rc, 6, 0xc040b340, 9),
     (F2, Rc, Rd, Ra, Rb, 11, 0x265e5a51, 14),
     (F2, Rb, Rc, Rd, Ra, 0, 0xe9b6c7aa, 20),
     (F2, Ra, Rb, Rc, Rd, 5, 0xd62f105d, 5),
     (F2, Rd, Ra, Rb, Rc, 10, 0x02441453, 9),
     (F2, Rc, Rd, Ra, Rb, 15, 0xd8a1e681, 14),
     (F2, Rb, Rc, Rd, Ra, 4, 0xe7d3fbc8, 20),
     (F2, Ra, Rb, Rc, Rd, 9, 0x21e1cde6, 5),
     (F2, Rd, Ra, Rb, Rc, 14, 0xc33707d6, 9),
     (F2, Rc, Rd, Ra, Rb, 3, 0xf4d50d87, 14),
     (F2, Rb, Rc, Rd, Ra, 8, 0x455a14ed, 20),
     (F2, Ra, Rb, Rc, Rd, 13, 0xa9e3e905, 5),
     (F2, Rd, Ra, Rb, Rc, 2, 0xfcefa3f8, 9),
     (F2, Rc, Rd, Ra, Rb, 7, 0x676f02d9, 14),
     (F2, Rb, Rc, Rd, Ra, 12, 0x8d2a4c8a, 20),
     (F3, Ra, Rb, Rc, Rd, 5, 0xfffa3942, 4),
     (F3, Rd, Ra, Rb, Rc, 8, 0x8771f681, 11),
     (F3, Rc, Rd, Ra, Rb, 11, 0x6d9d6122, 16),
     (F3, Rb, Rc, Rd, Ra, 14, 0xfde5380c, 23),
     (F3, Ra, Rb, Rc, Rd, 1, 0xa4beea44, 4),
     (F3, Rd, Ra, Rb, Rc, 4, 0x4bdecfa9, 11),
     (F3, Rc, Rd, Ra, Rb, 7, 0xf6bb4b60, 16),
     (F3, Rb, Rc, Rd, Ra, 10, 0xbebfbc70, 23),
     (F3, Ra, Rb, Rc, Rd, 13, 0x289b7ec6, 4),
     (F3, Rd, Ra, Rb, Rc, 0, 0xeaa127fa, 11),
     (F3, Rc, Rd, Ra, Rb, 3, 0xd4ef3085, 16),
     (F3, Rb, Rc, Rd, Ra, 6, 0x04881d05, 23),
     (F3, Ra, Rb, Rc, Rd, 9, 0xd9d4d039, 4),
     (F3, Rd, Ra, Rb, Rc, 12, 0xe6db99e5, 11),
     (F3, Rc, Rd, Ra, Rb, 15, 0x1fa27cf8, 16),
     (F3, Rb, Rc, Rd, Ra, 2, 0xc4ac5665, 23),
     (F4, Ra, Rb, Rc, Rd, 0, 0xf4292244, 6),
     (F4, Rd, Ra, Rb, Rc, 7, 0x432aff97, 10),
     (F4, Rc, Rd, Ra, Rb, 14, 0xab9423a7, 15),
     (F4, Rb, Rc, Rd, Ra, 5, 0xfc93a039, 21),
     (F4, Ra, Rb, Rc, Rd, 12, 0x655b59c3, 6),
     (F4, Rd, Ra, Rb, Rc, 3, 0x8f0ccc92, 10),
     (F4, Rc, Rd, Ra, Rb, 10, 0xffeff47d, 15),
     (F4, Rb, Rc, Rd, Ra, 1, 0x85845dd1, 21),
     (F4, Ra, Rb, Rc, Rd, 8, 0x6fa87e4f, 6),
     (F4, Rd, Ra, Rb, Rc, 15, 0xfe2ce6e0, 10),
     (F4, Rc, Rd, Ra, Rb, 6, 0xa3014314, 15),
     (F4, Rb, Rc, Rd, Ra, 13, 0x4e0811a1, 21),
     (F4, Ra, Rb, Rc, Rd, 4, 0xf7537e82, 6),
     (F4, Rd, Ra, Rb, Rc, 11, 0xbd3af235, 10),
     (F4, Rc, Rd, Ra, Rb, 2, 0x2ad7d2bb, 15),
     (F4, Rb, Rc, Rd, Ra, 9, 0xeb86d391, 21)]"

definition MD5Transform :: "u32 list \<Rightarrow> u32 list \<Rightarrow> u32 list" where
  "MD5Transform buf inw =
     (let r = fold (\<lambda>(f, w, x, y, z, k, c, s). MD5STEP f w x y z (inw ! k + c) s) md5_steps
                \<lparr>md5_a = buf ! 0, md5_b = buf ! 1, md5_c = buf ! 2, md5_d = buf ! 3\<rparr>
      in [buf ! 0 + md5_a r, buf ! 1 + md5_b r, buf ! 2 + md5_c r, buf ! 3 + md5_d r])"


section \<open>Contexts\<close>

record MD5Context =
  ctx_buf :: "u32 list"
  ctx_bits :: "u32 list"
  ctx_in :: "u8 list"

definition MD5Init :: "MD5Context \<Rightarrow> MD5Context" where
  "MD5Init ctx = ctx\<lparr>ctx_buf := [0x67452301, 0xefcdab89, 0x98badcfe, 0x10325476], ctx_bits := [0, 0]\<rparr>"

text \<open>The 64 bytes of input seen as little-endian words.\<close>

definition in_words :: "u8 list \<Rightarrow> u32 list" where
  "in_words bs = map (\<lambda>i. le_word (slice (4 * i) 4 bs)) [0..<16]"

definition transform_in :: "MD5Context \<Rightarrow> MD5Context" where
  "transform_in ctx = ctx\<lparr>ctx_buf := MD5Transform (ctx_buf ctx) (in_words (ctx_in ctx))\<rparr>"

text \<open>Process data in chunks of 64 bytes and keep the rest.\<close>

function md5_chunks :: "u8 list \<Rightarrow> u32 \<Rightarrow> MD5Context \<Rightarrow> MD5Context" where
  "md5_chunks buf len ctx =
     (if 64 \<le> len
      then md5_chunks (drop 64 buf) (len - 64) (transform_in (ctx\<lparr>ctx_in := blit 0 (take 64 buf) (ctx_in ctx)\<rparr>))
      else ctx\<lparr>ctx_in := blit 0 (take (unat len) buf) (ctx_in ctx)\<rparr>)"
  by auto
termination
  by (relation "measure (\<lambda>(buf, len, ctx). unat len)") (auto simp: unat_sub word_le_nat_alt)

declare md5_chunks.simps [simp del]

definition MD5Update :: "MD5Context \<Rightarrow> u8 list \<Rightarrow> u32 \<Rightarrow> MD5Context" where
  "MD5Update ctx buf len =
     (let t = ctx_bits ctx ! 0;
          lo = t + push_bit 3 len;
          hi = ctx_bits ctx ! 1 + (if lo < t then 1 else 0) + drop_bit 29 len;
          ctx = ctx\<lparr>ctx_bits := [lo, hi]\<rparr>;
          t = drop_bit 3 t AND 0x3f
      in if t \<noteq> 0
         then if len < 64 - t
              then ctx\<lparr>ctx_in := blit (unat t) (take (unat len) buf) (ctx_in ctx)\<rparr>
              else md5_chunks (drop (unat (64 - t)) buf) (len - (64 - t))
                (transform_in (ctx\<lparr>ctx_in := blit (unat t) (take (unat (64 - t)) buf) (ctx_in ctx)\<rparr>))
         else md5_chunks buf len ctx)"

text \<open>The padding and the last transformations, which \<^verbatim>\<open>MD5Final\<close> and \<^verbatim>\<open>MD5HexFinal\<close> both start with.\<close>

definition md5_finish :: "MD5Context \<Rightarrow> MD5Context" where
  "md5_finish ctx =
     (let count = unat (drop_bit 3 (ctx_bits ctx ! 0) AND 0x3f);
          ctx = ctx\<lparr>ctx_in := blit count [0x80] (ctx_in ctx)\<rparr>;
          p = count + 1;
          count = 64 - 1 - count;
          ctx = (if count < 8
                 then (let ctx = transform_in (ctx\<lparr>ctx_in := blit p (replicate count 0) (ctx_in ctx)\<rparr>)
                       in ctx\<lparr>ctx_in := blit 0 (replicate 56 0) (ctx_in ctx)\<rparr>)
                 else ctx\<lparr>ctx_in := blit p (replicate (count - 8) 0) (ctx_in ctx)\<rparr>);
          ctx = ctx\<lparr>ctx_in := blit 56 (le_bytes 4 (ctx_bits ctx ! 0)) (ctx_in ctx)\<rparr>;
          ctx = ctx\<lparr>ctx_in := blit 60 (le_bytes 4 (ctx_bits ctx ! 1)) (ctx_in ctx)\<rparr>
      in transform_in ctx)"

definition buf_bytes :: "MD5Context \<Rightarrow> u8 list" where
  "buf_bytes ctx = concat (map (le_bytes 4) (ctx_buf ctx))"

text \<open>
  The clearing of the context at the end covers as many bytes as a pointer has, which are the first two words of the buffer.
\<close>

definition clear_ctx :: "MD5Context \<Rightarrow> MD5Context" where
  "clear_ctx ctx = ctx\<lparr>ctx_buf := (ctx_buf ctx)[0 := 0, 1 := 0]\<rparr>"

definition MD5Final :: "MD5Context \<Rightarrow> u8 list \<times> MD5Context" where
  "MD5Final ctx = (let ctx = md5_finish ctx in (take 16 (buf_bytes ctx), clear_ctx ctx))"

definition MD5HexDigit :: "u8 \<Rightarrow> u8" where
  "MD5HexDigit c = (let c = c AND 0xf in if c < 10 then c + 48 else c + 97 - 10)"

definition MD5HexFinal :: "MD5Context \<Rightarrow> u8 list \<times> MD5Context" where
  "MD5HexFinal ctx =
     (let ctx = md5_finish ctx
      in (concat (map (\<lambda>count. let p = buf_bytes ctx ! count in [MD5HexDigit (drop_bit 4 (p AND 0xf0)), MD5HexDigit (p AND 0xf)]) [0..<16]),
          clear_ctx ctx))"


section \<open>The digest of RFC 1321\<close>

text \<open>The table of constants, the integer parts of multiples of sines.\<close>

definition rfc_T :: "u32 list" where
  "rfc_T =
     [0xd76aa478, 0xe8c7b756, 0x242070db, 0xc1bdceee, 0xf57c0faf, 0x4787c62a, 0xa8304613, 0xfd469501,
      0x698098d8, 0x8b44f7af, 0xffff5bb1, 0x895cd7be, 0x6b901122, 0xfd987193, 0xa679438e, 0x49b40821,
      0xf61e2562, 0xc040b340, 0x265e5a51, 0xe9b6c7aa, 0xd62f105d, 0x02441453, 0xd8a1e681, 0xe7d3fbc8,
      0x21e1cde6, 0xc33707d6, 0xf4d50d87, 0x455a14ed, 0xa9e3e905, 0xfcefa3f8, 0x676f02d9, 0x8d2a4c8a,
      0xfffa3942, 0x8771f681, 0x6d9d6122, 0xfde5380c, 0xa4beea44, 0x4bdecfa9, 0xf6bb4b60, 0xbebfbc70,
      0x289b7ec6, 0xeaa127fa, 0xd4ef3085, 0x04881d05, 0xd9d4d039, 0xe6db99e5, 0x1fa27cf8, 0xc4ac5665,
      0xf4292244, 0x432aff97, 0xab9423a7, 0xfc93a039, 0x655b59c3, 0x8f0ccc92, 0xffeff47d, 0x85845dd1,
      0x6fa87e4f, 0xfe2ce6e0, 0xa3014314, 0x4e0811a1, 0xf7537e82, 0xbd3af235, 0x2ad7d2bb, 0xeb86d391]"

definition rfc_S :: "nat list list" where
  "rfc_S = [[7, 12, 17, 22], [5, 9, 14, 20], [4, 11, 16, 23], [6, 10, 15, 21]]"

definition rfc_F :: "nat \<Rightarrow> u32 \<Rightarrow> u32 \<Rightarrow> u32 \<Rightarrow> u32" where
  "rfc_F i x y z =
     (if i < 16 then (x AND y) OR (NOT x AND z)
      else if i < 32 then (x AND z) OR (y AND NOT z)
      else if i < 48 then x XOR y XOR z
      else y XOR (x OR NOT z))"

definition rfc_K :: "nat \<Rightarrow> nat" where
  "rfc_K i = (if i < 16 then i else if i < 32 then 5 * i + 1 else if i < 48 then 3 * i + 5 else 7 * i) mod 16"

text \<open>One operation of the RFC on the four words, after which the words change their places.\<close>

definition rfc_op :: "u32 list \<Rightarrow> nat \<Rightarrow> u32 \<times> u32 \<times> u32 \<times> u32 \<Rightarrow> u32 \<times> u32 \<times> u32 \<times> u32" where
  "rfc_op X i = (\<lambda>(a, b, c, d).
     (d, b + word_rotl (rfc_S ! (i div 16) ! (i mod 4)) (a + rfc_F i b c d + X ! rfc_K i + rfc_T ! i), b, c))"

definition rfc_compress :: "u32 list \<Rightarrow> u32 list \<Rightarrow> u32 list" where
  "rfc_compress buf X =
     (case fold (rfc_op X) [0..<64] (buf ! 0, buf ! 1, buf ! 2, buf ! 3) of
        (a, b, c, d) \<Rightarrow> [buf ! 0 + a, buf ! 1 + b, buf ! 2 + c, buf ! 3 + d])"

function rfc_blocks :: "u32 list \<Rightarrow> u8 list \<Rightarrow> u32 list" where
  "rfc_blocks buf bs = (if 64 \<le> length bs then rfc_blocks (rfc_compress buf (in_words (take 64 bs))) (drop 64 bs) else buf)"
  by auto
termination
  by (relation "measure (\<lambda>(buf, bs). length bs)") auto

declare rfc_blocks.simps [simp del]

text \<open>A one bit, zeros and the number of bits as 64 bits.\<close>

definition rfc_padding :: "nat \<Rightarrow> u8 list" where
  "rfc_padding n = 0x80 # replicate ((119 - n mod 64) mod 64) 0 @ le_bytes 8 (of_nat (8 * n) :: u64)"

definition rfc_init :: "u32 list" where
  "rfc_init = [0x67452301, 0xefcdab89, 0x98badcfe, 0x10325476]"

definition rfc_md5 :: "u8 list \<Rightarrow> u8 list" where
  "rfc_md5 msg = concat (map (le_bytes 4) (rfc_blocks rfc_init (msg @ rfc_padding (length msg))))"


section \<open>The unrolled rounds are the loop\<close>

lemma rotate_shifts:
  fixes v :: u32
  assumes "0 < s" "s < 32"
  shows "push_bit s v OR drop_bit (32 - s) v = word_rotl s v"
proof (rule bit_word_eqI)
  fix n
  assume "n < LENGTH(32)"
  then have n: "n < 32" by simp
  have m: "(n + (32 - s)) mod 32 = (if s \<le> n then n - s else n + (32 - s))"
  proof (cases "s \<le> n")
    case True
    then obtain d where d: "n = s + d" by (rule le_Suc_ex [elim_format]) blast
    then have "n + (32 - s) = d + 32" using assms by simp
    then show ?thesis using d n by simp
  qed (use assms n in simp)
  have "bit (word_rotl s v) n \<longleftrightarrow> bit v ((n + (32 - s)) mod 32)"
    unfolding bit_word_rotl_iff using assms n by simp
  moreover have "\<not> bit v (n + (32 - s))" if "s \<le> n" using that n assms bit_imp_le_length [of v "n + (32 - s)"] by auto
  moreover have "bit (push_bit s v OR drop_bit (32 - s) v) n \<longleftrightarrow> s \<le> n \<and> bit v (n - s) \<or> bit v (n + (32 - s))"
    using n by (simp add: bit_or_iff bit_push_bit_iff bit_drop_bit_eq add.commute)
  ultimately show "bit (push_bit s v OR drop_bit (32 - s) v) n = bit (word_rotl s v) n"
    unfolding m by auto
qed

text \<open>The function F1 saves one operation.\<close>

lemma rfc_F:
  "i < 16 \<Longrightarrow> F1 = rfc_F i"
  "16 \<le> i \<Longrightarrow> i < 32 \<Longrightarrow> F2 = rfc_F i"
  "32 \<le> i \<Longrightarrow> i < 48 \<Longrightarrow> F3 = rfc_F i"
  "48 \<le> i \<Longrightarrow> F4 = rfc_F i"
proof -
  have "F1 x y z = (x AND y) OR (NOT x AND z)" for x y z
    by (rule bit_word_eqI) (auto simp: F1_def bit_simps)
  moreover have "F2 x y z = (x AND z) OR (y AND NOT z)" for x y z
    by (rule bit_word_eqI) (auto simp: F2_def F1_def bit_simps)
  ultimately show "i < 16 \<Longrightarrow> F1 = rfc_F i" "16 \<le> i \<Longrightarrow> i < 32 \<Longrightarrow> F2 = rfc_F i"
      "32 \<le> i \<Longrightarrow> i < 48 \<Longrightarrow> F3 = rfc_F i" "48 \<le> i \<Longrightarrow> F4 = rfc_F i"
    by (simp_all add: fun_eq_iff rfc_F_def F3_def F4_def)
qed

lemma rfc_F_div:
  assumes "i < 64"
  shows "[F1, F2, F3, F4] ! (i div 16) = rfc_F i"
proof -
  consider "i < 16" | "16 \<le> i" "i < 32" | "32 \<le> i" "i < 48" | "48 \<le> i" by linarith
  then show ?thesis
  proof cases
    case 1
    then show ?thesis using rfc_F(1) by simp
  next
    case 2
    then have "i div 16 = 1" by (intro div_nat_eqI) simp_all
    then show ?thesis using rfc_F(2) 2 by simp
  next
    case 3
    then have "i div 16 = 2" by (intro div_nat_eqI) simp_all
    then show ?thesis using rfc_F(3) 3 by simp
  next
    case 4
    then have "i div 16 = 3" using assms by (intro div_nat_eqI) simp_all
    then show ?thesis using rfc_F(4) 4 by simp
  qed
qed

lemma rfc_S: "g < 4 \<Longrightarrow> k < 4 \<Longrightarrow> 0 < rfc_S ! g ! k \<and> rfc_S ! g ! k < 32"
  by (auto simp: rfc_S_def less_Suc_eq numeral_eq_Suc)

text \<open>Four steps with one function, after which every register has been assigned.\<close>

definition md5_quad ::
  "nat \<Rightarrow> ((u32 \<Rightarrow> u32 \<Rightarrow> u32 \<Rightarrow> u32) \<times> md5_reg \<times> md5_reg \<times> md5_reg \<times> md5_reg \<times> nat \<times> u32 \<times> nat) list" where
  "md5_quad i =
     (let f = [F1, F2, F3, F4] ! (i div 16); sh = rfc_S ! (i div 16)
      in [(f, Ra, Rb, Rc, Rd, rfc_K i, rfc_T ! i, sh ! 0), (f, Rd, Ra, Rb, Rc, rfc_K (i + 1), rfc_T ! (i + 1), sh ! 1),
          (f, Rc, Rd, Ra, Rb, rfc_K (i + 2), rfc_T ! (i + 2), sh ! 2), (f, Rb, Rc, Rd, Ra, rfc_K (i + 3), rfc_T ! (i + 3), sh ! 3)])"

lemma md5_steps_quads: "md5_steps = concat (map (\<lambda>j. md5_quad (4 * j)) [0..<16])"
  by (simp add: md5_steps_def md5_quad_def rfc_S_def rfc_K_def rfc_T_def upt_rec)

definition md5_tuple :: "md5_regs \<Rightarrow> u32 \<times> u32 \<times> u32 \<times> u32" where
  "md5_tuple r = (md5_a r, md5_b r, md5_c r, md5_d r)"

definition md5_do :: "u32 list \<Rightarrow> (u32 \<Rightarrow> u32 \<Rightarrow> u32 \<Rightarrow> u32) \<times> md5_reg \<times> md5_reg \<times> md5_reg \<times> md5_reg \<times> nat \<times> u32 \<times> nat \<Rightarrow> md5_regs \<Rightarrow> md5_regs" where
  "md5_do X = (\<lambda>(f, w, x, y, z, k, c, s). MD5STEP f w x y z (X ! k + c) s)"

definition md5_mix :: "(u32 \<Rightarrow> u32 \<Rightarrow> u32 \<Rightarrow> u32) \<Rightarrow> nat \<Rightarrow> u32 \<Rightarrow> u32 \<Rightarrow> u32 \<Rightarrow> u32 \<Rightarrow> u32 \<Rightarrow> u32" where
  "md5_mix f s data a b c d = (let v = a + (f b c d + data) in push_bit s v OR drop_bit (32 - s) v) + b"

lemma MD5STEP_mix: "MD5STEP f w x y z data s r = put_reg w (md5_mix f s data (get_reg w r) (get_reg x r) (get_reg y r) (get_reg z r)) r"
  by (simp add: MD5STEP_def md5_mix_def Let_def)

lemma rfc_op_step:
  assumes "f = rfc_F i" "s = rfc_S ! (i div 16) ! (i mod 4)" "0 < s" "s < 32"
  shows "rfc_op X i (a, b, c, d) = (d, md5_mix f s (X ! rfc_K i + rfc_T ! i) a b c d, b, c)"
  using assms rotate_shifts [of s] by (simp add: rfc_op_def md5_mix_def Let_def ac_simps)

lemma quad_index:
  fixes g h k :: nat
  assumes "h < 4" "k < 4"
  shows "(16 * g + 4 * h + k) div 16 = g" "(16 * g + 4 * h + k) mod 4 = k"
proof -
  show "(16 * g + 4 * h + k) div 16 = g" using assms by (intro div_nat_eqI) simp_all
  have "16 * g + 4 * h + k = 4 * (4 * g + h) + k" by simp
  then show "(16 * g + 4 * h + k) mod 4 = k" using assms(2) by (simp only: mod_mult_self4 mod_less)
qed

lemma md5_quad:
  assumes gh: "g < 4" "h < 4" and i: "i = 16 * g + 4 * h"
  shows "md5_tuple (fold (md5_do X) (md5_quad i) r) = fold (rfc_op X) [i..<i + 4] (md5_tuple r)"
proof -
  define f where "f = [F1, F2, F3, F4] ! (i div 16)"
  define sh where "sh = rfc_S ! (i div 16)"
  have q: "i div 16 = g" "(i + k) div 16 = g" "(i + k) mod 4 = k" "i + k < 64" if "k < 4" for k
    unfolding i using quad_index [OF gh(2) that, of g] quad_index(1) [OF gh(2), of 0 g] gh that by simp_all
  have f: "f = rfc_F (i + k)" if "k < 4" for k using rfc_F_div [OF q(4) [OF that]] q(1,2) [OF that] by (simp add: f_def)
  have sh: "0 < sh ! k" "sh ! k < 32" if "k < 4" for k using rfc_S [OF gh(1) that] q(1) [OF that] by (simp_all add: sh_def)
  have op: "rfc_op X (i + k) (a, b, c, d) = (d, md5_mix f (sh ! k) (X ! rfc_K (i + k) + rfc_T ! (i + k)) a b c d, b, c)"
    if "k < 4" for k a b c d
    by (rule rfc_op_step) (use f [OF that] q [OF that] sh [OF that] in \<open>simp_all add: sh_def\<close>)
  have "[i..<i + 4] = [i, i + 1, i + 2, i + 3]" by (simp add: upt_rec)
  then show ?thesis using op [of 0] op [of 1] op [of 2] op [of 3]
    by (simp add: md5_quad_def f_def [symmetric] sh_def [symmetric] md5_do_def MD5STEP_mix md5_tuple_def)
qed

lemma md5_quads: "n \<le> 16 \<Longrightarrow>
  md5_tuple (fold (md5_do X) (concat (map (\<lambda>j. md5_quad (4 * j)) [0..<n])) r) = fold (rfc_op X) [0..<4 * n] (md5_tuple r)"
proof (induction n)
  case (Suc n)
  have "[0..<4 * Suc n] = [0..<4 * n] @ [4 * n..<4 * n + 4]" using upt_add_eq_append [of 0 "4 * n" 4] by (simp add: add.commute)
  moreover have "4 * n = 16 * (n div 4) + 4 * (n mod 4)" using mult_div_mod_eq [of 4 n] by linarith
  moreover have "n div 4 < 4" "n mod 4 < 4" using Suc.prems by (simp_all add: less_mult_imp_div_less)
  ultimately show ?case using Suc md5_quad [of "n div 4" "n mod 4" "4 * n" X] by simp
qed simp

lemma MD5Transform_rfc: "MD5Transform buf X = rfc_compress buf X"
proof -
  let ?r = "\<lparr>md5_a = buf ! 0, md5_b = buf ! 1, md5_c = buf ! 2, md5_d = buf ! 3\<rparr>"
  define r where "r = fold (md5_do X) md5_steps ?r"
  have "md5_tuple r = fold (rfc_op X) [0..<64] (md5_tuple ?r)"
    using md5_quads [of 16 X ?r] by (simp add: r_def md5_steps_quads)
  then have "fold (rfc_op X) [0..<64] (buf ! 0, buf ! 1, buf ! 2, buf ! 3) = (md5_a r, md5_b r, md5_c r, md5_d r)"
    by (simp add: md5_tuple_def)
  moreover have "MD5Transform buf X = [buf ! 0 + md5_a r, buf ! 1 + md5_b r, buf ! 2 + md5_c r, buf ! 3 + md5_d r]"
    unfolding MD5Transform_def r_def md5_do_def Let_def ..
  ultimately show ?thesis by (simp only: rfc_compress_def prod.case)
qed


section \<open>Messages in pieces\<close>

lemma rfc_blocks_short [simp]: "length bs < 64 \<Longrightarrow> rfc_blocks buf bs = buf"
  by (simp add: rfc_blocks.simps)

lemma rfc_blocks_append: "64 dvd length as \<Longrightarrow> rfc_blocks buf (as @ bs) = rfc_blocks (rfc_blocks buf as) bs"
proof (induction buf as rule: rfc_blocks.induct)
  case (1 buf as)
  show ?case
  proof (cases "64 \<le> length as")
    case True
    then have "64 dvd length (drop 64 as)" using 1(2) by (simp add: dvd_diff_nat)
    then show ?thesis using 1(1) [OF True] True by (simp add: rfc_blocks.simps [of buf])
  next
    case False
    then have "length as = 0" using 1(2) by (auto dest: dvd_imp_le)
    then show ?thesis by simp
  qed
qed

lemma rfc_blocks_step: "length bs = 64 \<Longrightarrow> rfc_blocks buf (bs @ cs) = rfc_blocks (rfc_compress buf (in_words bs)) cs"
  by (simp add: rfc_blocks.simps [of buf])

text \<open>The 64-bit count of bits, kept as two words.\<close>

definition md5_count :: "nat \<Rightarrow> u32 list" where
  "md5_count n = [of_nat (8 * n), of_nat (8 * n div 2 ^ 32)]"

lemma bytes_of_nat_append: "bytes_of_nat (m + k) x = bytes_of_nat m x @ bytes_of_nat k (x div 256 ^ m)"
  by (induction m arbitrary: x) (auto simp: div_mult2_eq)

lemma bytes_of_nat_mod: "bytes_of_nat m (x mod 256 ^ m) = bytes_of_nat m x"
proof (induction m arbitrary: x)
  case (Suc m)
  have "x mod (256 * 256 ^ m) mod 256 = x mod 256" by (rule mod_mod_cancel) simp
  moreover have "x mod (256 * 256 ^ m) div 256 = x div 256 mod 256 ^ m" by (simp add: mod_mult2_eq)
  ultimately show ?case using Suc by simp
qed simp

lemma md5_count_le_bytes: "le_bytes 4 (md5_count n ! 0) @ le_bytes 4 (md5_count n ! 1) = le_bytes 8 (of_nat (8 * n) :: u64)"
proof -
  have a: "le_bytes 4 (of_nat x :: u32) = bytes_of_nat 4 x" for x
    using bytes_of_nat_mod [of 4 x] by (simp add: le_bytes_def unat_of_nat)
  have b: "le_bytes 8 (of_nat x :: u64) = bytes_of_nat 8 x" for x
    using bytes_of_nat_mod [of 8 x] by (simp add: le_bytes_def unat_of_nat)
  have "bytes_of_nat 8 (8 * n) = bytes_of_nat 4 (8 * n) @ bytes_of_nat 4 (8 * n div 2 ^ 32)"
    using bytes_of_nat_append [of 4 4 "8 * n"] by simp
  then show ?thesis unfolding b md5_count_def nth_Cons_0 One_nat_def nth_Cons_Suc a by simp
qed

lemma md5_count_add:
  fixes len t :: u32
  assumes t: "t = md5_count n ! 0"
  shows "[t + push_bit 3 len, md5_count n ! 1 + (if t + push_bit 3 len < t then 1 else 0) + drop_bit 29 len] = md5_count (n + unat len)"
proof -
  let ?M = "2 ^ 32 :: nat"
  define x where "x = 8 * n mod ?M"
  define y where "y = 8 * unat len mod ?M"
  have uo: "unat (of_nat k :: u32) = k mod ?M" for k by (simp add: unat_of_nat)
  have ut: "unat t = x" unfolding t md5_count_def nth_Cons_0 uo x_def ..
  have lo: "t + push_bit 3 len = of_nat (8 * (n + unat len))" by (simp add: t md5_count_def push_bit_eq_mult)
  have ulo: "unat (t + push_bit 3 len) = (x + y) mod ?M" unfolding lo uo x_def y_def by (simp only: mod_add_eq distrib_left)
  have xy: "x < ?M" "y < ?M" by (simp_all add: x_def y_def)
  have carry: "(if t + push_bit 3 len < t then 1 else 0 :: u32) = of_nat ((x + y) div ?M)"
  proof (cases "x + y < ?M")
    case True
    then show ?thesis unfolding word_less_nat_alt ulo ut by simp
  next
    case False
    then have "(x + y) mod ?M = x + y - ?M" "(x + y) div ?M = 1" using xy by (simp_all add: le_mod_geq le_div_geq)
    then show ?thesis unfolding word_less_nat_alt ulo ut using xy by simp
  qed
  have "drop_bit 29 len = of_nat (8 * unat len div ?M)"
  proof (rule word_unat_eq_iff [THEN iffD2])
    have "unat (drop_bit 29 len) = unat len div 2 ^ 29" by (simp add: unsigned_drop_bit_eq drop_bit_eq_div take_bit_unat unat_div)
    moreover have "8 * unat len div ?M = unat len div 2 ^ 29" by simp
    moreover have "unat len div 2 ^ 29 < ?M" using unsigned_less [of len, where ?'a = nat] by (simp add: less_mult_imp_div_less)
    ultimately show "unat (drop_bit 29 len) = unat (of_nat (8 * unat len div ?M) :: u32)" unfolding uo by simp
  qed
  then have "md5_count n ! 1 + (if t + push_bit 3 len < t then 1 else 0) + drop_bit 29 len =
      of_nat (8 * n div ?M + 8 * unat len div ?M + (x + y) div ?M)"
    unfolding carry by (simp add: md5_count_def)
  also have "\<dots> = of_nat (8 * (n + unat len) div ?M)"
    unfolding x_def y_def by (subst div_add1_eq [symmetric]) (simp add: algebra_simps)
  finally show ?thesis unfolding lo by (simp add: md5_count_def)
qed

lemma md5_count_index: "unat (drop_bit 3 (md5_count n ! 0) AND 0x3f) = n mod 64"
proof -
  have "(0x3f :: u32) = mask 6" by (simp add: mask_eq_exp_minus_1)
  then have "drop_bit 3 (md5_count n ! 0) AND 0x3f = take_bit 6 (drop_bit 3 (of_nat (8 * n) :: u32))"
    by (simp add: take_bit_eq_mask md5_count_def)
  then have "unat (drop_bit 3 (md5_count n ! 0) AND 0x3f) = (8 * n mod 2 ^ 32) div 8 mod 64"
    by (simp add: unat_div unat_mod unsigned_take_bit_eq unsigned_drop_bit_eq take_bit_unat unat_of_nat take_bit_eq_mod drop_bit_eq_div del: of_nat_mult)
  also have "(8 * n mod 2 ^ 32) div 8 = n mod 2 ^ 29" using mod_mult_mult1 [of 8 n "2 ^ 29"] by simp
  also have "n mod 2 ^ 29 mod 64 = n mod 64" by (rule mod_mod_cancel) simp
  finally show ?thesis .
qed

text \<open>
  The context after a message, of which the part \<open>pre\<close> has been transformed and the part \<open>tail\<close> waits for the rest of a block.
\<close>

definition md5_part :: "MD5Context \<Rightarrow> u8 list \<Rightarrow> u8 list \<Rightarrow> bool" where
  "md5_part ctx pre tail \<longleftrightarrow> length (ctx_in ctx) = 64 \<and> 64 dvd length pre \<and> length tail < 64 \<and>
     ctx_buf ctx = rfc_blocks rfc_init pre \<and> take (length tail) (ctx_in ctx) = tail"

definition md5_holds :: "MD5Context \<Rightarrow> u8 list \<Rightarrow> bool" where
  "md5_holds ctx msg \<longleftrightarrow> ctx_bits ctx = md5_count (length msg) \<and> (\<exists>pre tail. msg = pre @ tail \<and> md5_part ctx pre tail)"

lemma blit_prefix:
  assumes "take (length ys) xs = ys" "length ys + length zs \<le> length xs"
  shows "take (length ys + length zs) (blit (length ys) zs xs) = ys @ zs" "length (blit (length ys) zs xs) = length xs"
  using assms by (simp_all add: blit_def)

lemma blit_full:
  assumes "take (length ys) xs = ys" "length ys + length zs = length xs"
  shows "blit (length ys) zs xs = ys @ zs"
  using assms by (simp add: blit_def)

lemma transform_in:
  assumes "length (ctx_in ctx) = 64" "64 dvd length pre" "ctx_buf ctx = rfc_blocks rfc_init pre"
  shows "ctx_buf (transform_in ctx) = rfc_blocks rfc_init (pre @ ctx_in ctx)" "ctx_in (transform_in ctx) = ctx_in ctx"
    "ctx_bits (transform_in ctx) = ctx_bits ctx"
  using assms rfc_blocks_step [of "ctx_in ctx" _ "[]"] by (simp_all add: transform_in_def MD5Transform_rfc rfc_blocks_append)

lemma md5_chunks_part:
  assumes "length buf = unat len" "length (ctx_in ctx) = 64" "64 dvd length pre" "ctx_buf ctx = rfc_blocks rfc_init pre"
  shows "ctx_bits (md5_chunks buf len ctx) = ctx_bits ctx \<and>
    (\<exists>as bs. buf = as @ bs \<and> md5_part (md5_chunks buf len ctx) (pre @ as) bs)"
  using assms
proof (induction buf len ctx arbitrary: pre rule: md5_chunks.induct)
  case (1 buf len ctx)
  show ?case
  proof (cases "64 \<le> len")
    case True
    then have len: "64 \<le> length buf" "unat (len - 64) = length buf - 64" using 1(2) by (simp_all add: word_le_nat_alt unat_sub)
    define ctx1 where "ctx1 = ctx\<lparr>ctx_in := blit 0 (take 64 buf) (ctx_in ctx)\<rparr>"
    have in1: "ctx_in ctx1 = take 64 buf" using blit_full [of "[]" "ctx_in ctx" "take 64 buf"] 1(3) len(1) by (simp add: ctx1_def)
    then have t: "ctx_buf (transform_in ctx1) = rfc_blocks rfc_init (pre @ take 64 buf)" "ctx_in (transform_in ctx1) = take 64 buf"
        "ctx_bits (transform_in ctx1) = ctx_bits ctx"
      using transform_in [of ctx1 pre] 1(4,5) len(1) by (simp_all add: ctx1_def)
    have "length (drop 64 buf) = unat (len - 64)" using len by simp
    from 1(1) [OF True, folded ctx1_def, OF this, of "pre @ take 64 buf"]
    obtain as bs where ab: "drop 64 buf = as @ bs" "md5_part (md5_chunks (drop 64 buf) (len - 64) (transform_in ctx1)) ((pre @ take 64 buf) @ as) bs"
        "ctx_bits (md5_chunks (drop 64 buf) (len - 64) (transform_in ctx1)) = ctx_bits (transform_in ctx1)"
      using t 1(4) len(1) by auto
    have eq: "md5_chunks buf len ctx = md5_chunks (drop 64 buf) (len - 64) (transform_in ctx1)"
      using True by (subst md5_chunks.simps) (simp add: ctx1_def)
    have "buf = (take 64 buf @ as) @ bs" using ab(1) by (metis append.assoc append_take_drop_id)
    then show ?thesis using ab(2,3) t(3) unfolding eq by (metis append.assoc)
  next
    case False
    then have len: "length buf < 64" using 1(2) by (simp add: word_le_nat_alt)
    have eq: "md5_chunks buf len ctx = ctx\<lparr>ctx_in := blit 0 buf (ctx_in ctx)\<rparr>"
      using False 1(2) by (subst md5_chunks.simps) simp
    have "md5_part (ctx\<lparr>ctx_in := blit 0 buf (ctx_in ctx)\<rparr>) pre buf"
      using blit_prefix [of "[]" "ctx_in ctx" buf] 1(3-5) len by (simp add: md5_part_def)
    then show ?thesis unfolding eq by (intro conjI exI [of _ "[]"] exI [of _ buf]) simp_all
  qed
qed

lemma md5_holds_index:
  assumes "md5_holds ctx (pre @ tail)" "md5_part ctx pre tail"
  shows "unat (drop_bit 3 (ctx_bits ctx ! 0) AND 0x3f) = length tail"
proof -
  have "(length pre + length tail) mod 64 = length tail" using assms(2) by (auto simp: md5_part_def elim!: dvdE)
  then show ?thesis using assms(1) md5_count_index [of "length pre + length tail"] by (simp add: md5_holds_def)
qed

lemma MD5Init_holds: "length (ctx_in ctx) = 64 \<Longrightarrow> md5_holds (MD5Init ctx) []"
  by (simp add: md5_holds_def md5_part_def MD5Init_def md5_count_def rfc_init_def)

lemma MD5Update_holds:
  assumes "md5_holds ctx msg" and len: "length buf = unat len"
  shows "md5_holds (MD5Update ctx buf len) (msg @ buf)"
proof -
  obtain pre tail where msg: "msg = pre @ tail" "md5_part ctx pre tail" "ctx_bits ctx = md5_count (length msg)"
    using assms(1) by (auto simp: md5_holds_def)
  note part = msg(2) [unfolded md5_part_def]
  define t where "t = drop_bit 3 (ctx_bits ctx ! 0) AND 0x3f"
  have t: "unat t = length tail" using md5_holds_index [of ctx pre tail] assms(1) msg(1,2) by (simp add: t_def)
  then have t64: "unat (64 - t) = 64 - length tail" using part by (simp add: unat_sub word_le_nat_alt)
  define ctx1 where "ctx1 = ctx\<lparr>ctx_bits := md5_count (length msg + unat len)\<rparr>"
  have upd: "MD5Update ctx buf len =
      (if t \<noteq> 0
       then if len < 64 - t then ctx1\<lparr>ctx_in := blit (unat t) (take (unat len) buf) (ctx_in ctx1)\<rparr>
            else md5_chunks (drop (unat (64 - t)) buf) (len - (64 - t))
              (transform_in (ctx1\<lparr>ctx_in := blit (unat t) (take (unat (64 - t)) buf) (ctx_in ctx1)\<rparr>))
       else md5_chunks buf len ctx1)"
    unfolding MD5Update_def Let_def t_def ctx1_def msg(3) md5_count_add [OF refl] by simp
  have c1: "ctx_in ctx1 = ctx_in ctx" "ctx_buf ctx1 = ctx_buf ctx" "ctx_bits ctx1 = md5_count (length (msg @ buf))"
    by (simp_all add: ctx1_def len)
  consider "t \<noteq> 0" "len < 64 - t" | "t \<noteq> 0" "\<not> len < 64 - t" | "t = 0" by blast
  then show ?thesis
  proof cases
    case 1
    then have "length tail + length buf < 64" using t64 len by (simp add: word_less_nat_alt)
    then have "md5_part (ctx1\<lparr>ctx_in := blit (length tail) buf (ctx_in ctx)\<rparr>) pre (tail @ buf)"
      using blit_prefix [of tail "ctx_in ctx" buf] part c1 by (simp add: md5_part_def)
    then show ?thesis using 1 c1 t len msg(1) unfolding upd md5_holds_def by auto
  next
    case 2
    let ?k = "64 - length tail"
    have k: "?k \<le> length buf" "unat (len - (64 - t)) = length buf - ?k" using 2 t64 len by (simp_all add: word_less_nat_alt unat_sub word_le_nat_alt)
    define ctx2 where "ctx2 = ctx1\<lparr>ctx_in := blit (length tail) (take ?k buf) (ctx_in ctx)\<rparr>"
    have in2: "ctx_in ctx2 = tail @ take ?k buf" "ctx_buf ctx2 = rfc_blocks rfc_init pre" "ctx_bits ctx2 = md5_count (length (msg @ buf))"
      using blit_full [of tail "ctx_in ctx" "take ?k buf"] part k(1) c1 by (simp_all add: ctx2_def)
    then have l2: "length (ctx_in ctx2) = 64" "64 dvd length (pre @ ctx_in ctx2)" using part k(1) by simp_all
    have tr: "ctx_buf (transform_in ctx2) = rfc_blocks rfc_init (pre @ ctx_in ctx2)" "ctx_in (transform_in ctx2) = ctx_in ctx2"
        "ctx_bits (transform_in ctx2) = ctx_bits ctx2"
      using transform_in [of ctx2 pre] l2(1) in2(2) part by simp_all
    let ?ctx = "md5_chunks (drop ?k buf) (len - (64 - t)) (transform_in ctx2)"
    obtain as bs where ab: "ctx_bits ?ctx = ctx_bits ctx2" "drop ?k buf = as @ bs" "md5_part ?ctx ((pre @ ctx_in ctx2) @ as) bs"
      using md5_chunks_part [of "drop ?k buf" "len - (64 - t)" "transform_in ctx2" "pre @ ctx_in ctx2"] tr l2 k(2) by auto
    have "msg @ buf = ((pre @ ctx_in ctx2) @ as) @ bs" using ab(2) in2(1) msg(1) append_take_drop_id [of ?k buf] by simp
    moreover have "MD5Update ctx buf len = ?ctx" using 2 t t64 c1(1) by (simp add: upd ctx2_def)
    ultimately show ?thesis using ab(1,3) in2(3) unfolding md5_holds_def by metis
  next
    case 3
    then have tail: "tail = []" using t by simp
    obtain as bs where "ctx_bits (md5_chunks buf len ctx1) = ctx_bits ctx1" "buf = as @ bs" "md5_part (md5_chunks buf len ctx1) (pre @ as) bs"
      using md5_chunks_part [OF len, of ctx1 pre] part c1 by auto
    moreover from this have "msg @ buf = (pre @ as) @ bs" using msg(1) tail by simp
    moreover have "MD5Update ctx buf len = md5_chunks buf len ctx1" using 3 by (simp add: upd)
    ultimately show ?thesis using c1(3) unfolding md5_holds_def by metis
  qed
qed

lemma rfc_padding_split:
  assumes "64 dvd length pre" "length tail < 64"
  shows "rfc_padding (length pre + length tail) =
    (if length tail \<le> 55 then 0x80 # replicate (55 - length tail) 0 else (0x80 # replicate (63 - length tail) 0) @ replicate 56 0) @
    le_bytes 4 (md5_count (length pre + length tail) ! 0) @ le_bytes 4 (md5_count (length pre + length tail) ! 1)"
proof -
  have m: "(length pre + length tail) mod 64 = length tail" using assms by (auto elim!: dvdE)
  have "(119 - length tail) mod 64 = (if length tail \<le> 55 then 55 - length tail else (63 - length tail) + 56)"
  proof (cases "length tail \<le> 55")
    case True
    then have "119 - length tail = (55 - length tail) + 64" by simp
    moreover have "((55 - length tail) + 64) mod 64 = 55 - length tail" by (simp only: mod_add_self2) simp
    ultimately show ?thesis using True by (simp only: if_True)
  next
    case False
    then have "119 - length tail < 64" "119 - length tail = (63 - length tail) + 56" using assms(2) by linarith+
    then show ?thesis using False by (simp only: if_False mod_less)
  qed
  then have "rfc_padding (length pre + length tail) =
      0x80 # replicate (if length tail \<le> 55 then 55 - length tail else (63 - length tail) + 56) 0 @
      le_bytes 4 (md5_count (length pre + length tail) ! 0) @ le_bytes 4 (md5_count (length pre + length tail) ! 1)"
    by (simp only: rfc_padding_def m md5_count_le_bytes)
  then show ?thesis by (cases "length tail \<le> 55") (simp_all only: if_True if_False replicate_add append_Cons append_Nil append_assoc)
qed

lemma md5_finish_blocks:
  assumes "md5_holds ctx msg"
  shows "ctx_buf (md5_finish ctx) = rfc_blocks rfc_init (msg @ rfc_padding (length msg))"
proof -
  obtain pre tail where msg: "msg = pre @ tail" "md5_part ctx pre tail" "ctx_bits ctx = md5_count (length msg)"
    using assms by (auto simp: md5_holds_def)
  note part = msg(2) [unfolded md5_part_def]
  let ?c = "length tail" and ?len = "le_bytes 4 (ctx_bits ctx ! 0) @ le_bytes 4 (ctx_bits ctx ! 1)"
  have c: "unat (drop_bit 3 (ctx_bits ctx ! 0) AND 0x3f) = ?c" using md5_holds_index [of ctx pre tail] assms msg by simp
  have len: "blit 60 (le_bytes 4 (ctx_bits ctx ! 1)) (blit 56 (le_bytes 4 (ctx_bits ctx ! 0)) xs) = ys @ ?len"
    if "take 56 xs = ys" "length xs = 64" for xs ys
    using that by (auto simp: blit_def)
  have in1: "take (Suc ?c) (blit ?c [0x80] (ctx_in ctx)) = tail @ [0x80]" "length (blit ?c [0x80] (ctx_in ctx)) = 64"
    using blit_prefix [of tail "ctx_in ctx" "[0x80]"] part by simp_all
  show ?thesis
  proof (cases "?c \<le> 55")
    case True
    let ?in = "blit (Suc ?c) (replicate (55 - ?c) 0) (blit ?c [0x80] (ctx_in ctx))"
    have "take 56 ?in = tail @ 0x80 # replicate (55 - ?c) 0" "length ?in = 64"
      using blit_prefix [of "tail @ [0x80]" "blit ?c [0x80] (ctx_in ctx)" "replicate (55 - ?c) 0"] in1 True by simp_all
    moreover have "\<not> 64 - 1 - ?c < 8" "64 - 1 - ?c - 8 = 55 - ?c" using True by linarith+
    ultimately have "ctx_buf (md5_finish ctx) = rfc_compress (rfc_blocks rfc_init pre) (in_words ((tail @ 0x80 # replicate (55 - ?c) 0) @ ?len))"
      using len [of ?in] part by (simp only: md5_finish_def Let_def c transform_in_def MD5Transform_rfc if_False) simp
    also have "\<dots> = rfc_blocks rfc_init (pre @ (tail @ 0x80 # replicate (55 - ?c) 0) @ ?len)"
      using rfc_blocks_step [of "(tail @ 0x80 # replicate (55 - ?c) 0) @ ?len" "rfc_blocks rfc_init pre" "[]"] part True
      by (simp add: rfc_blocks_append)
    finally show ?thesis using rfc_padding_split [of pre tail] part msg True by simp
  next
    case False
    let ?in = "blit (Suc ?c) (replicate (63 - ?c) 0) (blit ?c [0x80] (ctx_in ctx))"
    have in2: "?in = tail @ 0x80 # replicate (63 - ?c) 0" "length ?in = 64"
      using blit_full [of "tail @ [0x80]" "blit ?c [0x80] (ctx_in ctx)" "replicate (63 - ?c) 0"] in1 False part by simp_all
    have "take 56 (blit 0 (replicate 56 0) ?in) = replicate 56 0" "length (blit 0 (replicate 56 0) ?in) = 64"
      using blit_prefix [of "[]" ?in "replicate 56 0"] in2(2) by simp_all
    moreover have "64 - 1 - ?c < 8" "64 - 1 - ?c = 63 - ?c" using False by linarith+
    ultimately have "ctx_buf (md5_finish ctx) =
        rfc_compress (rfc_compress (rfc_blocks rfc_init pre) (in_words ?in)) (in_words (replicate 56 0 @ ?len))"
      using len [of "blit 0 (replicate 56 0) ?in"] part by (simp only: md5_finish_def Let_def c transform_in_def MD5Transform_rfc if_True) simp
    also have "\<dots> = rfc_blocks rfc_init (pre @ ?in @ replicate 56 0 @ ?len)"
      using rfc_blocks_step [of ?in "rfc_blocks rfc_init pre" "replicate 56 0 @ ?len"]
        rfc_blocks_step [of "replicate 56 0 @ ?len" "rfc_compress (rfc_blocks rfc_init pre) (in_words ?in)" "[]"] part in2(2)
      by (simp add: rfc_blocks_append)
    finally show ?thesis using rfc_padding_split [of pre tail] part msg False in2(1) by simp
  qed
qed

text \<open>A message that is passed in pieces.\<close>

definition md5_feed :: "u8 list list \<Rightarrow> MD5Context \<Rightarrow> MD5Context" where
  "md5_feed pieces ctx = fold (\<lambda>buf ctx. MD5Update ctx buf (of_nat (length buf))) pieces (MD5Init ctx)"

lemma md5_feed_holds:
  assumes "length (ctx_in ctx) = 64" "\<forall>buf \<in> set pieces. length buf < 2 ^ 32"
  shows "md5_holds (md5_feed pieces ctx) (concat pieces)"
proof -
  have "md5_holds (fold (\<lambda>buf ctx. MD5Update ctx buf (of_nat (length buf))) ps c) (msg @ concat ps)"
    if "md5_holds c msg" "\<forall>buf \<in> set ps. length buf < 2 ^ 32" for ps c msg
    using that
  proof (induction ps arbitrary: c msg)
    case (Cons buf ps)
    have "length buf = unat (of_nat (length buf) :: u32)" using Cons.prems(2) by (simp add: unat_of_nat)
    then have "md5_holds (MD5Update c buf (of_nat (length buf))) (msg @ buf)" by (rule MD5Update_holds [OF Cons.prems(1)])
    from Cons.IH [OF this] show ?case using Cons.prems(2) by simp
  qed simp
  from this [OF MD5Init_holds [OF assms(1)] assms(2)] show ?thesis by (simp add: md5_feed_def)
qed

text \<open>The arrays of a context have the lengths they are declared with.\<close>

definition md5_typed :: "MD5Context \<Rightarrow> bool" where
  "md5_typed ctx \<longleftrightarrow> length (ctx_buf ctx) = 4 \<and> length (ctx_bits ctx) = 2 \<and> length (ctx_in ctx) = 64"

lemma length_MD5Transform [simp]: "length (MD5Transform buf X) = 4"
  by (simp add: MD5Transform_def Let_def)

lemma length_rfc_blocks: "length buf = 4 \<Longrightarrow> length (rfc_blocks buf bs) = 4"
proof (induction buf bs rule: rfc_blocks.induct)
  case (1 buf bs)
  have "length (rfc_compress buf X) = 4" for X using length_MD5Transform [of buf X] by (simp only: MD5Transform_rfc)
  then show ?case using 1 by (subst rfc_blocks.simps) simp
qed

lemma md5_holds_typed: "md5_holds ctx msg \<Longrightarrow> md5_typed ctx"
  by (auto simp: md5_holds_def md5_part_def md5_typed_def md5_count_def rfc_init_def intro!: length_rfc_blocks)

lemma md5_finish_typed:
  assumes "md5_typed ctx"
  shows "md5_typed (md5_finish ctx)"
proof -
  have le: "unat (w AND 0x3f :: u32) \<le> 63" for w
    using word_and_le1 [of w "0x3f"] by (simp add: word_le_nat_alt)
  show ?thesis using assms le [of "drop_bit 3 (ctx_bits ctx ! 0)"]
    by (auto simp: md5_finish_def Let_def md5_typed_def transform_in_def length_blit)
qed

lemma length_buf_bytes: "md5_typed ctx \<Longrightarrow> length (buf_bytes ctx) = 16"
  by (simp add: md5_typed_def buf_bytes_def length_concat comp_def sum_list_replicate map_replicate_const)

text \<open>Two lower-case digits per byte.\<close>

definition hex_byte :: "u8 \<Rightarrow> u8 list" where
  "hex_byte b =
     (let digits = [48, 49, 50, 51, 52, 53, 54, 55, 56, 57, 97, 98, 99, 100, 101, 102]
      in [digits ! (unat b div 16), digits ! (unat b mod 16)])"

lemma MD5HexDigit:
  assumes "unat c < 16"
  shows "MD5HexDigit c = [48, 49, 50, 51, 52, 53, 54, 55, 56, 57, 97, 98, 99, 100, 101, 102] ! unat c"
proof -
  have c: "c = of_nat (unat c)" by simp
  have "unat c \<in> set [0..<16]" using assms by simp
  then have "unat c \<in> {0, 1, 2, 3, 4, 5, 6, 7, 8, 9, 10, 11, 12, 13, 14, 15}" by (auto simp: upt_rec)
  then show ?thesis by (subst c) (elim insertE emptyE; simp add: MD5HexDigit_def)
qed

lemma hex_byte: "[MD5HexDigit (drop_bit 4 (b AND 0xf0)), MD5HexDigit (b AND 0xf)] = hex_byte b"
proof -
  have m: "(0xf :: u8) = mask 4" by (simp add: mask_eq_exp_minus_1)
  have lo: "unat (b AND 0xf) = unat b mod 16" unfolding m by (simp add: take_bit_eq_mask [symmetric] unsigned_take_bit_eq take_bit_eq_mod unat_mod)
  have "drop_bit 4 (b AND 0xf0) = drop_bit 4 b"
    by (rule bit_word_eqI) (auto simp: bit_simps numeral_eq_Suc less_Suc_eq dest: bit_imp_le_length)
  then have hi: "unat (drop_bit 4 (b AND 0xf0)) = unat b div 16" by (simp add: unsigned_drop_bit_eq drop_bit_eq_div take_bit_unat unat_div)
  have "unat b div 16 < 16" using unsigned_less [of b, where ?'a = nat] by (simp add: less_mult_imp_div_less)
  then show ?thesis unfolding hex_byte_def Let_def using MD5HexDigit [of "b AND 0xf"] MD5HexDigit [of "drop_bit 4 (b AND 0xf0)"] lo hi by simp
qed


section \<open>Properties\<close>

text \<open>C37. The digest that is computed for a message passed in pieces of any sizes is the MD5 digest of RFC 1321 of the whole message, as bytes
  or as lower-case hexadecimal digits.\<close>
theorem md5_correct:
  assumes "length (ctx_in ctx) = 64" and "\<forall>buf \<in> set pieces. length buf < 2 ^ 32"
  shows "fst (MD5Final (md5_feed pieces ctx)) = rfc_md5 (concat pieces) \<and>
    fst (MD5HexFinal (md5_feed pieces ctx)) = concat (map hex_byte (rfc_md5 (concat pieces)))"
proof -
  let ?ctx = "md5_feed pieces ctx"
  note holds = md5_feed_holds [OF assms]
  have b: "buf_bytes (md5_finish ?ctx) = rfc_md5 (concat pieces)"
    using md5_finish_blocks [OF holds] by (simp add: buf_bytes_def rfc_md5_def)
  have l: "length (buf_bytes (md5_finish ?ctx)) = 16" by (intro length_buf_bytes md5_finish_typed md5_holds_typed [OF holds])
  then have "map (\<lambda>i. hex_byte (buf_bytes (md5_finish ?ctx) ! i)) [0..<16] = map hex_byte (buf_bytes (md5_finish ?ctx))"
    by (intro nth_equalityI) simp_all
  then have "fst (MD5HexFinal ?ctx) = concat (map hex_byte (buf_bytes (md5_finish ?ctx)))"
    unfolding MD5HexFinal_def Let_def hex_byte by simp
  then show ?thesis using b l by (simp add: MD5Final_def Let_def)
qed

theorem md5_correct_witness:
  "fst (MD5Final (md5_feed [[97], [98, 99]] \<lparr>ctx_buf = [], ctx_bits = [], ctx_in = replicate 64 0\<rparr>)) = rfc_md5 [97, 98, 99]"
  using md5_correct [of "\<lparr>ctx_buf = [], ctx_bits = [], ctx_in = replicate 64 0\<rparr>" "[[97], [98, 99]]"] by simp

text \<open>C38. The arrays of a context keep the lengths they are declared with, so that no operation writes outside them, and the digests have 16 and 32 bytes.\<close>
theorem md5_context_typed:
  assumes "md5_typed ctx" and "\<forall>buf \<in> set pieces. length buf < 2 ^ 32"
  shows "md5_typed (md5_feed pieces ctx) \<and>
    md5_typed (snd (MD5Final (md5_feed pieces ctx))) \<and> length (fst (MD5Final (md5_feed pieces ctx))) = 16 \<and>
    md5_typed (snd (MD5HexFinal (md5_feed pieces ctx))) \<and> length (fst (MD5HexFinal (md5_feed pieces ctx))) = 32"
proof -
  have t: "md5_typed (md5_feed pieces ctx)"
    using md5_holds_typed [OF md5_feed_holds [of ctx pieces]] assms by (simp add: md5_typed_def)
  then have f: "md5_typed (md5_finish (md5_feed pieces ctx))" by (rule md5_finish_typed)
  then have "md5_typed (clear_ctx (md5_finish (md5_feed pieces ctx)))" by (simp add: md5_typed_def clear_ctx_def)
  then show ?thesis using t length_buf_bytes [OF f] by (simp add: MD5Final_def MD5HexFinal_def Let_def length_concat comp_def sum_list_triv)
qed

theorem md5_context_typed_witness:
  "md5_typed (snd (MD5Final (md5_feed [[97], [98, 99]] \<lparr>ctx_buf = [0, 0, 0, 0], ctx_bits = [0, 0], ctx_in = replicate 64 0\<rparr>)))"
  using md5_context_typed [of "\<lparr>ctx_buf = [0, 0, 0, 0], ctx_bits = [0, 0], ctx_in = replicate 64 0\<rparr>" "[[97], [98, 99]]"]
  by (simp add: md5_typed_def)

text \<open>C39. The context is not cleared after the digest has been computed: a message of at most 55 bytes is still in it.\<close>
theorem md5_context_not_cleared:
  assumes "length (ctx_in ctx) = 64" and "length msg \<le> 55"
  shows "take (length msg) (ctx_in (snd (MD5Final (md5_feed [msg] ctx)))) = msg"
proof -
  let ?ctx = "md5_feed [msg] ctx"
  have holds: "md5_holds ?ctx msg" using md5_feed_holds [of ctx "[msg]"] assms by simp
  then obtain pre tail where p: "msg = pre @ tail" "md5_part ?ctx pre tail" by (auto simp: md5_holds_def)
  have "64 dvd length pre" "length pre \<le> 55" using p assms(2) by (simp_all add: md5_part_def)
  then have "length pre = 0" using dvd_imp_le [of 64 "length pre"] by linarith
  then have "tail = msg" using p(1) by (simp only: length_0_conv append_Nil)
  with p(2) have part: "md5_part ?ctx pre msg" by (simp only:)
  then have tail: "take (length msg) (ctx_in ?ctx) = msg" "length (ctx_in ?ctx) = 64" unfolding md5_part_def by blast+
  have "pre @ msg = msg" using \<open>length pre = 0\<close> by (simp only: length_0_conv append_Nil)
  then have c: "unat (drop_bit 3 (ctx_bits ?ctx ! 0) AND 0x3f) = length msg"
    using md5_holds_index [of ?ctx pre msg] holds part by (simp only:)
  have "\<not> 64 - 1 - length msg < 8" using assms(2) by linarith
  then have "ctx_in (md5_finish ?ctx) = blit 60 (le_bytes 4 (ctx_bits ?ctx ! 1)) (blit 56 (le_bytes 4 (ctx_bits ?ctx ! 0))
      (blit (length msg + 1) (replicate (64 - 1 - length msg - 8) 0) (blit (length msg) [0x80] (ctx_in ?ctx))))"
    by (simp only: md5_finish_def Let_def c transform_in_def if_False) simp
  then have "take (length msg) (ctx_in (md5_finish ?ctx)) = take (length msg) (ctx_in ?ctx)"
    using tail(2) assms(2) by (simp add: blit_def)
  then show ?thesis using tail(1) by (simp add: MD5Final_def Let_def clear_ctx_def)
qed

theorem md5_context_not_cleared_witness:
  "take 3 (ctx_in (snd (MD5Final (md5_feed [[97, 98, 99]] \<lparr>ctx_buf = [], ctx_bits = [], ctx_in = replicate 64 0\<rparr>)))) = [97, 98, 99]"
  using md5_context_not_cleared [of "\<lparr>ctx_buf = [], ctx_bits = [], ctx_in = replicate 64 0\<rparr>" "[97, 98, 99]"] by (simp add: numeral_3_eq_3)

end
