(* ===== verification/Spec2Isabelle.thy ===== *)
theory Spec2Isabelle
  imports Network Interval_Array Queue Journal Hardlink_List Md5
begin

text \<open>
  A verification library for the daemon \<^verbatim>\<open>zfsd\<close> of the distributed file system zlomekFS. All source files named
  here are below \<^verbatim>\<open>src/zfsd\<close>.

  \<^bold>\<open>The program.\<close> A node runs the daemon, which serves the files of volumes to the local kernel and to the daemons of
  other nodes. Nodes call each other's procedures: a client stub encodes the request into a data coding buffer and sends the packet; the
  network thread of the peer receives packets piece by piece and hands them to worker threads through a queue; a
  worker decodes the arguments, calls the procedure, encodes the result and replies; the reply wakes the thread that waits for it. What a
  node has to transfer is kept as sets of file offsets (interval trees over splay trees) and as
  journals of directory changes; hard link lists say where a file is. These structures rest on
  hash tables, allocation pools, variable-sized arrays, checksums and digests.

  \<^bold>\<open>How the code is modelled.\<close> A C structure is a record, an enumeration a datatype, an integer a word of its
  width, with the wrap-around of C. An operation is a function from the state to the new state; \<^term>\<open>None\<close>
  stands for an abort or a loop that does not end, and error returns are values. Memory that the code addresses with pointers is
  a map from addresses to cells (\<open>Chain\<close>) or a list of nodes; byte buffers are lists that are written with \<^const>\<open>blit\<close>. The
  model is that of a build for a little-endian machine without \<^verbatim>\<open>ENABLE_CHECKING\<close>. Locks are not modelled: operations are
  taken with the locks they need held, and waiting for a condition variable splits an operation in two.

  \<^bold>\<open>The theories.\<close>

  \<^item> \<open>Zfs_Prelude\<close>: machine integers, byte memory, little-endian words and the collections of simplification rules.

  \<^item> \<open>Data_Coding\<close>: the buffer \<^verbatim>\<open>DC\<close> of \<^verbatim>\<open>zfs-protocol/data-coding.c\<close>, alignment, the coders of integers and strings, the
    framing of packets. The locale \<open>codec\<close> is the contract of an encoder and its decoder; \<open>simple_type\<close> gives it for the integers.

  \<^item> \<open>Zfs_Protocol\<close>, \<open>Message_Coding\<close>, \<open>Message_Size\<close>: the types of \<^verbatim>\<open>zfs-protocol/zfs-prot.h\<close>, the coders of all messages, each an
    interpretation of \<open>codec\<close>, and the room they take in a packet.

  \<^item> \<open>Zfs_Calls\<close>: the procedures of \<^verbatim>\<open>zfs-protocol/zfs-prot.def\<close> and the requests the stubs of \<^verbatim>\<open>zfs-prot.c\<close> make.

  \<^item> \<open>Network\<close>: the connections of \<^verbatim>\<open>network/network.c\<close>. A request is served with the arguments of the client however its packet is
    cut into pieces; procedures above the authentication level of the peer have no effect; a request whose number can be read gets one packet, which is the reply
    to that number, and a reply wakes its caller; the receiver stays inside its buffers for announced lengths from 4 to 2^31; for a length below 4 it can overrun the
    buffer, and for one of at least 2^31 + 12 it asks for more bytes than the array it reads into has. The procedures themselves are a parameter; what is assumed of
    them is stated where they are used.

  \<^item> \<open>Crc32\<close> and \<open>Md5\<close>: \<^verbatim>\<open>lib/crc32\<close> and \<^verbatim>\<open>lib/md5\<close>. The table driven checksum is the bit by bit one; the digest of a message passed in pieces is the
    digest of RFC 1321. Contexts keep their types, and are not cleared.

  \<^item> \<open>Splay_Tree\<close>: \<^verbatim>\<open>lib/splay-tree\<close> as an ordered map (locale \<open>ordered_map\<close>) that releases every value once.

  \<^item> \<open>Varray\<close> and \<open>Zfs_Util\<close>: \<^verbatim>\<open>lib/varray\<close> as lists, and the full reads and writes of \<^verbatim>\<open>lib/util/util.c\<close> over
    a kernel that makes short transfers, interrupts and errors. The counters of these loops have 32 bits, so the transfers are shown to be complete for
    fewer than 2^32 bytes.

  \<^item> \<open>Interval_Map\<close>, \<open>Interval_Tree\<close>, \<open>Interval_Array\<close>: \<^verbatim>\<open>lib/interval-tree\<close> as sets of offsets, with intersection, complement (which can
    reach beyond the interval asked for) and files; the locale \<open>piecewise\<close> lifts an operation on one interval to the intervals of an array.

  \<^item> \<open>Data_Refinement\<close>: the locale of a data structure that refines an abstract value under sequences of operations, interpreted for hash
    tables, queues, journals and hard link lists.

  \<^item> \<open>Prime_Table\<close> and \<open>Hash_Table\<close>: \<^verbatim>\<open>lib/hashtab\<close> as sets. Probing ends because sizes are prime and an empty slot is left.

  \<^item> \<open>Alloc_Pool\<close>: \<^verbatim>\<open>lib/alloc-pool\<close>. Elements in use are apart and inside their blocks; the steps of the
    clients are an inductive relation.

  \<^item> \<open>Queue\<close>: \<^verbatim>\<open>lib/queue\<close>, first in first out for any interleaving of its threads. The nodes of delivered elements are
    never released.

  \<^item> \<open>C_String\<close>, \<open>Chain\<close>, \<open>Hashed_Chain\<close>, \<open>Keyed_List\<close>: what journals and hard link lists share, names, doubly linked chains, chains with a hash
    table, and the list with keys (locale \<open>keyed_entries\<close>) that they are.

  \<^item> \<open>Journal\<close> and \<open>Hardlink_List\<close>: \<^verbatim>\<open>fs-entities/journal\<close> and \<^verbatim>\<open>fs-entities/hardlink\<close>. A journal leads from the directory the master
    knows to the local one; hard link lists are lists without repetitions, whose reported length is right
    until they are emptied.

  \<^bold>\<open>Bounds and fuel.\<close> Loops that the code does not bound are partial functions with values in an option type, and the theorems show
  that they return; the full read that never returns is shown to be \<^term>\<open>None\<close>. Every sequence of operations that is shown not to fail has its bound in the theorem. The release of a chain takes fuel: the number of elements in the hash table, which
  is at least the length of the chain. Hash tables are shown correct up to 524287 live elements: their sizes
  are proved prime up to 1048573, by trial division, and a table is at most doubled; larger tables of the code are not covered, and this bounds the sequences of operations on
  hash tables, journals and hard link lists. Names are taken without zero bytes inside, since the code hashes names by length and compares them
  with \<^verbatim>\<open>strcmp\<close>.

  \<^bold>\<open>Not modelled.\<close> File handles, dentries, capabilities, directories, files, metadata files, volumes, nodes, updates and versions form one
  graph of objects with mutexes that operations release and take again while they wait for disks and other nodes; a faithful model
  needs a semantics of threads and of the local file system, which this development does not have. Configuration, kernel interfaces,
  the start of the daemon, logging and the tools are input and output through libraries. Of the network, connecting, timeouts, the
  poll loop and the growth of the thread pool are left out. Debugging output, and the memory of the names in journals and hard link
  lists, are left out of the parts that are modelled.
\<close>

end
